(* ===== verification/Prelude.thy ===== *)
theory Prelude imports Main "HOL-Library.Word" "HOL-Library.Multiset" begin

text \<open>
  What the components share: machine integers and bytes, the outcome of a piece of C++ code
  (a value, a fault where the language gives no behaviour, or no return at all), checked
  accesses to arrays, and the byte order of integers in memory.
\<close>

unbundle bit_operations_syntax

type_synonym byte = "8 word"
type_synonym u16 = "16 word"
type_synonym u32 = "32 word"
type_synonym u64 = "64 word"

named_theorems exec_simps \<open>evaluation of sequenced code\<close>

subsection \<open>Outcomes\<close>

text \<open>
  \<open>fault\<close> names the ways a run leaves the behaviour the language defines: an access outside an
  object, through a null, freed or never initialised pointer, a release of what is not held.
  The outcome \<open>None\<close> is a run that does not return, \<open>Some (Inl f)\<close> a fault,
  \<open>Some (Inr x)\<close> a run that returns \<open>x\<close>.
\<close>

datatype fault =
    OutOfBounds
  | NullDeref
  | Dangling
  | Indeterminate

type_synonym 'a exec = "(fault + 'a) option"

definition ret :: "'a \<Rightarrow> 'a exec" where
  "ret x = Some (Inr x)"

definition crash :: "fault \<Rightarrow> 'a exec" where
  "crash f = Some (Inl f)"

definition seq :: "'a exec \<Rightarrow> ('a \<Rightarrow> 'b exec) \<Rightarrow> 'b exec" where
  "seq m k = (case m of None \<Rightarrow> None | Some r \<Rightarrow> (case r of Inl f \<Rightarrow> Some (Inl f) | Inr x \<Rightarrow> k x))"

lemma seq_ret [simp, exec_simps]: "seq (ret x) k = k x"
  by (simp add: seq_def ret_def)

lemma seq_crash [simp, exec_simps]: "seq (crash f) k = crash f"
  by (simp add: seq_def crash_def)

lemma seq_None [simp, exec_simps]: "seq None k = None"
  by (simp add: seq_def)

lemma seq_seq: "seq (seq m k) h = seq m (\<lambda>x. seq (k x) h)"
  by (simp add: seq_def split: option.splits sum.splits)

lemma ret_inject [simp]: "ret x = ret y \<longleftrightarrow> x = y"
  by (simp add: ret_def)

lemma ret_not_crash [simp]: "ret x \<noteq> crash f" "crash f \<noteq> ret x" "ret x \<noteq> None" "crash f \<noteq> None"
    "None \<noteq> ret x" "None \<noteq> crash f"
  by (simp_all add: ret_def crash_def)

lemma ret_Some [simp]: "\<exists>y. ret x = Some y" "\<exists>y. crash f = Some y"
  by (simp_all add: ret_def crash_def)

lemma seq_eq_ret [exec_simps]: "seq m k = ret y \<longleftrightarrow> (\<exists>x. m = ret x \<and> k x = ret y)"
  by (auto simp: seq_def ret_def split: option.splits sum.splits)

lemma seq_eq_Some: "seq m k = Some y \<longleftrightarrow> (\<exists>f. m = crash f \<and> y = Inl f) \<or> (\<exists>x. m = ret x \<and> k x = Some y)"
  by (auto simp: seq_def ret_def crash_def split: option.splits sum.splits)

lemma seq_eq_None: "seq m k = None \<longleftrightarrow> m = None \<or> (\<exists>x. m = ret x \<and> k x = None)"
  by (auto simp: seq_def ret_def split: option.splits sum.splits)

lemma seq_eq_crash: "seq m k = crash f \<longleftrightarrow> m = crash f \<or> (\<exists>x. m = ret x \<and> k x = crash f)"
  by (auto simp: seq_def ret_def crash_def split: option.splits sum.splits)

lemma crash_inject [simp]: "crash f = crash g \<longleftrightarrow> f = g"
  by (simp add: crash_def)

lemma exec_cases [case_names None crash ret]:
  obtains "m = None" | f where "m = crash f" | x where "m = ret x"
proof (cases m)
  case (Some y)
  with that show ?thesis by (cases y) (auto simp: ret_def crash_def)
qed (rule that(1))

lemma ret_eq_Some: "ret x = Some y \<longleftrightarrow> y = Inr x"
  by (auto simp: ret_def)

lemma crash_eq_Some: "crash f = Some y \<longleftrightarrow> y = Inl f"
  by (auto simp: crash_def)

lemma seq_cong:
  "m = m' \<Longrightarrow> (\<And>x. m' = ret x \<Longrightarrow> k x = k' x) \<Longrightarrow> seq m k = seq m' k'"
  by (simp add: seq_def ret_def split: option.split sum.split)

text \<open>Recursive calls may stand under \<open>seq\<close> in a \<^theory_text>\<open>partial_function (option)\<close>.\<close>

lemma seq_mono [partial_function_mono]:
  assumes m: "mono_option B" and k: "\<And>y. mono_option (\<lambda>f. C y f)"
  shows "mono_option (\<lambda>f. seq (B f) (\<lambda>y. C y f))"
proof (rule monotoneI)
  fix f g :: "'a \<Rightarrow> 'b option"
  assume fg: "fun_ord option_ord f g"
  have B: "B f = None \<or> B f = B g"
    using m fg by (auto simp: monotone_on_def flat_ord_def)
  have C: "C y f = None \<or> C y f = C y g" for y
    using k [of y] fg by (auto simp: monotone_on_def flat_ord_def)
  show "option_ord (seq (B f) (\<lambda>y. C y f)) (seq (B g) (\<lambda>y. C y g))"
  proof (cases "\<exists>x. B g = Some (Inr x)")
    case True
    then obtain x where "B g = Some (Inr x)" ..
    with B C [of x] show ?thesis by (auto simp: seq_def flat_ord_def)
  next
    case False
    with B False show ?thesis by (cases "B g") (auto simp: seq_def flat_ord_def split: option.split sum.split)
  qed
qed

subsection \<open>Arrays\<close>

text \<open>
  An array of fixed size is a function on indices; every access goes through \<open>rd\<close> and
  \<open>wr\<close>, which fault outside \<open>0..<n\<close>. A buffer whose size is known at run time only is a
  list, accessed through \<open>rdl\<close> and \<open>slice\<close>.
\<close>

definition rd :: "int \<Rightarrow> (int \<Rightarrow> 'a) \<Rightarrow> int \<Rightarrow> 'a exec" where
  "rd n a i = (if 0 \<le> i \<and> i < n then ret (a i) else crash OutOfBounds)"

definition wr :: "int \<Rightarrow> (int \<Rightarrow> 'a) \<Rightarrow> int \<Rightarrow> 'a \<Rightarrow> (int \<Rightarrow> 'a) exec" where
  "wr n a i v = (if 0 \<le> i \<and> i < n then ret (a(i := v)) else crash OutOfBounds)"

definition rdl :: "'a list \<Rightarrow> nat \<Rightarrow> 'a exec" where
  "rdl xs i = (if i < length xs then ret (xs ! i) else crash OutOfBounds)"

definition slice :: "'a list \<Rightarrow> nat \<Rightarrow> nat \<Rightarrow> 'a list exec" where
  "slice xs i n = (if i + n \<le> length xs then ret (take n (drop i xs)) else crash OutOfBounds)"

lemma rd_ok [simp, exec_simps]: "0 \<le> i \<Longrightarrow> i < n \<Longrightarrow> rd n a i = ret (a i)"
  by (simp add: rd_def)

lemma wr_ok [simp, exec_simps]: "0 \<le> i \<Longrightarrow> i < n \<Longrightarrow> wr n a i v = ret (a(i := v))"
  by (simp add: wr_def)

lemma rdl_ok [simp, exec_simps]: "i < length xs \<Longrightarrow> rdl xs i = ret (xs ! i)"
  by (simp add: rdl_def)

lemma slice_ok [simp, exec_simps]: "i + n \<le> length xs \<Longrightarrow> slice xs i n = ret (take n (drop i xs))"
  by (simp add: slice_def)

lemma slice_ret_length: "slice xs i n = ret ys \<Longrightarrow> length ys = n \<and> i + n \<le> length xs"
  by (auto simp: slice_def split: if_splits)

subsection \<open>Reading through a pointer\<close>

text \<open>
  A pair of pointers \<open>src\<close> and \<open>srcend\<close> into a buffer: the bytes that are there from \<open>src\<close> on, and
  the distance to \<open>srcend\<close>. \<open>fetch\<close> is \<open>*src++\<close>, \<open>next_byte\<close> is
  \<open>if (src < srcend) c = *src++;\<close> with \<open>None\<close> for the \<open>else\<close>.
\<close>

type_synonym cursor = "byte list \<times> nat"

definition fetch :: "cursor \<Rightarrow> (byte \<times> cursor) exec" where
  "fetch cur = (case fst cur of [] \<Rightarrow> crash OutOfBounds | b # bs \<Rightarrow> ret (b, (bs, snd cur - 1)))"

definition next_byte :: "cursor \<Rightarrow> (byte \<times> cursor) option exec" where
  "next_byte cur = (if snd cur = 0 then ret None else seq (fetch cur) (\<lambda>cc. ret (Some cc)))"

lemma fetch_Cons [simp]: "fetch (b # bs, Suc n) = ret (b, (bs, n))"
  by (simp add: fetch_def)

lemma next_byte_simps [simp]:
  "next_byte (bs, 0) = ret None"
  "next_byte (b # bs, Suc n) = ret (Some (b, (bs, n)))"
  by (simp_all add: next_byte_def)

subsection \<open>Writing into a buffer\<close>

text \<open>
  \<open>blit buf i bs\<close> is \<open>memcpy(buf + i, bs, n)\<close> into an allocation of \<open>length buf\<close> bytes; \<open>fresh\<close> is an
  allocation whose contents \<open>junk\<close> are indeterminate.
\<close>

definition blit :: "'a list \<Rightarrow> nat \<Rightarrow> 'a list \<Rightarrow> 'a list exec" where
  "blit buf i bs = (if i + length bs \<le> length buf
     then ret (take i buf @ bs @ drop (i + length bs) buf) else crash OutOfBounds)"

definition fresh :: "(nat \<Rightarrow> 'a) \<Rightarrow> nat \<Rightarrow> 'a list" where
  "fresh junk n = map junk [0..<n]"

lemma blit_ok [simp, exec_simps]:
  "i + length bs \<le> length buf \<Longrightarrow> blit buf i bs = ret (take i buf @ bs @ drop (i + length bs) buf)"
  by (simp add: blit_def)

lemma length_fresh [simp]: "length (fresh junk n) = n"
  by (simp add: fresh_def)

subsection \<open>Integers in memory\<close>

text \<open>
  \<open>be32\<close> and \<open>be32_bytes\<close> are \<open>ntohl\<close> and \<open>htonl\<close> on an integer in memory; \<open>le32\<close>, \<open>le16\<close> read an
  integer the way the (little-endian) machine does.
\<close>

definition be32 :: "byte list \<Rightarrow> u32" where
  "be32 bs = foldl (\<lambda>w b. push_bit 8 w OR ucast b) 0 bs"

definition be32_bytes :: "u32 \<Rightarrow> byte list" where
  "be32_bytes w = [ucast (drop_bit 24 w), ucast (drop_bit 16 w), ucast (drop_bit 8 w), ucast w]"

definition le32 :: "byte list \<Rightarrow> u32" where
  "le32 bs = be32 (rev bs)"

definition le32_bytes :: "u32 \<Rightarrow> byte list" where
  "le32_bytes w = rev (be32_bytes w)"

definition le16 :: "byte list \<Rightarrow> u16" where
  "le16 bs = foldl (\<lambda>w b. push_bit 8 w OR ucast b) 0 (rev bs)"

definition le16_bytes :: "u16 \<Rightarrow> byte list" where
  "le16_bytes w = [ucast w, ucast (drop_bit 8 w)]"

lemma be32_be32_bytes [simp]: "be32 (be32_bytes w) = w"
proof (rule bit_eqI)
  fix n
  assume "possible_bit TYPE(32 word) n"
  then have "n < 32" by simp
  then consider "n < 8" | "8 \<le> n" "n < 16" | "16 \<le> n" "n < 24" | "24 \<le> n" "n < 32" by linarith
  then show "bit (be32 (be32_bytes w)) n = bit w n"
    by cases (auto simp: be32_def be32_bytes_def bit_simps)
qed

lemma le32_le32_bytes [simp]: "le32 (le32_bytes w) = w"
  by (simp add: le32_def le32_bytes_def)

lemma le16_le16_bytes [simp]: "le16 (le16_bytes w) = w"
proof (rule bit_eqI)
  fix n
  assume "possible_bit TYPE(16 word) n"
  then have "n < 16" by simp
  then show "bit (le16 (le16_bytes w)) n = bit w n"
    by (auto simp: le16_def le16_bytes_def bit_simps)
qed

lemma length_be32_bytes [simp]: "length (be32_bytes w) = 4"
  by (simp add: be32_bytes_def)

lemma length_le32_bytes [simp]: "length (le32_bytes w) = 4"
  by (simp add: le32_bytes_def)

lemma length_le16_bytes [simp]: "length (le16_bytes w) = 2"
  by (simp add: le16_bytes_def)

lemma byte_high_bits: "8 \<le> k \<Longrightarrow> \<not> bit (b :: byte) (k + n)"
  using bit_imp_le_length [of b "k + n"] by auto

lemma le32_bytes_le32: "le32_bytes (le32 [a, b, c, d]) = [a, b, c, d]"
  unfolding le32_bytes_def be32_bytes_def le32_def be32_def
  by (auto intro!: bit_word_eqI simp: bit_simps byte_high_bits)

lemma le32_eq: "le32 [a, b, c, d] = w \<longleftrightarrow> [a, b, c, d] = le32_bytes w"
  using le32_bytes_le32 [of a b c d] by (metis le32_le32_bytes)

lemma unat_small: "n < 2 ^ 32 \<Longrightarrow> unat (word_of_nat n :: u32) = n"
  by (simp add: unat_of_nat)

lemma unat_minus_1: "unat (- 1 :: u32) = 2 ^ 32 - 1"
  by (simp add: unsigned_minus_1_eq_mask mask_eq_exp_minus_1)

end
