(* ===== verification/Cstring.thy ===== *)
theory Cstring imports Prelude begin

text \<open>
  C strings: a block of memory as a list of characters, with the character 0 as terminator, and the
  functions of \<^verbatim>\<open>string.h\<close> the program uses. A function that runs off the block faults. A string that is known
  to be terminated is passed as its contents, a \<open>string\<close> without the character 0.
\<close>

abbreviation NUL :: char where "NUL \<equiv> CHR 0x00"

definition terminated :: "string \<Rightarrow> bool" where
  "terminated s \<longleftrightarrow> NUL \<notin> set s"

text \<open>\<open>cstr mem p\<close> is the string a pointer to offset \<open>p\<close> of the block \<open>mem\<close> denotes.\<close>

definition cstr :: "string \<Rightarrow> nat \<Rightarrow> string exec" where
  "cstr mem p = (if NUL \<in> set (drop p mem) then ret (takeWhile (\<lambda>c. c \<noteq> NUL) (drop p mem)) else crash OutOfBounds)"

text \<open>\<open>strchr(mem + p, c)\<close> for a character other than the terminator, as an offset.\<close>

function strchr :: "string \<Rightarrow> nat \<Rightarrow> char \<Rightarrow> nat option exec" where
  "strchr mem p c =
     (if p < length mem then
        (if mem ! p = c then ret (Some p)
         else if mem ! p = NUL then ret None
         else strchr mem (p + 1) c)
      else crash OutOfBounds)"
  by pat_completeness auto
termination by (relation "measure (\<lambda>(mem, p, c). length mem - p)") auto

declare strchr.simps [simp del]

text \<open>The offset of the first occurrence of one string in another (\<open>strstr\<close>).\<close>

fun find_sub :: "string \<Rightarrow> string \<Rightarrow> nat option" where
  "find_sub needle [] = (if needle = [] then Some 0 else None)"
| "find_sub needle (c # hay) =
     (if take (length needle) (c # hay) = needle then Some 0
      else map_option Suc (find_sub needle hay))"

definition lower :: "char \<Rightarrow> char" where
  "lower c = (let n = of_char c :: nat in if 65 \<le> n \<and> n \<le> 90 then char_of (n + 32) else c)"

definition strcasestr :: "string \<Rightarrow> string \<Rightarrow> bool" where
  "strcasestr hay needle \<longleftrightarrow> find_sub (map lower needle) (map lower hay) \<noteq> None"

text \<open>\<open>strncpy(dst, src, n)\<close> writes exactly \<open>n\<close> characters.\<close>

definition strncpy :: "string \<Rightarrow> nat \<Rightarrow> string" where
  "strncpy src n = take n (src @ replicate n NUL)"

definition string_of_bytes :: "byte list \<Rightarrow> string" where
  "string_of_bytes bs = map (\<lambda>b. char_of (unat b)) bs"

lemma length_strncpy [simp]: "length (strncpy src n) = n"
  by (simp add: strncpy_def)

lemma strncpy_exact: "strncpy src (length src) = src"
  by (simp add: strncpy_def)

lemma cstr_terminated: "terminated s \<Longrightarrow> cstr (s @ NUL # rest) 0 = ret s"
  by (simp add: cstr_def terminated_def takeWhile_append)

lemma cstr_unterminated: "terminated s \<Longrightarrow> c \<noteq> NUL \<Longrightarrow> cstr (s @ [c]) 0 = crash OutOfBounds"
  by (simp add: cstr_def terminated_def)

lemma find_sub_Some:
  "find_sub needle hay = Some i \<Longrightarrow> take (length needle) (drop i hay) = needle \<and> i \<le> length hay \<and>
    (\<forall>j < i. take (length needle) (drop j hay) \<noteq> needle)"
proof (induction needle hay arbitrary: i rule: find_sub.induct)
  case (2 needle c hay)
  show ?case
  proof (cases "take (length needle) (c # hay) = needle")
    case False
    with "2.prems" obtain k where k: "find_sub needle hay = Some k" "i = Suc k" by auto
    from "2.IH" [OF False k(1)] have IH: "take (length needle) (drop k hay) = needle" "k \<le> length hay"
      "\<forall>j < k. take (length needle) (drop j hay) \<noteq> needle" by auto
    have "take (length needle) (drop j (c # hay)) \<noteq> needle" if "j < i" for j
      using that IH(3) False k(2) by (cases j) auto
    with IH k show ?thesis by auto
  qed (use "2.prems" in auto)
qed (auto split: if_splits)

lemma find_sub_None: "find_sub needle hay = None \<Longrightarrow> take (length needle) (drop j hay) \<noteq> needle"
proof (induction needle hay arbitrary: j rule: find_sub.induct)
  case (2 needle c hay)
  then show ?case by (cases j) (auto split: if_splits)
qed (auto split: if_splits)

lemma strchr_found:
  assumes "p + i < length mem" "mem ! (p + i) = c" "\<forall>j < i. mem ! (p + j) \<noteq> c \<and> mem ! (p + j) \<noteq> NUL"
  shows "strchr mem p c = ret (Some (p + i))"
  using assms
proof (induction i arbitrary: p)
  case 0
  then show ?case by (subst strchr.simps) simp
next
  case (Suc i)
  have "mem ! p \<noteq> c" "mem ! p \<noteq> NUL" using Suc.prems(3) by (auto dest: spec [of _ 0])
  moreover have "\<forall>j < i. mem ! (p + 1 + j) \<noteq> c \<and> mem ! (p + 1 + j) \<noteq> NUL"
    using Suc.prems(3) by (auto dest: spec [of _ "Suc _"])
  ultimately show ?case using Suc.IH [of "p + 1"] Suc.prems(1,2) by (subst strchr.simps) simp
qed

text \<open>A search in a terminated string stops inside it.\<close>

lemma strchr_cases:
  assumes "NUL \<in> set (drop p mem)"
  shows "(\<exists>q. strchr mem p c = ret (Some q) \<and> p \<le> q \<and> q < length mem \<and> mem ! q = c \<and>
      (\<forall>j. p \<le> j \<and> j < q \<longrightarrow> mem ! j \<noteq> c \<and> mem ! j \<noteq> NUL)) \<or>
    strchr mem p c = ret None"
  using assms
proof (induction mem p c rule: strchr.induct)
  case (1 mem p c)
  then have p: "p < length mem" by (cases "p < length mem") auto
  have d: "drop p mem = mem ! p # drop (p + 1) mem" using p by (simp add: Cons_nth_drop_Suc)
  show ?case
  proof (cases "mem ! p = c")
    case True
    with p show ?thesis by (subst (1) strchr.simps, subst strchr.simps) auto
  next
    case c: False
    show ?thesis
    proof (cases "mem ! p = NUL")
      case True
      with p c show ?thesis by (subst (2) strchr.simps) auto
    next
      case False
      have s: "strchr mem p c = strchr mem (p + 1) c" using p c False by (subst strchr.simps) simp
      have "NUL \<in> set (drop (p + 1) mem)" using "1.prems" False d by auto
      from "1.IH" [OF p c False this] show ?thesis unfolding s
      proof (elim disjE exE conjE)
        fix q assume q: "strchr mem (p + 1) c = ret (Some q)" "p + 1 \<le> q" "q < length mem" "mem ! q = c"
          "\<forall>j. p + 1 \<le> j \<and> j < q \<longrightarrow> mem ! j \<noteq> c \<and> mem ! j \<noteq> NUL"
        have "mem ! j \<noteq> c \<and> mem ! j \<noteq> NUL" if "p \<le> j" "j < q" for j
          using that q(5) c False by (cases "j = p") auto
        with q show "(\<exists>q. strchr mem (p + 1) c = ret (Some q) \<and> p \<le> q \<and> q < length mem \<and> mem ! q = c \<and>
          (\<forall>j. p \<le> j \<and> j < q \<longrightarrow> mem ! j \<noteq> c \<and> mem ! j \<noteq> NUL)) \<or> strchr mem (p + 1) c = ret None"
          by auto
      qed simp
    qed
  qed
qed

end
