(* ===== verification/Usage.thy ===== *)
theory Usage imports Cstring begin

text \<open>
  \<open>PrintUsage\<close> of IMG3_Main.cpp: the texts it prints, one string for each call of \<open>fprintf\<close>.
\<close>

abbreviation TAB :: string where "TAB \<equiv> [CHR 0x09]"
abbreviation NL :: string where "NL \<equiv> [CHR 0x0A]"

definition area_lines :: "string list" where
  "area_lines = map (\<lambda>n. TAB @ TAB @ n @ NL) [
     ''AppleLogo'', ''BatteryCharging0'', ''BatteryCharging1'', ''BatteryFull'', ''BatteryLow0'', ''BatteryLow1'', ''DeviceTree'', ''GlyphCharging'',
     ''GlyphPlugin'', ''iBoot'', ''LLB'', ''RecoveryMode'', ''iBEC'', ''iBSS'', ''KernelCache'']"

definition device_lines :: "string list" where
  "device_lines = map (\<lambda>n. TAB @ TAB @ n @ NL) [
     ''AppleTV'',
     ''iPad       (1st generation)'',
     ''iPad2_Wifi (2nd generation Wi-Fi model)'',
     ''iPad2_GSM  (2nd generation GSM model)'',
     ''iPad2_CDMA (2nd generation CDMA model)'',
     ''iPhone'',
     ''iPhone3G'',
     ''iPhone3GS'',
     ''iPhone4    (GSM and CDMA models)'',
     ''iPod       (1st generation iPod Touch)'',
     ''iPod2      (2nd generation iPod Touch)'',
     ''iPod3      (3rd generation iPod Touch)'',
     ''iPod4      (4th generation iPod Touch)'']"

definition usage_general :: "string \<Rightarrow> string list" where
  "usage_general prog =
    [prog @ '': a program for interacting with Apple img3 files.'' @ NL @ NL,
     ''Standard commands:'' @ NL,
     ''extract'' @ TAB @ TAB @ ''list'' @ TAB @ TAB @ ''dec'' @ TAB @ TAB @ ''update'' @ TAB @ TAB @ ''patch'' @ NL @ NL,
     ''For more information on each, enter the command and use '-h'.'' @ NL @ NL]"

definition usage_extract :: "string \<Rightarrow> string \<Rightarrow> string list" where
  "usage_extract prog cmd =
    [prog @ '' extract command: extracts one, or all, sections of an img3 archive.'' @ NL,
     ''Syntax: '' @ prog @ '' '' @ cmd @ '' -s <section> img3_file'' @ NL @ NL,
     ''Options:'' @ NL,
     ''-s'' @ TAB @ ''Specifies the specific area that should be extracted from the archive.  The currently'' @ NL,
     TAB @ ''supported areas include the following:'' @ NL] @
    area_lines @
    [TAB @ ''All areas are case-insensitive.  If this parameter is left blank, all files will be '' @ NL,
     TAB @ ''extracted from the archive.'' @ NL]"

definition usage_list :: "string \<Rightarrow> string \<Rightarrow> string list" where
  "usage_list prog cmd =
    [prog @ '' list command: list all files contained within the img3 archive.'' @ NL,
     ''Syntax: '' @ prog @ '' '' @ cmd @ '' img3_file'' @ NL @ NL]"

definition usage_decrypt :: "string \<Rightarrow> string \<Rightarrow> string list" where
  "usage_decrypt prog cmd =
    [prog @ '' decrypt command: decrypts a specific device section within an img3 archive.'' @ NL,
     ''Syntax: '' @ prog @ '' '' @ cmd @ '' -d <device> -v <version -o <output file> -s <section> img3_file'' @ NL @ NL,
     ''Options:'' @ NL,
     ''-d'' @ TAB @ ''Specifies the device that the img3 file references.  Currently supported devices include:'' @ NL] @
    device_lines @
    [TAB @ ''These are case sensitive.  If this is NOT specified, the program will attempt to determine this'' @ NL,
     TAB @ ''information based upon the name of the file.  This is not perfect though, so neglect at your'' @ NL,
     TAB @ ''own risk!'' @ NL,
     ''-v'' @ TAB @ ''Specifies the version of firmware the img3 archive represents.  As with the device, if this'' @ NL,
     TAB @ ''option is not specified, the program will attempt to determine it based upon the file name.'' @ NL,
     ''-s'' @ TAB @ ''Specifies the specific area that should be extracted from the archive and decrypted.  The currently'' @ NL,
     TAB @ ''supported areas include the following:'' @ NL] @
    area_lines @
    [TAB @ ''All areas are case-insensitive.  This parameter is NOT optional.'' @ NL]"

definition usage_update :: "string \<Rightarrow> string \<Rightarrow> string list" where
  "usage_update prog cmd =
    [prog @ '' update command: updates the SQLite3 database with new keys and iv for a specified device using HTML '' @ NL,
     ''pages from the website 'theiphonewiki.com'.'' @ NL,
     ''Syntax: '' @ prog @ '' '' @ cmd @ '' -d <device> -v <version> theiphonewiki.com_html_page.'' @ NL @ NL,
     ''Options:'' @ NL,
     ''-d'' @ TAB @ ''This parameter is NOT optional.  It must be included.  Currently supported devices include: '' @ NL] @
    device_lines @
    [TAB @ ''These are case sensitive.'' @ NL,
     ''-v'' @ TAB @ ''Specifies the version of firmware the img3 archive represents.  This parameter is NOT optional.'' @ NL,
     ''-b'' @ TAB @ ''Specifies the build version of the firmware the img3 archive represents.  The program will '' @ NL,
     TAB @ TAB @ ''attempt to extract this information from the file name if possible.  Otherwise, you are '' @ NL,
     TAB @ TAB @ ''required to enter it.'' @ NL]"

definition usage_patch :: "string \<Rightarrow> string \<Rightarrow> string list" where
  "usage_patch prog cmd =
    [prog @ '' patch command: patches the kernel section within an img3 archive.'' @ NL,
     ''Syntax: '' @ prog @ '' '' @ cmd @ '' -d <device> -v <version> patch_file img3_file'' @ NL @ NL,
     ''Options:'' @ NL,
     ''-d'' @ TAB @ ''Specifies the device that the img3 file references.  Currently supported devices include:'' @ NL] @
    device_lines @
    [TAB @ ''These are case sensitive.  If this is NOT specified, the program will attempt to determine this'' @ NL,
     TAB @ ''information based upon the name of the file.  This is not perfect though, so neglect at your'' @ NL,
     TAB @ ''own risk!'' @ NL,
     ''-v'' @ TAB @ ''Specifies the version of firmware the img3 archive represents.  As with the device, if this'' @ NL,
     TAB @ ''option is not specified, the program will attempt to determine it based upon the file name.'' @ NL]"

definition PrintUsage :: "string \<Rightarrow> string option \<Rightarrow> string list" where
  "PrintUsage prog command = (case command of
     None \<Rightarrow> usage_general prog
   | Some cmd \<Rightarrow>
       (if cmd = ''extract'' then usage_extract prog cmd
        else if cmd = ''list'' then usage_list prog cmd
        else if cmd = ''decrypt'' then usage_decrypt prog cmd
        else if cmd = ''update'' then usage_update prog cmd
        else if cmd = ''patch'' then usage_patch prog cmd
        else [''Unknown command entered: '' @ cmd @ ''.'' @ NL]) @ [NL])"

end
