(* ===== verification/History.thy ===== *)
theory History imports Prelude begin

text \<open>
  The life of an object of a class: the calls of its methods, one after the other, with what they return. The locales state what
  a class keeps over every such history; the theories of the classes interpret them on the models of the methods.
\<close>

subsection \<open>Histories of calls\<close>

text \<open>
  \<open>run c s\<close> is the call \<open>c\<close> on an object in the state \<open>s\<close>: what it returns, and the state after it. A history ends where a call
  faults or does not return.
\<close>

inductive history :: "('c \<Rightarrow> 's \<Rightarrow> ('r \<times> 's) exec) \<Rightarrow> 's \<Rightarrow> ('c \<times> 'r) list \<Rightarrow> 's \<Rightarrow> bool" for run where
  history_Nil: "history run s [] s"
| history_Cons: "run c s = ret (r, s') \<Longrightarrow> history run s' tr t \<Longrightarrow> history run s ((c, r) # tr) t"

inductive_simps history_simps [simp]: "history run s [] t" "history run s ((c, r) # tr) t"

inductive_cases history_ConsE: "history run s (e # tr) t"

lemma history_append: "history run s tr t \<Longrightarrow> history run t tr' u \<Longrightarrow> history run s (tr @ tr') u"
  by (induction rule: history.induct) auto

text \<open>The same, computed.\<close>

fun run_all :: "('c \<Rightarrow> 's \<Rightarrow> ('r \<times> 's) exec) \<Rightarrow> 'c list \<Rightarrow> 's \<Rightarrow> ('r list \<times> 's) exec" where
  "run_all run [] s = ret ([], s)"
| "run_all run (c # cs) s = seq (run c s) (\<lambda>(r, s). seq (run_all run cs s) (\<lambda>(rs, s). ret (r # rs, s)))"

lemma history_run_all: "history run s tr t \<longleftrightarrow> run_all run (map fst tr) s = ret (map snd tr, t)"
proof (induction tr arbitrary: s)
  case (Cons e tr)
  then show ?case by (cases e) (auto simp: seq_eq_ret)
qed auto

text \<open>
  A list of calls whose preconditions \<open>pre\<close> hold when it is their turn. A call that does not return ends the list: that there is no
  such call is what \<open>guarded_class\<close> shows.
\<close>

fun plan_ok :: "('c \<Rightarrow> 's \<Rightarrow> bool) \<Rightarrow> ('c \<Rightarrow> 's \<Rightarrow> ('r \<times> 's) exec) \<Rightarrow> 'c list \<Rightarrow> 's \<Rightarrow> bool" where
  "plan_ok pre run [] s = True"
| "plan_ok pre run (c # cs) s = (pre c s \<and> (case run c s of Some (Inr (r, s')) \<Rightarrow> plan_ok pre run cs s' | _ \<Rightarrow> True))"

text \<open>The run of an automaton that sees the calls and what they return.\<close>

fun moves_all :: "('p \<Rightarrow> 'c \<Rightarrow> 'r \<Rightarrow> 'p option) \<Rightarrow> 'p \<Rightarrow> ('c \<times> 'r) list \<Rightarrow> 'p option" where
  "moves_all moves p [] = Some p"
| "moves_all moves p ((c, r) # tr) = Option.bind (moves p c r) (\<lambda>q. moves_all moves q tr)"

subsection \<open>What a class keeps\<close>

locale object_class =
  fixes run :: "'c \<Rightarrow> 's \<Rightarrow> ('r \<times> 's) exec"
    and inv :: "'s \<Rightarrow> bool"
  assumes keeps: "inv s \<Longrightarrow> run c s = ret (r, s') \<Longrightarrow> inv s'"
begin

lemma history_inv: "history run s tr t \<Longrightarrow> inv s \<Longrightarrow> inv t"
  by (induction rule: history.induct) (auto dest: keeps)

end

text \<open>A class whose calls, made when their preconditions hold, return.\<close>

locale guarded_class =
  fixes run :: "'c \<Rightarrow> 's \<Rightarrow> ('r \<times> 's) exec"
    and inv :: "'s \<Rightarrow> bool"
    and pre :: "'c \<Rightarrow> 's \<Rightarrow> bool"
  assumes returns: "inv s \<Longrightarrow> pre c s \<Longrightarrow> \<exists>r s'. run c s = ret (r, s') \<and> inv s'"
begin

lemma plan_runs:
  assumes "inv s" "plan_ok pre run cs s"
  shows "\<exists>tr t. map fst tr = cs \<and> history run s tr t \<and> inv t"
  using assms
proof (induction cs arbitrary: s)
  case Nil
  then show ?case by (intro exI [of _ "[]"]) auto
next
  case (Cons c cs)
  then have "pre c s" by simp
  from returns [OF Cons.prems(1) this] obtain r s' where r: "run c s = ret (r, s')" "inv s'" by blast
  with Cons.prems(2) have "plan_ok pre run cs s'" by (simp add: ret_def)
  from Cons.IH [OF r(2) this] obtain tr t where "map fst tr = cs" "history run s' tr t" "inv t" by blast
  with r show ?case by (intro exI [of _ "(c, r) # tr"]) auto
qed

end

text \<open>A class that keeps its pointers: a call faults only by reading or writing outside a block, and the destructor succeeds.\<close>

locale owning_class = object_class run inv
  for run :: "'c \<Rightarrow> 's \<Rightarrow> ('r \<times> 's) exec" and inv :: "'s \<Rightarrow> bool" +
  fixes destroy :: "'s \<Rightarrow> 's exec"
  assumes faults: "inv s \<Longrightarrow> run c s = crash f \<Longrightarrow> f = OutOfBounds"
    and destroys: "inv s \<Longrightarrow> \<exists>t. destroy s = ret t"
begin

lemma history_safe:
  assumes "inv s" "history run s tr t"
  shows "inv t \<and> (\<exists>u. destroy t = ret u) \<and> (\<forall>c f. run c t = crash f \<longrightarrow> f = OutOfBounds)"
  using history_inv [OF assms(2,1)] faults destroys by blast

end

text \<open>A class whose states follow an automaton that sees only the calls and what they return.\<close>

locale automaton_class = object_class run inv
  for run :: "'c \<Rightarrow> 's \<Rightarrow> ('r \<times> 's) exec" and inv :: "'s \<Rightarrow> bool" +
  fixes phase :: "'s \<Rightarrow> 'p"
    and moves :: "'p \<Rightarrow> 'c \<Rightarrow> 'r \<Rightarrow> 'p option"
  assumes follows: "inv s \<Longrightarrow> run c s = ret (r, s') \<Longrightarrow> moves (phase s) c r = Some (phase s')"
begin

lemma history_phase: "history run s tr t \<Longrightarrow> inv s \<Longrightarrow> moves_all moves (phase s) tr = Some (phase t)"
  by (induction rule: history.induct) (auto simp: follows dest: keeps)

end

end
