(* ===== verification/Openssl.thy ===== *)
theory Openssl imports Cstring History begin

text \<open>
  \<open>IMG3_OpensslInterface\<close> (src/src/openssl/IMG3_OpensslInterface.cpp): hexadecimal keys, the key and IV
  buffers, and the calls into OpenSSL. The library is not part of the repository: what
  \<^verbatim>\<open>EVP_*Update\<close> and \<^verbatim>\<open>EVP_*Final_ex\<close> write after given calls on a context is a parameter of the definitions that call them.
\<close>

subsection \<open>Hexadecimal digits\<close>

definition hex_value :: "char \<Rightarrow> nat option" where
  "hex_value c = (let n = of_char c :: nat in
     if 48 \<le> n \<and> n \<le> 57 then Some (n - 48)
     else if 97 \<le> n \<and> n \<le> 102 then Some (n - 87)
     else if 65 \<le> n \<and> n \<le> 70 then Some (n - 55)
     else None)"

definition is_space :: "char \<Rightarrow> bool" where
  "is_space c \<longleftrightarrow> (let n = of_char c :: nat in n = 32 \<or> (9 \<le> n \<and> n \<le> 13))"

text \<open>
  \<open>sscanf(hex, "%02x", &byte)\<close>: white space is skipped, at most two characters are converted, a sign is one of
  them; \<open>None\<close> when nothing is converted (a prefix \<^verbatim>\<open>0x\<close> uses up both characters).
\<close>

definition scan_digits :: "string \<Rightarrow> u32 option" where
  "scan_digits s = (case s of
     [] \<Rightarrow> None
   | [a] \<Rightarrow> map_option word_of_nat (hex_value a)
   | a # b # _ \<Rightarrow>
       (if a = CHR ''0'' \<and> (b = CHR ''x'' \<or> b = CHR ''X'') then None
        else case hex_value a of
          Some m \<Rightarrow> (case hex_value b of Some n \<Rightarrow> Some (word_of_nat (16 * m + n)) | None \<Rightarrow> Some (word_of_nat m))
        | None \<Rightarrow> None))"

definition scan_hex2 :: "string \<Rightarrow> u32 option" where
  "scan_hex2 s = (case dropWhile is_space s of
     [] \<Rightarrow> None
   | c # cs \<Rightarrow>
       (if c = CHR ''-'' then map_option uminus (scan_digits (take 1 cs))
        else if c = CHR ''+'' then scan_digits (take 1 cs)
        else scan_digits (c # take 1 cs)))"

text \<open>The loop of \<open>HexToBytes\<close>; \<open>junk\<close> is the value of the local \<open>byte\<close> when nothing is converted.\<close>

fun HexToBytes :: "u32 \<Rightarrow> string \<Rightarrow> nat \<Rightarrow> byte list" where
  "HexToBytes junk hex 0 = []"
| "HexToBytes junk hex (Suc bytes) =
     ucast (case scan_hex2 hex of Some w \<Rightarrow> w | None \<Rightarrow> junk) # HexToBytes junk (drop 2 hex) bytes"

subsection \<open>The object\<close>

text \<open>A buffer of the object: null, allocated, or released with the pointer kept.\<close>

datatype buffer = NullBuf | Buf "byte list" | FreedBuf

record openssl =
  ssl_key :: buffer
  ssl_iv :: buffer
  keySize :: nat
  ivSize :: nat

definition new_openssl :: openssl where
  "new_openssl = \<lparr>ssl_key = NullBuf, ssl_iv = NullBuf, keySize = 0, ivSize = 0\<rparr>"

text \<open>\<open>if (key != NULL) delete(key);\<close> the pointer is not reset.\<close>

definition delete_buf :: "buffer \<Rightarrow> buffer exec" where
  "delete_buf b = (case b of NullBuf \<Rightarrow> ret NullBuf | Buf bs \<Rightarrow> ret FreedBuf | FreedBuf \<Rightarrow> crash Dangling)"

definition read_buf :: "buffer \<Rightarrow> nat \<Rightarrow> byte list exec" where
  "read_buf b n = (case b of NullBuf \<Rightarrow> crash NullDeref | Buf bs \<Rightarrow> slice bs 0 n | FreedBuf \<Rightarrow> crash Dangling)"

definition destroy_openssl :: "openssl \<Rightarrow> openssl exec" where
  "destroy_openssl o' = seq (delete_buf (ssl_key o')) (\<lambda>k. seq (delete_buf (ssl_iv o')) (\<lambda>i.
     ret (o'\<lparr>ssl_key := k, ssl_iv := i\<rparr>)))"

definition SetKeyAndIV :: "u32 \<Rightarrow> string option \<Rightarrow> string option \<Rightarrow> openssl \<Rightarrow> (int \<times> openssl) exec" where
  "SetKeyAndIV junk newKey newIV s0 = (case (newKey, newIV) of
     (Some k, Some v) \<Rightarrow>
       seq (delete_buf (ssl_key s0)) (\<lambda>kb. seq (delete_buf (ssl_iv s0)) (\<lambda>vb.
         let s1 = s0\<lparr>ssl_key := kb, ssl_iv := vb, keySize := length k div 2\<rparr> in
         if keySize s1 * 8 \<notin> {128, 192, 256} then ret (- 1, s1)
         else
           let s2 = s1\<lparr>ivSize := length v div 2\<rparr> in
           if ivSize s2 * 8 \<noteq> 128 then ret (- 1, s2)
           else ret (0, s2\<lparr>ssl_key := Buf (HexToBytes junk k (keySize s2)),
                           ssl_iv := Buf (HexToBytes junk v (ivSize s2))\<rparr>)))
   | _ \<Rightarrow> ret (- 1, s0))"

text \<open>
  The library keeps a cipher context, and what it writes depends on the calls made on it since \<^verbatim>\<open>EVP_CIPHER_CTX_init\<close>:
  \<^verbatim>\<open>EVP_CIPHER_CTX_set_padding\<close>, the two \<^verbatim>\<open>EVP_*Init_ex\<close> with \<^verbatim>\<open>EVP_aes_256_cbc\<close>, which read 32 bytes of key and 16 of
  IV, and \<^verbatim>\<open>EVP_*Update\<close>. The parameter \<open>evp\<close> has what \<open>Update\<close> writes for an input, and what \<open>Final\<close> writes, after a list of calls.
\<close>

datatype evp_call =
    SetPadding bool
  | EncryptInit "byte list" "byte list"
  | DecryptInit "byte list" "byte list"
  | Update "byte list"

record evp =
  evp_update :: "evp_call list \<Rightarrow> byte list \<Rightarrow> byte list"
  evp_final :: "evp_call list \<Rightarrow> byte list"

text \<open>
  The common part of \<open>DecryptData\<close> and \<open>EncryptData\<close>: \<open>output\<close> is the buffer \<open>*output\<close> points to, \<open>None\<close> for a null
  pointer, in which case a zeroed buffer is allocated. Padding is switched off before the context is given its cipher. The result is
  the buffer and the last \<open>bytesWritten\<close>; \<open>None\<close> stands for \<open>return -1\<close>.
\<close>

definition run_cipher ::
    "evp \<Rightarrow> (byte list \<Rightarrow> byte list \<Rightarrow> evp_call) \<Rightarrow> openssl \<Rightarrow> byte list option \<Rightarrow> nat \<Rightarrow> byte list option \<Rightarrow>
     (byte list \<times> int) option exec" where
  "run_cipher e init s input len output = (case input of
     None \<Rightarrow> ret None
   | Some inp \<Rightarrow>
       if len = 0 then ret None
       else
         let out0 = (case output of None \<Rightarrow> replicate len 0 | Some buf \<Rightarrow> buf) in
         seq (read_buf (ssl_key s) 32) (\<lambda>key. seq (read_buf (ssl_iv s) 16) (\<lambda>iv.
         let ctx = [SetPadding False, init key iv] in
         seq (slice inp 0 len) (\<lambda>data.
         let written = evp_update e ctx data; rest = evp_final e (ctx @ [Update data]) in
         seq (blit out0 0 written) (\<lambda>out1. seq (blit out1 (length written) rest) (\<lambda>out2.
           ret (Some (out2, int (length rest)))))))))"

definition DecryptData :: "evp \<Rightarrow> openssl \<Rightarrow> byte list option \<Rightarrow> nat \<Rightarrow> byte list option \<Rightarrow> (int \<times> byte list option) exec" where
  "DecryptData e s input len output = seq (run_cipher e DecryptInit s input len output) (\<lambda>r. case r of
     None \<Rightarrow> ret (- 1, output) | Some bw \<Rightarrow> ret (0, Some (fst bw)))"

definition EncryptData :: "evp \<Rightarrow> openssl \<Rightarrow> byte list option \<Rightarrow> nat \<Rightarrow> byte list option \<Rightarrow> (int \<times> byte list option) exec" where
  "EncryptData e s input len output = seq (run_cipher e EncryptInit s input len output) (\<lambda>r. case r of
     None \<Rightarrow> ret (- 1, output) | Some bw \<Rightarrow> ret (snd bw, Some (fst bw)))"

subsection \<open>Printing and parsing keys\<close>

definition hex_digit :: "nat \<Rightarrow> char" where
  "hex_digit n = (if n < 10 then char_of (48 + n) else char_of (87 + n))"

definition to_hex :: "byte list \<Rightarrow> string" where
  "to_hex bs = concat (map (\<lambda>b. [hex_digit (unat b div 16), hex_digit (unat b mod 16)]) bs)"

lemma hex_digit_facts:
  assumes "n < 16"
  shows "hex_value (hex_digit n) = Some n" "\<not> is_space (hex_digit n)" "hex_digit n \<notin> {CHR ''-'', CHR ''+'', CHR ''x'', CHR ''X''}"
proof -
  have c: "(of_char (hex_digit n) :: nat) = (if n < 10 then 48 + n else 87 + n)"
    using assms by (simp add: hex_digit_def of_char_of)
  show "hex_value (hex_digit n) = Some n" "\<not> is_space (hex_digit n)"
    using assms by (auto simp: hex_value_def is_space_def c)
  have "(of_char (hex_digit n) :: nat) \<notin> {45, 43, 120, 88}" using assms by (auto simp: c)
  moreover have "(of_char CHR ''-'' :: nat) = 45" "(of_char CHR ''+'' :: nat) = 43"
    "(of_char CHR ''x'' :: nat) = 120" "(of_char CHR ''X'' :: nat) = 88" by simp_all
  ultimately show "hex_digit n \<notin> {CHR ''-'', CHR ''+'', CHR ''x'', CHR ''X''}" by (metis insert_iff empty_iff)
qed

lemma unat_byte: "unat (b :: byte) < 256"
  using unsigned_less [of b] by simp

lemma scan_to_hex:
  "scan_hex2 (hex_digit (unat b div 16) # hex_digit (unat b mod 16) # rest) = Some (ucast (b :: byte))"
proof -
  have d: "unat b div 16 < 16" "unat b mod 16 < 16" using unat_byte [of b] by auto
  have "16 * (unat b div 16) + unat b mod 16 = unat b" by simp
  then have "(word_of_nat (16 * (unat b div 16) + unat b mod 16) :: u32) = ucast b" by (simp only: of_nat_unat)
  with hex_digit_facts [OF d(1)] hex_digit_facts [OF d(2)] show ?thesis
    by (simp add: scan_hex2_def scan_digits_def)
qed

lemma HexToBytes_to_hex: "HexToBytes junk (to_hex bs @ rest) (length bs) = bs"
proof (induction bs)
  case (Cons b bs)
  have u: "ucast (ucast b :: u32) = b" by (rule bit_word_eqI) (simp add: bit_simps)
  show ?case using Cons by (simp add: to_hex_def scan_to_hex u)
qed simp

lemma length_to_hex: "length (to_hex bs) = 2 * length bs"
  by (induction bs) (simp_all add: to_hex_def)

lemma length_HexToBytes: "length (HexToBytes junk hex n) = n"
  by (induction junk hex n rule: HexToBytes.induct) simp_all

subsection \<open>Keys\<close>

definition fresh_buffers :: "openssl \<Rightarrow> bool" where
  "fresh_buffers s \<longleftrightarrow> ssl_key s \<noteq> FreedBuf \<and> ssl_iv s \<noteq> FreedBuf"

lemma SetKeyAndIV_ok:
  assumes "fresh_buffers s" "length key \<in> {16, 24, 32}" "length iv = 16"
  shows "SetKeyAndIV junk (Some (to_hex key)) (Some (to_hex iv)) s =
    ret (0, s\<lparr>ssl_key := Buf key, ssl_iv := Buf iv, keySize := length key, ivSize := 16\<rparr>)"
proof -
  have d: "\<exists>k. delete_buf (ssl_key s) = ret k" "\<exists>v. delete_buf (ssl_iv s) = ret v"
    using assms(1) by (auto simp: fresh_buffers_def delete_buf_def split: buffer.splits)
  have k: "HexToBytes junk (to_hex key) n = key" if "length key = n" for n
    using HexToBytes_to_hex [of junk key "[]"] that by simp
  have v: "HexToBytes junk (to_hex iv) 16 = iv"
    using HexToBytes_to_hex [of junk iv "[]"] assms(3) by simp
  show ?thesis using d assms(2,3) by (auto simp: SetKeyAndIV_def Let_def length_to_hex k v)
qed

text \<open>A key of a wrong length is refused after the old buffers have been released, with the pointers to them
  kept: the destructor, or the next call, releases them again.\<close>

theorem SetKeyAndIV_rejected:
  assumes "ssl_key s = Buf k0" "ssl_iv s = Buf v0" "length k div 2 \<notin> {16, 24, 32}"
  shows "\<exists>s'. SetKeyAndIV junk (Some k) (Some v) s = ret (- 1, s') \<and> destroy_openssl s' = crash Dangling \<and>
    SetKeyAndIV junk (Some k) (Some v) s' = crash Dangling"
proof -
  have "length k div 2 * 8 \<notin> {128, 192, 256}" using assms(3) by auto
  then show ?thesis
    using assms(1,2) by (auto simp: SetKeyAndIV_def delete_buf_def Let_def destroy_openssl_def)
qed

theorem SetKeyAndIV_rejected_witness:
  "\<exists>s'. SetKeyAndIV 0 (Some ''00'') (Some ''00'') (new_openssl\<lparr>ssl_key := Buf [], ssl_iv := Buf []\<rparr>) = ret (- 1, s') \<and>
    destroy_openssl s' = crash Dangling"
  using SetKeyAndIV_rejected [of "new_openssl\<lparr>ssl_key := Buf [], ssl_iv := Buf []\<rparr>" "[]" "[]" "''00''" 0 "''00''"]
  by (auto simp: new_openssl_def)

text \<open>C32: the printed form of a key of 16, 24 or 32 bytes and of an IV of 16 bytes is read back to those bytes.\<close>

theorem SetKeyAndIV_reads_hex:
  assumes "fresh_buffers s" "length key \<in> {16, 24, 32}" "length iv = 16"
  shows "SetKeyAndIV junk (Some (to_hex key)) (Some (to_hex iv)) s =
    ret (0, s\<lparr>ssl_key := Buf key, ssl_iv := Buf iv, keySize := length key, ivSize := 16\<rparr>)"
  by (rule SetKeyAndIV_ok [OF assms])

theorem SetKeyAndIV_reads_hex_witness:
  "SetKeyAndIV 0 (Some (to_hex (replicate 16 0xAB))) (Some (to_hex (replicate 16 7))) new_openssl =
    ret (0, \<lparr>ssl_key = Buf (replicate 16 0xAB), ssl_iv = Buf (replicate 16 7), keySize = 16, ivSize = 16\<rparr>)"
  using SetKeyAndIV_reads_hex [of new_openssl "replicate 16 0xAB" "replicate 16 7" 0]
  by (simp add: new_openssl_def fresh_buffers_def)

subsection \<open>Ciphers\<close>

text \<open>
  The library documents that padding is switched off after \<open>Init\<close>. \<open>encrypted\<close> is what it makes of whole blocks in that order; so
  files are encrypted. In the order of the code the call may be lost: \<open>keeps\<close> says whether the library has it survive \<open>Init\<close>
  (releases before 1.1, with which a context on the stack compiles, reset it; later ones keep it).
\<close>

definition encrypted :: "evp \<Rightarrow> byte list \<Rightarrow> byte list \<Rightarrow> byte list \<Rightarrow> byte list" where
  "encrypted e k v p = evp_update e [EncryptInit k v, SetPadding False] p @ evp_final e [EncryptInit k v, SetPadding False, Update p]"

text \<open>
  What is known of the library for data of whole blocks. With padding off, both directions keep the length and are inverse to
  each other, and \<open>Update\<close> writes all of an encryption. With padding on, \<open>Final\<close> adds a block to an encryption; the \<open>Update\<close> of a decryption holds the
  last block back, of which \<open>Final\<close> writes less than 16 bytes, or none if it does not end in a padding.
\<close>

definition evp_law :: "evp \<Rightarrow> bool \<Rightarrow> bool" where
  "evp_law e keeps \<longleftrightarrow> (\<forall>k v p. length k = 32 \<longrightarrow> length v = 16 \<longrightarrow> length p mod 16 = 0 \<longrightarrow>
     length (encrypted e k v p) = length p \<and>
     evp_update e [SetPadding False, EncryptInit k v] p = encrypted e k v p \<and>
     length (evp_final e [SetPadding False, EncryptInit k v, Update p]) = (if keeps then 0 else 16) \<and>
     (let ctx = [SetPadding False, DecryptInit k v]; c = encrypted e k v p in
        if keeps then evp_update e ctx c @ evp_final e (ctx @ [Update c]) = p
        else p \<noteq> [] \<longrightarrow> evp_update e ctx c = take (length p - 16) p \<and> length (evp_final e (ctx @ [Update c])) < 16))"

text \<open>What of a plain text is left by \<open>DecryptData\<close>: all of it, or all but the last block, which ends in a zero of the buffer.\<close>

definition survives :: "bool \<Rightarrow> byte list \<Rightarrow> byte list \<Rightarrow> bool" where
  "survives keeps p q \<longleftrightarrow> length q = length p \<and>
     (if keeps then q = p else take (length p - 16) q = take (length p - 16) p \<and> last q = 0)"

lemma survives_length: "survives keeps p q \<Longrightarrow> length q = length p"
  by (simp add: survives_def)

lemma survives_take:
  assumes "survives keeps p q" "n + 16 \<le> length p"
  shows "take n q = take n p"
proof -
  have "take n (take (length p - 16) q) = take n (take (length p - 16) p)"
  proof (cases keeps)
    case True
    with assms(1) show ?thesis by (simp add: survives_def)
  next
    case False
    with assms(1) have "take (length p - 16) q = take (length p - 16) p" by (simp add: survives_def)
    then show ?thesis by (rule arg_cong)
  qed
  moreover have "min n (length p - 16) = n" using assms(2) by simp
  ultimately show ?thesis by (simp only: take_take)
qed

lemma survives_append:
  assumes "survives keeps (p @ fill) q" "keeps \<or> 16 \<le> length fill"
  shows "\<exists>rest. q = p @ rest"
proof (cases keeps)
  case True
  with assms(1) show ?thesis by (simp add: survives_def)
next
  case False
  then have "take (length p) q = p" using survives_take [OF assms(1), of "length p"] assms(2) by simp
  then show ?thesis by (metis append_take_drop_id)
qed

definition cipher_out :: "evp \<Rightarrow> evp_call \<Rightarrow> byte list \<Rightarrow> byte list" where
  "cipher_out e c d = evp_update e [SetPadding False, c] d @ evp_final e [SetPadding False, c, Update d]"

lemma run_cipher_ok:
  assumes "ssl_key s = Buf k" "length k = 32" "ssl_iv s = Buf v" "length v = 16" "d \<noteq> []"
  shows "run_cipher e init s (Some (d @ rest)) (length d) None =
    (if length (cipher_out e (init k v) d) \<le> length d
     then ret (Some (cipher_out e (init k v) d @ replicate (length d - length (cipher_out e (init k v) d)) 0,
       int (length (evp_final e [SetPadding False, init k v, Update d]))))
     else crash OutOfBounds)"
  using assms by (auto simp: run_cipher_def read_buf_def slice_def blit_def cipher_out_def Let_def)

lemma DecryptData_ok:
  assumes law: "evp_law e keeps" and s: "ssl_key s = Buf k" "length k = 32" "ssl_iv s = Buf v" "length v = 16"
    and p: "p \<noteq> []" "length p mod 16 = 0"
  shows "\<exists>q. survives keeps p q \<and> DecryptData e s (Some (encrypted e k v p @ rest)) (length p) None = ret (0, Some q)"
proof -
  let ?c = "encrypted e k v p" and ?o = "cipher_out e (DecryptInit k v) (encrypted e k v p)"
  have l: "length ?c = length p" using law s p by (simp add: evp_law_def Let_def)
  then have c: "?c \<noteq> []" using p(1) by auto
  have ge: "16 \<le> length p" using p by (cases "length p < 16") auto
  have o': "length ?o \<le> length p \<and> survives keeps p (?o @ replicate (length p - length ?o) 0)"
  proof (cases keeps)
    case True
    then have "?o = p" using law s p by (simp add: evp_law_def cipher_out_def Let_def)
    with True show ?thesis by (simp add: survives_def)
  next
    case False
    then obtain f where f: "?o = take (length p - 16) p @ f" "length f < 16"
      using law s p by (auto simp: evp_law_def cipher_out_def Let_def)
    with False ge show ?thesis by (simp add: survives_def)
  qed
  with run_cipher_ok [OF s c, of e DecryptInit rest] show ?thesis
    by (intro exI [of _ "?o @ replicate (length p - length ?o) 0"]) (simp add: l DecryptData_def)
qed

lemma EncryptData_ok:
  assumes law: "evp_law e keeps" and s: "ssl_key s = Buf k" "length k = 32" "ssl_iv s = Buf v" "length v = 16"
    and p: "p \<noteq> []" "length p mod 16 = 0"
  shows "EncryptData e s (Some (p @ rest)) (length p) None =
    (if keeps then ret (0, Some (encrypted e k v p)) else crash OutOfBounds)"
  using run_cipher_ok [OF s p(1), of e EncryptInit rest] law s p
  by (auto simp: EncryptData_def evp_law_def cipher_out_def Let_def)

subsection \<open>A reference library\<close>

text \<open>A library that obeys the law, with a cipher that adds the first byte of the key to every byte; for one \<open>Update\<close> per context.\<close>

record ref_ctx =
  rc_padding :: bool
  rc_decrypts :: bool
  rc_key :: "byte list"
  rc_data :: "byte list"

fun ref_call :: "bool \<Rightarrow> evp_call \<Rightarrow> ref_ctx \<Rightarrow> ref_ctx" where
  "ref_call keeps (SetPadding b) x = x\<lparr>rc_padding := b\<rparr>"
| "ref_call keeps (EncryptInit k v) x = \<lparr>rc_padding = (keeps \<longrightarrow> rc_padding x), rc_decrypts = False, rc_key = k, rc_data = []\<rparr>"
| "ref_call keeps (DecryptInit k v) x = \<lparr>rc_padding = (keeps \<longrightarrow> rc_padding x), rc_decrypts = True, rc_key = k, rc_data = []\<rparr>"
| "ref_call keeps (Update d) x = x\<lparr>rc_data := d\<rparr>"

definition ref_context :: "bool \<Rightarrow> evp_call list \<Rightarrow> ref_ctx" where
  "ref_context keeps calls = fold (ref_call keeps) calls \<lparr>rc_padding = True, rc_decrypts = False, rc_key = [], rc_data = []\<rparr>"

definition ref_bytes :: "ref_ctx \<Rightarrow> byte list \<Rightarrow> byte list" where
  "ref_bytes x d = map (\<lambda>b. if rc_decrypts x then b - hd (rc_key x) else b + hd (rc_key x)) d"

definition ref_evp :: "bool \<Rightarrow> evp" where
  "ref_evp keeps = \<lparr>
     evp_update = (\<lambda>calls d. let x = ref_context keeps calls in
       if rc_padding x \<and> rc_decrypts x then take (length d - 16) (ref_bytes x d) else ref_bytes x d),
     evp_final = (\<lambda>calls. let x = ref_context keeps calls; d = ref_bytes x (rc_data x) in
       if \<not> rc_padding x then []
       else if \<not> rc_decrypts x then ref_bytes x (replicate 16 16)
       else if 1 \<le> last d \<and> last d \<le> 16 then take (16 - unat (last d)) (drop (length d - 16) d) else [])\<rparr>"

lemma ref_encrypted: "encrypted (ref_evp keeps) k v p = map (\<lambda>b. b + hd k) p"
  by (simp add: encrypted_def ref_evp_def ref_context_def Let_def ref_bytes_def)

lemma ref_final_short:
  assumes "rc_padding (ref_context keeps calls)" "rc_decrypts (ref_context keeps calls)"
  shows "length (evp_final (ref_evp keeps) calls) < 16"
proof -
  have "min n (16 - unat b) < 16" if "1 \<le> b" for b :: byte and n
    using that by (simp add: word_le_nat_alt min_less_iff_disj)
  with assms show ?thesis by (simp add: ref_evp_def Let_def)
qed

lemma ref_evp_law: "evp_law (ref_evp keeps) keeps"
proof -
  have "length (evp_final (ref_evp False) [SetPadding False, DecryptInit k v, Update c]) < 16" for k v c
    by (rule ref_final_short) (simp_all add: ref_context_def)
  moreover have "evp_update (ref_evp keeps) [SetPadding False, EncryptInit k v] p = map (\<lambda>b. b + hd k) p"
    "length (evp_final (ref_evp keeps) [SetPadding False, EncryptInit k v, Update p]) = (if keeps then 0 else 16)" for k v p
    by (simp_all add: ref_evp_def ref_context_def Let_def ref_bytes_def)
  moreover have "evp_update (ref_evp True) [SetPadding False, DecryptInit k v] (map (\<lambda>b. b + hd k) p) = p"
    "evp_final (ref_evp True) [SetPadding False, DecryptInit k v, Update c] = []"
    "evp_update (ref_evp False) [SetPadding False, DecryptInit k v] (map (\<lambda>b. b + hd k) p) = take (length p - 16) p" for k v p c
    by (simp_all add: ref_evp_def ref_context_def Let_def ref_bytes_def take_map comp_def)
  ultimately show ?thesis unfolding evp_law_def ref_encrypted Let_def by (cases keeps) simp_all
qed

text \<open>A key of 128 or 192 bits is accepted by \<open>SetKeyAndIV\<close>, but the cipher, of 256 bits, reads past its end.\<close>

theorem short_key_overread:
  assumes "ssl_key s = Buf k" "length k < 32" "0 < len"
  shows "DecryptData e s (Some inp) len output = crash OutOfBounds"
  using assms by (simp add: DecryptData_def run_cipher_def read_buf_def slice_def Let_def)

theorem short_key_overread_witness:
  "DecryptData (ref_evp True)
    (new_openssl\<lparr>ssl_key := Buf (replicate 16 1), ssl_iv := Buf (replicate 16 2)\<rparr>) (Some (replicate 16 9)) 16 None = crash OutOfBounds"
  by (rule short_key_overread [of _ "replicate 16 1"]) (simp_all add: new_openssl_def)

subsection \<open>Histories of an object\<close>

datatype ssl_call =
    SetKeyAndIV_call u32 "string option" "string option"
  | EncryptData_call evp "byte list option" nat "byte list option"
  | DecryptData_call evp "byte list option" nat "byte list option"

type_synonym ssl_result = "int \<times> byte list option"

fun ssl_run :: "ssl_call \<Rightarrow> openssl \<Rightarrow> (ssl_result \<times> openssl) exec" where
  "ssl_run (SetKeyAndIV_call junk k v) s = seq (SetKeyAndIV junk k v s) (\<lambda>(rc, s). ret ((rc, None), s))"
| "ssl_run (EncryptData_call e inp len out) s = seq (EncryptData e s inp len out) (\<lambda>r. ret (r, s))"
| "ssl_run (DecryptData_call e inp len out) s = seq (DecryptData e s inp len out) (\<lambda>r. ret (r, s))"

text \<open>
  The phases of an object: no key, a key, or two pointers to buffers that have been released. The only calls that leave a phase
  are those of \<open>SetKeyAndIV\<close> with two strings, and no such call, and no run of the cipher, returns from \<open>Released\<close>.
\<close>

datatype ssl_phase = NoKey | Keyed | Released

definition phase_of :: "openssl \<Rightarrow> ssl_phase" where
  "phase_of s = (case ssl_key s of NullBuf \<Rightarrow> NoKey | Buf k \<Rightarrow> Keyed | FreedBuf \<Rightarrow> Released)"

fun set_phase :: "ssl_phase \<Rightarrow> bool \<Rightarrow> ssl_phase option" where
  "set_phase Released accepted = None"
| "set_phase p accepted = Some (if accepted then Keyed else if p = Keyed then Released else NoKey)"

fun ssl_moves :: "ssl_phase \<Rightarrow> ssl_call \<Rightarrow> ssl_result \<Rightarrow> ssl_phase option" where
  "ssl_moves p (SetKeyAndIV_call junk (Some k) (Some v)) r = set_phase p (fst r = 0)"
| "ssl_moves p (SetKeyAndIV_call junk k v) r = Some p"
| "ssl_moves p (EncryptData_call e inp len out) r = (if inp = None \<or> len = 0 \<or> p = Keyed then Some p else None)"
| "ssl_moves p (DecryptData_call e inp len out) r = (if inp = None \<or> len = 0 \<or> p = Keyed then Some p else None)"

text \<open>The two buffers are always in the same phase.\<close>

definition ssl_ok :: "openssl \<Rightarrow> bool" where
  "ssl_ok s \<longleftrightarrow> phase_of s = (case ssl_iv s of NullBuf \<Rightarrow> NoKey | Buf v \<Rightarrow> Keyed | FreedBuf \<Rightarrow> Released)"

lemma phases: "ssl_ok s \<Longrightarrow>
  (phase_of s = NoKey \<and> ssl_key s = NullBuf \<and> ssl_iv s = NullBuf) \<or>
  (phase_of s = Keyed \<and> (\<exists>k v. ssl_key s = Buf k \<and> ssl_iv s = Buf v)) \<or>
  (phase_of s = Released \<and> ssl_key s = FreedBuf \<and> ssl_iv s = FreedBuf)"
  by (auto simp: ssl_ok_def phase_of_def split: buffer.splits)

lemma SetKeyAndIV_phase:
  assumes "ssl_ok s" "SetKeyAndIV junk (Some k) (Some v) s = ret (rc, s')"
  shows "ssl_ok s' \<and> set_phase (phase_of s) (rc = 0) = Some (phase_of s')"
  using phases [OF assms(1)] assms(2)
  by (auto simp: SetKeyAndIV_def delete_buf_def Let_def ssl_ok_def phase_of_def split: if_splits)

lemma run_cipher_phase:
  assumes "ssl_ok s" "run_cipher e init s inp len out = ret r"
  shows "inp = None \<or> len = 0 \<or> phase_of s = Keyed"
  using phases [OF assms(1)] assms(2) by (auto simp: run_cipher_def read_buf_def Let_def split: option.splits if_splits)

lemma SetKeyAndIV_null: "k = None \<or> v = None \<Longrightarrow> SetKeyAndIV junk k v s = ret (- 1, s)"
  by (auto simp: SetKeyAndIV_def split: option.split)

lemma ssl_moves_null: "k = None \<or> v = None \<Longrightarrow> ssl_moves p (SetKeyAndIV_call junk k v) r = Some p"
  by (cases k; cases v) auto

interpretation ssl_class: automaton_class ssl_run ssl_ok phase_of ssl_moves
proof (unfold_locales, goal_cases)
  case (1 s c r s')
  then show ?case
  proof (cases c)
    case (SetKeyAndIV_call junk k v)
    with 1 show ?thesis
      by (cases "k = None \<or> v = None") (auto simp: SetKeyAndIV_null seq_eq_ret dest: SetKeyAndIV_phase)
  qed (auto simp: seq_eq_ret)
next
  case (2 s c r s')
  then show ?case
  proof (cases c)
    case (SetKeyAndIV_call junk k v)
    with 2 show ?thesis
      by (cases "k = None \<or> v = None") (auto simp: SetKeyAndIV_null ssl_moves_null seq_eq_ret dest: SetKeyAndIV_phase)
  next
    case (EncryptData_call e inp len out)
    with 2 show ?thesis by (auto simp: EncryptData_def seq_eq_ret dest: run_cipher_phase)
  next
    case (DecryptData_call e inp len out)
    with 2 show ?thesis by (auto simp: DecryptData_def seq_eq_ret dest: run_cipher_phase)
  qed
qed

lemma destroy_phase: "ssl_ok s \<Longrightarrow> destroy_openssl s = crash Dangling \<longleftrightarrow> phase_of s = Released"
  "ssl_ok s \<Longrightarrow> phase_of s \<noteq> Released \<Longrightarrow> \<exists>s'. destroy_openssl s = ret s'"
  using phases [of s] by (auto simp: destroy_openssl_def delete_buf_def)

lemma new_openssl_phase: "ssl_ok new_openssl" "phase_of new_openssl = NoKey"
  by (simp_all add: ssl_ok_def phase_of_def new_openssl_def)

text \<open>C39: every history of a new object is one of the automaton with the phases no key, key and released. The object
  enters the last one when it has a key and is given one that it refuses; from there on its destructor faults, and so do further
  keys and runs of the cipher. In the other phases the destructor succeeds.\<close>

theorem openssl_histories:
  assumes "history ssl_run new_openssl tr s"
  shows "moves_all ssl_moves NoKey tr = Some (phase_of s) \<and>
    (if phase_of s = Released then destroy_openssl s = crash Dangling else \<exists>s'. destroy_openssl s = ret s')"
  using ssl_class.history_phase [OF assms new_openssl_phase(1)] ssl_class.history_inv [OF assms new_openssl_phase(1)]
    destroy_phase [of s] by (simp add: new_openssl_phase(2))

theorem openssl_histories_witness:
  "\<exists>s. history ssl_run new_openssl [(SetKeyAndIV_call 0 (Some (to_hex (replicate 16 1))) (Some (to_hex (replicate 16 2))), (0, None)),
      (SetKeyAndIV_call 0 (Some ''00'') (Some ''00''), (- 1, None))] s \<and>
    phase_of s = Released \<and> destroy_openssl s = crash Dangling"
proof -
  have set: "SetKeyAndIV 0 (Some (to_hex (replicate 16 1))) (Some (to_hex (replicate 16 2))) new_openssl =
      ret (0, new_openssl\<lparr>ssl_key := Buf (replicate 16 1), ssl_iv := Buf (replicate 16 2), keySize := 16, ivSize := 16\<rparr>)"
    using SetKeyAndIV_ok [of new_openssl "replicate 16 1" "replicate 16 2" 0] by (simp add: fresh_buffers_def new_openssl_def)
  then have "\<exists>s. history ssl_run new_openssl [(SetKeyAndIV_call 0 (Some (to_hex (replicate 16 1))) (Some (to_hex (replicate 16 2))), (0, None)),
      (SetKeyAndIV_call 0 (Some ''00'') (Some ''00''), (- 1, None))] s"
    by (simp add: SetKeyAndIV_def [of 0 "Some ''00''"] delete_buf_def)
  then obtain s where h: "history ssl_run new_openssl [(SetKeyAndIV_call 0 (Some (to_hex (replicate 16 1))) (Some (to_hex (replicate 16 2))), (0, None)),
      (SetKeyAndIV_call 0 (Some ''00'') (Some ''00''), (- 1, None))] s" by blast
  from openssl_histories [OF h] show ?thesis using h by (intro exI [of _ s]) (simp split: if_splits)
qed

end
