(* ===== verification/Arguments.thy ===== *)
theory Arguments imports Usage Openssl begin

text \<open>
  \<open>ParseArguments\<close> of IMG3_Main.cpp: from the command line to the global variables that the operations are called with.
\<close>

subsection \<open>The global variables\<close>

datatype ParserOperation =
    DECRYPT_IMG3_FILE | UPDATE_IMG3_DATABASE | LIST_ARCHIVE_FILES | EXTRACT_FILE | PATCH_KERNEL | PARSE_FILE | DECOMPRESS_FILE

text \<open>
  \<open>deviceName\<close> and \<open>deviceVersion\<close> are blocks: some paths leave them without a terminator. The others are always terminated, and
  stand for their contents. \<open>None\<close> is the null pointer. Allocations succeed: \<open>new\<close> does not return null.
\<close>

record options =
  operation :: ParserOperation
  deviceName :: "string option"
  deviceBuild :: "string option"
  deviceVersion :: "string option"
  archiveFileName :: "string option"
  patchFileName :: "string option"
  sectionName :: "string option"

definition no_options :: "ParserOperation \<Rightarrow> options" where
  "no_options op = \<lparr>operation = op, deviceName = None, deviceBuild = None, deviceVersion = None, archiveFileName = None,
     patchFileName = None, sectionName = None\<rparr>"

text \<open>What a call answers: the return value, the globals, and what has been printed as help.\<close>

type_synonym answer = "int \<times> options \<times> string list"

subsection \<open>Options\<close>

definition option_letter :: "string \<Rightarrow> string \<Rightarrow> char option" where
  "option_letter known arg = (case arg of [c, l] \<Rightarrow> if c = CHR ''-'' \<and> l \<in> set known then Some l else None | _ \<Rightarrow> None)"

text \<open>The section is stored in lower case.\<close>

definition store_option :: "char \<Rightarrow> string \<Rightarrow> options \<Rightarrow> options" where
  "store_option l s opts =
     (if l = CHR ''d'' then opts\<lparr>deviceName := Some (strncpy s (length s) @ [NUL])\<rparr>
      else if l = CHR ''b'' then opts\<lparr>deviceBuild := Some s\<rparr>
      else if l = CHR ''v'' then opts\<lparr>deviceVersion := Some (strncpy s (length s) @ [NUL])\<rparr>
      else opts\<lparr>sectionName := Some (map lower s)\<rparr>)"

text \<open>
  The loop over the options: \<open>limit\<close> is the bound on \<open>index\<close>, \<open>known\<close> the letters of the options. It ends at the last argument. An
  argument that is no option (\<^verbatim>\<open>-h\<close> is none) ends it with the help text where \<open>strict\<close> holds, and is skipped
  where it does not.
\<close>

function parse_options :: "bool \<Rightarrow> nat \<Rightarrow> string \<Rightarrow> string list \<Rightarrow> nat \<Rightarrow> options \<Rightarrow> bool \<times> options" where
  "parse_options strict limit known argv index opts =
     (if index < limit \<and> index + 1 < length argv then
        (case option_letter known (argv ! index) of
           Some l \<Rightarrow> parse_options strict limit known argv (index + 2) (store_option l (argv ! (index + 1)) opts)
         | None \<Rightarrow> if strict then (False, opts) else parse_options strict limit known argv (index + 1) opts)
      else (True, opts))"
  by pat_completeness auto
termination by (relation "measure (\<lambda>(strict, limit, known, argv, index, opts). length argv - index)") auto

declare parse_options.simps [simp del]

subsection \<open>Device and version from the name of the archive\<close>

text \<open>
  The four names of \<^verbatim>\<open>iPhone\<close> models are copied without a terminator (\<open>junk\<close> is what the new block holds); any other name is what
  precedes the first comma, with ten characters of room.
\<close>

definition device_from_name :: "(nat \<Rightarrow> char) \<Rightarrow> string \<Rightarrow> string option exec" where
  "device_from_name junk archive =
     (let fixed = (\<lambda>name. ret (Some (strncpy name (length name) @ [junk 0]))) in
      if find_sub ''iPhone1,1'' archive \<noteq> None then fixed ''iPhone''
      else if find_sub ''iPhone1,2'' archive \<noteq> None then fixed ''iPhone_3''
      else if find_sub ''iPhone2,1'' archive \<noteq> None then fixed ''iPhone_3GS''
      else if find_sub ''iPhone3,1'' archive \<noteq> None then fixed ''iPhone_4''
      else seq (strchr (archive @ [NUL]) 0 CHR '','') (\<lambda>tok. case tok of
          None \<Rightarrow> ret None
        | Some n \<Rightarrow> ret (Some (take n archive @ [NUL] @ fresh junk 9))))"

text \<open>
  The version is what stands between the first two underscores. The terminator goes to the wrong block: to the position that is the length of the version, in the
  name of the device.
\<close>

definition version_from_name :: "(nat \<Rightarrow> char) \<Rightarrow> string \<Rightarrow> options \<Rightarrow> (bool \<times> options) exec" where
  "version_from_name junk archive opts =
     seq (strchr (archive @ [NUL]) 0 CHR ''_'') (\<lambda>tok. case tok of
        None \<Rightarrow> ret (False, opts)
      | Some t \<Rightarrow> seq (strchr (archive @ [NUL]) (t + 1) CHR ''_'') (\<lambda>tok1. case tok1 of
          None \<Rightarrow> ret (False, opts)
        | Some t1 \<Rightarrow>
            let n = t1 - t - 1; version = take n (drop (t + 1) archive) @ [junk 0]; device = the (deviceName opts) in
            if n < length device
            then ret (True, opts\<lparr>deviceVersion := Some version, deviceName := Some (device[n := NUL])\<rparr>)
            else crash OutOfBounds))"

definition complete_names :: "(nat \<Rightarrow> char) \<Rightarrow> string \<Rightarrow> options \<Rightarrow> (bool \<times> options) exec" where
  "complete_names junk archive opts =
     seq (if deviceName opts = None then device_from_name junk archive else ret (deviceName opts)) (\<lambda>device.
       if device = None then ret (False, opts)
       else let opts = opts\<lparr>deviceName := device\<rparr> in
         if deviceVersion opts = None then version_from_name junk archive opts else ret (True, opts))"

subsection \<open>The commands\<close>

definition refuse :: "options \<Rightarrow> string list \<Rightarrow> answer exec" where
  "refuse opts help = ret (- 1, opts, help)"

definition accept :: "options \<Rightarrow> answer exec" where
  "accept opts = ret (0, opts, [])"

definition parse_decrypt :: "(nat \<Rightarrow> char) \<Rightarrow> string list \<Rightarrow> answer exec" where
  "parse_decrypt junk argv =
     (let help = PrintUsage (argv ! 0) (Some (argv ! 1)); opts = no_options DECRYPT_IMG3_FILE in
      if length argv < 3 then refuse opts help
      else (case parse_options True (length argv) ''dbvs'' argv 2 opts of (ok, opts) \<Rightarrow>
        if \<not> ok then refuse opts help
        else let opts = opts\<lparr>archiveFileName := Some (last argv)\<rparr> in
          seq (complete_names junk (last argv) opts) (\<lambda>(ok, opts). if ok then accept opts else refuse opts [])))"

definition parse_list :: "string list \<Rightarrow> answer exec" where
  "parse_list argv =
     (let help = PrintUsage (argv ! 0) (Some (argv ! 1)); opts = no_options LIST_ARCHIVE_FILES in
      if length argv < 3 then refuse opts help
      else if argv ! 2 = ''-h'' then refuse opts help
      else accept (opts\<lparr>archiveFileName := Some (last argv)\<rparr>))"

text \<open>\<open>tok1 - tok - 1\<close> characters from \<open>tok\<close>: for an empty distance the count is -1, and the copy has no bound.\<close>

definition copy_before :: "string \<Rightarrow> nat \<Rightarrow> nat \<Rightarrow> string exec" where
  "copy_before archive start stop =
     (if stop = start then crash OutOfBounds else ret (take (stop - start - 1) (drop start archive)))"

text \<open>
  The dialogue on the build: \<open>getchar\<close>, and as long as the answer is \<^verbatim>\<open>N\<close>, a word is read into a block of 50 characters and the
  next character of the input is the answer. At the end of the input \<open>getchar\<close> gives no \<^verbatim>\<open>N\<close>, and \<open>scanf\<close> leaves the block
  uninitialised.
\<close>

function confirm_build :: "string \<Rightarrow> string \<Rightarrow> string exec" where
  "confirm_build input build = (case input of
     [] \<Rightarrow> ret build
   | response # rest \<Rightarrow>
       if response = CHR ''N'' \<or> response = CHR ''n'' then
         (case dropWhile is_space rest of
            [] \<Rightarrow> crash Indeterminate
          | c # cs \<Rightarrow>
              let word = c # takeWhile (\<lambda>x. \<not> is_space x) cs in
              if 50 \<le> length word then crash OutOfBounds
              else confirm_build (dropWhile (\<lambda>x. \<not> is_space x) cs) word)
       else ret build)"
  by pat_completeness auto
termination
proof (relation "measure (\<lambda>(input, build). length input)")
  fix input response rest c cs word
  assume "input = response # rest" "dropWhile is_space rest = c # cs"
  then have "length cs < length rest" using length_dropWhile_le [of is_space rest] by simp
  then show "((dropWhile (\<lambda>x. \<not> is_space x) cs, word), input, build) \<in> measure (\<lambda>(input, build). length input)" for build
    using \<open>input = response # rest\<close> length_dropWhile_le [of "\<lambda>x. \<not> is_space x" cs] by simp
qed simp

declare confirm_build.simps [simp del]

text \<open>The name of the device and the build of a page, from the name of its file; \<open>None\<close> when the parentheses or the sign are missing.\<close>

definition page_device :: "string \<Rightarrow> string option exec" where
  "page_device archive = seq (strchr (archive @ [NUL]) 0 CHR ''='') (\<lambda>tok. case tok of
     None \<Rightarrow> ret None
   | Some t \<Rightarrow> seq (strchr (archive @ [NUL]) (t + 1) CHR ''('') (\<lambda>tok1. case tok1 of
       None \<Rightarrow> ret None
     | Some t1 \<Rightarrow> seq (copy_before archive (t + 1) t1) (\<lambda>d. ret (Some d))))"

definition page_build :: "string \<Rightarrow> string \<Rightarrow> string option exec" where
  "page_build input archive = seq (strchr (archive @ [NUL]) 0 CHR ''('') (\<lambda>tok. case tok of
     None \<Rightarrow> ret None
   | Some t \<Rightarrow> seq (copy_before archive 0 t) (\<lambda>b. seq (confirm_build input b) (\<lambda>b. ret (Some b))))"

definition parse_update :: "string \<Rightarrow> string list \<Rightarrow> answer exec" where
  "parse_update input argv =
     (let help = PrintUsage (argv ! 0) (Some (argv ! 1)); opts = no_options UPDATE_IMG3_DATABASE in
      if length argv < 3 then refuse opts help
      else (case parse_options True 8 ''dbv'' argv 2 opts of (ok, opts) \<Rightarrow>
        if \<not> ok then refuse opts help
        else let archive = last argv; opts = opts\<lparr>archiveFileName := Some archive\<rparr> in
          seq (if deviceName opts = None then seq (page_device archive) (\<lambda>d. ret (map_option (\<lambda>d. d @ [NUL]) d))
               else ret (deviceName opts)) (\<lambda>device.
          if device = None then refuse opts help
          else let opts = opts\<lparr>deviceName := device\<rparr> in
            seq (if deviceBuild opts = None then page_build input archive else ret (deviceBuild opts)) (\<lambda>build.
            if build = None then refuse opts help
            else let opts = opts\<lparr>deviceBuild := build\<rparr> in
              if deviceVersion opts = None then refuse opts [] else accept opts))))"

definition parse_extract :: "string list \<Rightarrow> answer exec" where
  "parse_extract argv =
     (let help = PrintUsage (argv ! 0) (Some (argv ! 1)); opts = no_options EXTRACT_FILE in
      if length argv < 3 then refuse opts help
      else (case parse_options True 4 ''s'' argv 2 opts of (ok, opts) \<Rightarrow>
        if \<not> ok then refuse opts help else accept (opts\<lparr>archiveFileName := Some (last argv)\<rparr>)))"

definition parse_patch :: "(nat \<Rightarrow> char) \<Rightarrow> string list \<Rightarrow> answer exec" where
  "parse_patch junk argv =
     (let help = PrintUsage (argv ! 0) (Some (argv ! 1)); opts = no_options PATCH_KERNEL in
      if length argv < 7 then refuse opts help
      else (case parse_options False (length argv) ''dv'' argv 2 opts of (ok, opts) \<Rightarrow>
        let opts = opts\<lparr>patchFileName := Some (argv ! (length argv - 2)), archiveFileName := Some (last argv)\<rparr> in
        seq (complete_names junk (last argv) opts) (\<lambda>(ok, opts).
          if ok then accept (opts\<lparr>sectionName := Some ''kernelcache''\<rparr>) else refuse opts [])))"

definition parse_one_file :: "ParserOperation \<Rightarrow> string list \<Rightarrow> answer exec" where
  "parse_one_file op argv =
     (if length argv \<noteq> 3 then refuse (no_options op) [] else accept ((no_options op)\<lparr>archiveFileName := Some (argv ! 2)\<rparr>))"

text \<open>The globals before the choice of an operation are zero, which is none of its values: any will do for the calls that fail there.\<close>

definition ParseArguments :: "(nat \<Rightarrow> char) \<Rightarrow> string \<Rightarrow> string list \<Rightarrow> answer exec" where
  "ParseArguments junk input argv =
     (if argv = [] then crash NullDeref
      else if length argv < 2 then refuse (no_options DECRYPT_IMG3_FILE) (PrintUsage (argv ! 0) None)
      else if argv ! 1 = ''decrypt'' then parse_decrypt junk argv
      else if argv ! 1 = ''update'' then parse_update input argv
      else if argv ! 1 = ''list'' then parse_list argv
      else if argv ! 1 = ''extract'' then parse_extract argv
      else if argv ! 1 = ''patch'' then parse_patch junk argv
      else if argv ! 1 = ''parse'' then parse_one_file PARSE_FILE argv
      else if argv ! 1 = ''decompress'' then parse_one_file DECOMPRESS_FILE argv
      else refuse (no_options DECRYPT_IMG3_FILE) (PrintUsage (argv ! 0) None))"

end
