(* ===== verification/Lzss_Links.thy ===== *)
theory Lzss_Links imports Lzss_Tree begin

text \<open>
  What the three index arrays of the encoder's dictionary represent: \<open>linked\<close> says that parent
  and child indices agree, that no node hangs in two places, that no path returns to where it
  started (a rank grows downwards) and that all nodes of a tree carry the same first byte.
  Three moves on such a structure cover the code: hanging a node below a free slot, putting a
  new node in the place of another, and taking out a node that has at most one child.
\<close>

subsection \<open>The structure and the three moves\<close>

definition is_root :: "int \<Rightarrow> bool" where
  "is_root y \<longleftrightarrow> LZSS_N < y \<and> y \<le> LZSS_N + 256"

definition slot :: "int set \<Rightarrow> bool \<Rightarrow> int \<Rightarrow> bool" where
  "slot T d y \<longleftrightarrow> y \<in> T \<or> d \<and> is_root y"

definition linked :: "(int \<Rightarrow> int) \<Rightarrow> (int \<Rightarrow> int) \<Rightarrow> int set \<Rightarrow> (int \<Rightarrow> int) \<Rightarrow> (bool \<Rightarrow> int \<Rightarrow> int) \<Rightarrow> bool" where
  "linked rk fb T pa ch \<longleftrightarrow>
     (\<forall>x\<in>T. 0 \<le> x \<and> x < LZSS_N) \<and>
     (\<forall>d y. slot T d y \<longrightarrow> ch d y \<noteq> LZSS_NIL \<longrightarrow>
        ch d y \<in> T \<and> pa (ch d y) = y \<and> fb (ch d y) = fb y \<and> rk y < rk (ch d y)) \<and>
     (\<forall>x\<in>T. \<exists>d. slot T d (pa x) \<and> ch d (pa x) = x) \<and>
     (\<forall>y\<in>T. ch False y = ch True y \<longrightarrow> ch False y = LZSS_NIL)"

lemma linkedI:
  assumes "\<And>x. x \<in> T \<Longrightarrow> 0 \<le> x \<and> x < LZSS_N"
    and "\<And>d y. slot T d y \<Longrightarrow> ch d y \<noteq> LZSS_NIL \<Longrightarrow>
        ch d y \<in> T \<and> pa (ch d y) = y \<and> fb (ch d y) = fb y \<and> rk y < rk (ch d y)"
    and "\<And>x. x \<in> T \<Longrightarrow> \<exists>d. slot T d (pa x) \<and> ch d (pa x) = x"
    and "\<And>y. y \<in> T \<Longrightarrow> ch False y = ch True y \<Longrightarrow> ch False y = LZSS_NIL"
  shows "linked rk fb T pa ch"
  using assms unfolding linked_def by blast

lemma linkedD:
  assumes "linked rk fb T pa ch"
  shows "x \<in> T \<Longrightarrow> 0 \<le> x \<and> x < LZSS_N"
    and "slot T d y \<Longrightarrow> ch d y \<noteq> LZSS_NIL \<Longrightarrow>
        ch d y \<in> T \<and> pa (ch d y) = y \<and> fb (ch d y) = fb y \<and> rk y < rk (ch d y)"
    and "x \<in> T \<Longrightarrow> \<exists>d. slot T d (pa x) \<and> ch d (pa x) = x"
    and "y \<in> T \<Longrightarrow> ch False y = ch True y \<Longrightarrow> ch False y = LZSS_NIL"
  using assms unfolding linked_def by blast+

lemma node_not_root: "linked rk fb T pa ch \<Longrightarrow> x \<in> T \<Longrightarrow> \<not> is_root x"
  by (auto simp: is_root_def dest: linkedD(1))

lemma linked_rename:
  assumes lk: "linked rk fb T pa ch" and p: "p \<in> T" and r: "r \<notin> T" "0 \<le> r" "r < LZSS_N"
    and fb: "fb r = fb p"
    and pa': "\<And>x. x \<in> T \<Longrightarrow> pa' (if x = p then r else x) = (if pa x = p then r else pa x)"
    and ch': "\<And>d y. slot T d y \<Longrightarrow> ch' d (if y = p then r else y) = (if ch d y = p then r else ch d y)"
  shows "linked (rk(r := rk p)) fb (insert r (T - {p})) pa' ch'"
proof (rule linkedI)
  let ?s = "\<lambda>x. if x = p then r else x"
  have slot': "slot (insert r (T - {p})) d y \<Longrightarrow> \<exists>z. slot T d z \<and> y = ?s z" for d y
    using p r linkedD(1)[OF lk p]
    by (intro exI [of _ "if y = r then p else y"]) (auto simp: slot_def is_root_def)
  have slot'': "slot T d z \<Longrightarrow> slot (insert r (T - {p})) d (?s z)" for d z
    by (auto simp: slot_def)
  have nr: "slot T d z \<Longrightarrow> z \<noteq> r" for d z using r by (auto simp: slot_def is_root_def)
  show "0 \<le> x \<and> x < LZSS_N" if "x \<in> insert r (T - {p})" for x
    using that r linkedD(1)[OF lk] by auto
  show "ch' d y \<in> insert r (T - {p}) \<and> pa' (ch' d y) = y \<and> fb (ch' d y) = fb y
      \<and> (rk(r := rk p)) y < (rk(r := rk p)) (ch' d y)"
    if "slot (insert r (T - {p})) d y" "ch' d y \<noteq> LZSS_NIL" for d y
  proof -
    from slot'[OF that(1)] obtain z where z: "slot T d z" "y = ?s z" by blast
    then have c: "ch' d y = ?s (ch d z)" using ch' by simp
    have pn: "p \<noteq> LZSS_NIL" using linkedD(1)[OF lk p] by auto
    with that(2) c r have "ch d z \<noteq> LZSS_NIL" by auto
    from linkedD(2)[OF lk z(1) this] have x: "ch d z \<in> T" "pa (ch d z) = z"
      "fb (ch d z) = fb z" "rk z < rk (ch d z)" by auto
    have "pa' (ch' d y) = y" using pa'[OF x(1)] x(2) c z(2) by simp
    moreover have "?s (ch d z) \<in> insert r (T - {p})" using x(1) by simp
    moreover have "fb (?s u) = fb u" for u using fb by simp
    then have "fb (ch' d y) = fb y" using c z(2) x(3) by metis
    moreover have rk: "(rk(r := rk p)) (?s u) = rk u" if "u \<noteq> r" for u using that by simp
    have "ch d z \<noteq> r" using x(1) r(1) by auto
    then have "(rk(r := rk p)) (ch' d y) = rk (ch d z)" unfolding c by (rule rk)
    moreover have "(rk(r := rk p)) y = rk z" unfolding z(2) using nr[OF z(1)] by (rule rk)
    ultimately show ?thesis using c x(4) by (intro conjI) (simp_all only:)
  qed
  show "\<exists>d. slot (insert r (T - {p})) d (pa' x) \<and> ch' d (pa' x) = x"
    if "x \<in> insert r (T - {p})" for x
  proof -
    from that p obtain z where z: "z \<in> T" "x = ?s z" by auto
    from linkedD(3)[OF lk z(1)] obtain d where d: "slot T d (pa z)" "ch d (pa z) = z" by blast
    have "pa' x = ?s (pa z)" using pa' z by simp
    with slot''[OF d(1)] ch'[OF d(1)] d(2) z show ?thesis by auto
  qed
  show "ch' False y = LZSS_NIL"
    if "y \<in> insert r (T - {p})" "ch' False y = ch' True y" for y
  proof -
    from that(1) p obtain z where z: "z \<in> T" "y = ?s z" by auto
    have s: "slot T d z" for d using z by (simp add: slot_def)
    have c: "ch' d y = ?s (ch d z)" for d using ch'[OF s] z by simp
    have in_T: "ch d z \<noteq> LZSS_NIL \<Longrightarrow> ch d z \<in> T" for d using linkedD(2)[OF lk s] by blast
    have "ch False z = ch True z"
      using that(2) c[of False] c[of True] r in_T[of False] in_T[of True] by (auto split: if_splits)
    with linkedD(4)[OF lk z(1)] have "ch False z = LZSS_NIL" by blast
    with c[of False] linkedD(1)[OF lk p] show ?thesis by auto
  qed
qed

lemma linked_attach:
  assumes lk: "linked rk fb T pa ch" and p: "slot T d p" "ch d p = LZSS_NIL"
    and r: "r \<notin> T" "0 \<le> r" "r < LZSS_N" and fb: "fb r = fb p"
    and pa': "\<And>x. x \<in> T \<Longrightarrow> pa' x = pa x" "pa' r = p"
    and ch': "\<And>e y. slot T e y \<Longrightarrow> ch' e y = (if e = d \<and> y = p then r else ch e y)"
    and ch'r: "\<And>e. ch' e r = LZSS_NIL"
  shows "linked (rk(r := rk p + 1)) fb (insert r T) pa' ch'"
proof (rule linkedI)
  have rs: "\<not> slot T e r" for e using r by (auto simp: slot_def is_root_def)
  have slot': "slot (insert r T) e y \<longleftrightarrow> y = r \<or> slot T e y" for e y
    by (auto simp: slot_def)
  have pr: "p \<noteq> r" using p rs by auto
  show "0 \<le> x \<and> x < LZSS_N" if "x \<in> insert r T" for x
    using that r linkedD(1)[OF lk] by auto
  show "ch' e y \<in> insert r T \<and> pa' (ch' e y) = y \<and> fb (ch' e y) = fb y
      \<and> (rk(r := rk p + 1)) y < (rk(r := rk p + 1)) (ch' e y)"
    if "slot (insert r T) e y" "ch' e y \<noteq> LZSS_NIL" for e y
  proof (cases "e = d \<and> y = p")
    case True
    with ch' p pa' fb pr show ?thesis by auto
  next
    case False
    from that ch'r have y: "slot T e y" by (auto simp: slot')
    with False ch' that have "ch' e y = ch e y" "ch e y \<noteq> LZSS_NIL" by auto
    with linkedD(2)[OF lk y] pa' r rs y show ?thesis by auto
  qed
  show "\<exists>e. slot (insert r T) e (pa' x) \<and> ch' e (pa' x) = x" if "x \<in> insert r T" for x
  proof (cases "x = r")
    case True
    with pa' p ch' show ?thesis by (auto simp: slot')
  next
    case False
    with that have x: "x \<in> T" by simp
    from linkedD(3)[OF lk x] obtain e where e: "slot T e (pa x)" "ch e (pa x) = x" by blast
    have "x \<noteq> LZSS_NIL" using linkedD(1)[OF lk x] by auto
    have "\<not> (e = d \<and> pa x = p)"
    proof
      assume "e = d \<and> pa x = p"
      with e p have "x = LZSS_NIL" by simp
      with \<open>x \<noteq> LZSS_NIL\<close> show False ..
    qed
    with ch'[OF e(1)] e(2) have "ch' e (pa x) = x" by metis
    with e pa' x show ?thesis by (auto simp: slot')
  qed
  show "ch' False y = LZSS_NIL" if "y \<in> insert r T" "ch' False y = ch' True y" for y
  proof (cases "y = r")
    case True with ch'r show ?thesis by simp
  next
    case False
    with that have y: "y \<in> T" by simp
    then have s: "slot T e y" for e by (simp add: slot_def)
    have "ch e y \<noteq> r" for e using linkedD(2)[OF lk s[of e]] r by auto
    then have "ch False y = ch True y"
      using that ch'[OF s, of False] ch'[OF s, of True] by (auto split: if_splits)
    with linkedD(4)[OF lk y] show ?thesis
      using that ch'[OF s, of False] ch'[OF s, of True] p r by (auto split: if_splits)
  qed
qed

text \<open>Taking out a node \<open>p\<close> whose child on one side is missing.\<close>

lemma linked_splice:
  assumes lk: "linked rk fb T pa ch" and p: "p \<in> T" and one: "ch (\<not> d) p = LZSS_NIL"
    and pa': "\<And>x. x \<in> T - {p} \<Longrightarrow> pa' x = (if x = ch d p then pa p else pa x)"
    and ch': "\<And>e y. slot T e y \<Longrightarrow> y \<noteq> p \<Longrightarrow> ch' e y = (if ch e y = p then ch d p else ch e y)"
  shows "linked rk fb (T - {p}) pa' ch'"
proof (rule linkedI)
  have sp: "slot T e p" for e using p by (simp add: slot_def)
  have nr: "\<not> is_root p" using node_not_root[OF lk p] .
  have slot': "slot (T - {p}) e y \<longleftrightarrow> slot T e y \<and> y \<noteq> p" for e y
    using nr by (auto simp: slot_def)
  have pn: "p \<noteq> LZSS_NIL" using linkedD(1)[OF lk p] by auto
  obtain f where f: "slot T f (pa p)" "ch f (pa p) = p" using linkedD(3)[OF lk p] by blast
  have up: "pa p \<noteq> p" "fb p = fb (pa p)" "rk (pa p) < rk p" using linkedD(2)[OF lk f(1)] f pn by auto
  have q: "ch d p \<noteq> LZSS_NIL \<Longrightarrow> ch d p \<in> T \<and> ch d p \<noteq> p \<and> pa (ch d p) = p \<and> fb (ch d p) = fb p \<and> rk p < rk (ch d p)"
    using linkedD(2)[OF lk sp[of d]] by auto
  show "0 \<le> x \<and> x < LZSS_N" if "x \<in> T - {p}" for x
    using that linkedD(1)[OF lk] by auto
  show "ch' e y \<in> T - {p} \<and> pa' (ch' e y) = y \<and> fb (ch' e y) = fb y \<and> rk y < rk (ch' e y)"
    if "slot (T - {p}) e y" "ch' e y \<noteq> LZSS_NIL" for e y
  proof (cases "ch e y = p")
    case True
    from that True ch' have "ch' e y = ch d p" by (auto simp: slot')
    moreover from True linkedD(2)[OF lk, of e y] pn that have "pa p = y" "fb p = fb y" "rk y < rk p"
      by (auto simp: slot')
    ultimately show ?thesis using q pa' that by auto
  next
    case False
    from that False ch' have c: "ch' e y = ch e y" by (auto simp: slot')
    with linkedD(2)[OF lk, of e y] that have "ch e y \<in> T" "pa (ch e y) = y" "fb (ch e y) = fb y" "rk y < rk (ch e y)"
      by (auto simp: slot')
    moreover have "ch e y \<noteq> ch d p" using q that \<open>pa (ch e y) = y\<close> c by (auto simp: slot')
    ultimately show ?thesis using False c pa' by auto
  qed
  show "\<exists>e. slot (T - {p}) e (pa' x) \<and> ch' e (pa' x) = x" if "x \<in> T - {p}" for x
  proof (cases "x = ch d p")
    case True
    with that pa' have "pa' x = pa p" by auto
    with f up ch' True show ?thesis by (auto simp: slot')
  next
    case False
    with that pa' have px: "pa' x = pa x" by auto
    from that linkedD(3)[OF lk, of x] obtain e where e: "slot T e (pa x)" "ch e (pa x) = x" by blast
    have "x \<noteq> LZSS_NIL" using linkedD(1)[OF lk, of x] that by auto
    with e False one have "pa x \<noteq> p" by (cases "e = d") auto
    with e px that ch' show ?thesis by (auto simp: slot')
  qed
  show "ch' False y = LZSS_NIL" if "y \<in> T - {p}" "ch' False y = ch' True y" for y
  proof -
    have s: "slot T e y" for e using that by (simp add: slot_def)
    have c: "ch' e y = (if ch e y = p then ch d p else ch e y)" for e using ch'[OF s] that by simp
    have "ch e y \<noteq> ch d p" if "ch d p \<noteq> LZSS_NIL" for e
      using q [OF that] linkedD(2)[OF lk s, of e] \<open>y \<in> T - {p}\<close> that by auto
    then show ?thesis using c[of False] c[of True] that linkedD(4)[OF lk, of y] pn by (auto split: if_splits)
  qed
qed

subsection \<open>The arrays of the encoder as such a structure\<close>

definition nodes :: "encode_state \<Rightarrow> int set" where
  "nodes sp = {x. 0 \<le> x \<and> x < LZSS_N \<and> parent sp x \<noteq> LZSS_NIL}"

definition first_byte :: "encode_state \<Rightarrow> int \<Rightarrow> int" where
  "first_byte sp y = (if is_root y then y - (LZSS_N + 1) else uint (text_buf sp y))"

definition children :: "encode_state \<Rightarrow> bool \<Rightarrow> int \<Rightarrow> int" where
  "children sp d = (if d then rchild sp else lchild sp)"

definition tree_ok :: "encode_state \<Rightarrow> bool" where
  "tree_ok sp \<longleftrightarrow> (\<exists>rk. linked rk (first_byte sp) (nodes sp) (parent sp) (children sp))"

lemma first_byte_cong: "text_buf sp' = text_buf sp \<Longrightarrow> first_byte sp' = first_byte sp"
  by (simp add: first_byte_def fun_eq_iff)

lemma tree_okI:
  assumes "linked rk (first_byte sp) T (parent sp') (children sp')"
    and "nodes sp' = T" and "text_buf sp' = text_buf sp"
  shows "tree_ok sp'"
  using assms unfolding tree_ok_def by (metis first_byte_cong)

lemma slot_range: "linked rk fb T pa ch \<Longrightarrow> slot T d y \<Longrightarrow> 0 \<le> y \<and> y \<le> 4352 \<and> y \<noteq> 4096 \<and> (\<not> d \<longrightarrow> y < 4096)"
  by (auto simp: slot_def is_root_def dest: linkedD(1))

lemma child_range:
  assumes "linked rk fb T pa ch" "slot T d y" shows "0 \<le> ch d y" "ch d y \<le> 4096"
  using linkedD(1,2)[OF assms(1)] assms(2) by (cases "ch d y = 4096"; fastforce)+

lemma parent_children:
  assumes lk: "linked rk fb T pa ch" and p: "p \<in> T"
  obtains d where "slot T d (pa p)" "ch d (pa p) = p" "pa p \<noteq> p"
    "\<And>e. slot T e (pa p) \<Longrightarrow> ch e (pa p) = p \<Longrightarrow> e = d"
proof -
  from linkedD(3)[OF lk p] obtain d where d: "slot T d (pa p)" "ch d (pa p) = p" by blast
  have pn: "p \<noteq> LZSS_NIL" using linkedD(1)[OF lk p] by auto
  from linkedD(2)[OF lk d(1)] d pn have "pa p \<noteq> p" by auto
  moreover have "e = d" if "slot T e (pa p)" "ch e (pa p) = p" for e
  proof (rule ccontr)
    assume ne: "e \<noteq> d"
    then have "pa p \<in> T" using d that by (auto simp: slot_def)
    moreover have "ch False (pa p) = ch True (pa p)" using ne d that by (cases d; cases e) auto
    ultimately show False using linkedD(4)[OF lk] d pn ne by (cases d; cases e) (auto simp: that)
  qed
  ultimately show ?thesis using d that by blast
qed

lemma pa_iff_child:
  assumes "linked rk fb T pa ch" "p \<in> T" "x \<in> T"
  shows "pa x = p \<longleftrightarrow> x = ch False p \<or> x = ch True p"
proof
  assume "pa x = p" then show "x = ch False p \<or> x = ch True p"
    using linkedD(3)[OF assms(1,3)] by (metis (full_types))
next
  have "x \<noteq> LZSS_NIL" using linkedD(1)[OF assms(1,3)] by auto
  moreover assume "x = ch False p \<or> x = ch True p"
  ultimately show "pa x = p" using linkedD(2)[OF assms(1), of _ p] assms(2) by (auto simp: slot_def)
qed


end
