(* ===== verification/Lzss_Dict.thy ===== *)
theory Lzss_Dict imports Lzss_Links begin

text \<open>
  The operations of the encoder's dictionary (\<open>InsertNode\<close> and \<open>DeleteNode\<close>) on well linked
  arrays: they return, stay inside the arrays, keep them well linked, and insert or remove
  exactly the node they are given; \<open>InsertNode\<close> records a true match. The theory
  Lzss_Window states what the compressor relies on as a locale and interprets it on them.
\<close>

subsection \<open>Replacing a node\<close>

lemma replace_node_ok:
  assumes ok: "tree_ok sp" and p: "p \<in> nodes sp" and r: "r \<notin> nodes sp" "0 \<le> r" "r < LZSS_N"
    and fb: "first_byte sp r = first_byte sp p"
  shows "\<exists>sp'. replace_node sp r p = ret sp' \<and> tree_ok sp' \<and> nodes sp' = insert r (nodes sp - {p})
    \<and> text_buf sp' = text_buf sp \<and> match_position sp' = match_position sp \<and> match_length sp' = match_length sp"
proof -
  from ok obtain rk where lk: "linked rk (first_byte sp) (nodes sp) (parent sp) (children sp)"
    by (auto simp: tree_ok_def)
  let ?T = "nodes sp"
  define u v w where uvw: "u = parent sp p" "v = lchild sp p" "w = rchild sp p"
  from linkedD(1)[OF lk p] have pr: "0 \<le> p" "p < 4096" by auto
  have sp: "slot ?T d p" for d using p by (simp add: slot_def)
  from parent_children[OF lk p] obtain d where d: "slot ?T d u" "children sp d u = p" "u \<noteq> p"
    and dd: "\<And>e. slot ?T e u \<Longrightarrow> children sp e u = p \<Longrightarrow> e = d" by (metis uvw(1))
  from slot_range[OF lk d(1)] have ur: "0 \<le> u" "u \<le> 4352" "u \<noteq> 4096" "\<not> d \<Longrightarrow> u < 4096" by auto
  have vr: "0 \<le> v" "v \<le> 4096" "0 \<le> w" "w \<le> 4096"
    using child_range[OF lk sp, of False] child_range[OF lk sp, of True] by (simp_all add: children_def uvw)
  have cp: "children sp True p = w" "children sp False p = v" by (simp_all add: children_def uvw)
  have neq: "p \<noteq> r" "u \<noteq> r" using p r d(1) by (auto simp: slot_def is_root_def)
  have vT: "v = 4096 \<or> v \<in> ?T" "w = 4096 \<or> w \<in> ?T" "v \<noteq> p" "w \<noteq> p" "v \<noteq> r" "w \<noteq> r"
    using linkedD(2)[OF lk sp, of True] linkedD(2)[OF lk sp, of False] r pr unfolding cp by auto
  have du: "(rchild sp u = p) = d" using d dd[of True] dd[of False] ur
    by (cases d) (auto simp: children_def slot_def)
  let ?sp = "sp\<lparr>parent := (parent sp)(r := u, v := r, w := r, p := 4096),
    lchild := (if d then (lchild sp)(r := v) else (lchild sp)(r := v, u := r)),
    rchild := (if d then (rchild sp)(r := w, u := r) else (rchild sp)(r := w))\<rparr>"
  have eq: "replace_node sp r p = ret ?sp"
    using pr ur vr r neq vT du by (cases d) (simp_all add: replace_node_def state_access_defs uvw(1)[symmetric] uvw(2)[symmetric] uvw(3)[symmetric])
  have T': "nodes ?sp = insert r (?T - {p})"
    using r ur vT neq by (auto simp: nodes_def)
  have "linked (rk(r := rk p)) (first_byte sp) (insert r (?T - {p})) (parent ?sp) (children ?sp)"
  proof (rule linked_rename[OF lk p r fb])
    fix x assume x: "x \<in> ?T"
    have "x \<noteq> r" using x r by auto
    then show "parent ?sp (if x = p then r else x) = (if parent sp x = p then r else parent sp x)"
      using pa_iff_child[OF lk p x] neq vT d uvw unfolding cp by auto
  next
    fix e y assume y: "slot ?T e y"
    have yu: "children sp e y = p \<Longrightarrow> y = u"
      using linkedD(2)[OF lk y] pr uvw by auto
    have yr: "y \<noteq> r" using y r by (auto simp: slot_def is_root_def)
    show "children ?sp e (if y = p then r else y) = (if children sp e y = p then r else children sp e y)"
    proof (cases "y = p")
      case True
      with neq vT uvw show ?thesis by (auto simp: children_def)
    next
      case False
      have "children ?sp e y = (if y = u \<and> e = d then r else children sp e y)"
        using yr by (cases e; cases d) (auto simp: children_def)
      moreover have "children sp e y = p \<longleftrightarrow> y = u \<and> e = d"
        using yu d(2) dd[of e] y by auto
      ultimately show ?thesis using False by simp
    qed
  qed
  then have "tree_ok ?sp" by (rule tree_okI) (simp_all add: T')
  with eq T' show ?thesis by auto
qed

subsection \<open>The neighbourhood of a node\<close>

lemma node_context:
  assumes lk: "linked rk fb T pa ch" and p: "p \<in> T"
  obtains d where "slot T d (pa p)" "ch d (pa p) = p" "pa p \<noteq> p" "rk (pa p) < rk p"
    "0 \<le> pa p" "pa p \<le> 4352" "pa p \<noteq> 4096" "\<not> d \<Longrightarrow> pa p < 4096"
    "\<And>e y. slot T e y \<Longrightarrow> ch e y = p \<longleftrightarrow> y = pa p \<and> e = d"
proof -
  from parent_children[OF lk p] obtain d where d: "slot T d (pa p)" "ch d (pa p) = p" "pa p \<noteq> p"
    and dd: "\<And>e. slot T e (pa p) \<Longrightarrow> ch e (pa p) = p \<Longrightarrow> e = d" by blast
  have pn: "p \<noteq> LZSS_NIL" using linkedD(1)[OF lk p] by auto
  have "ch e y = p \<longleftrightarrow> y = pa p \<and> e = d" if "slot T e y" for e y
    using linkedD(2)[OF lk that] pn dd[of e] d that by auto
  moreover have "rk (pa p) < rk p" using linkedD(2)[OF lk d(1)] d pn by auto
  ultimately show ?thesis using that[of d] d slot_range[OF lk d(1)] by blast
qed

lemma child_eq_iff:
  assumes lk: "linked rk fb T pa ch" and z: "slot T f z" "ch f z \<noteq> LZSS_NIL" and y: "slot T e y"
  shows "ch e y = ch f z \<longleftrightarrow> y = z \<and> e = f"
proof -
  from linkedD(2)[OF lk z] have p: "ch f z \<in> T" "pa (ch f z) = z" by auto
  from node_context[OF lk p(1), unfolded p(2)] obtain d where
    iff: "\<And>e y. slot T e y \<Longrightarrow> ch e y = ch f z \<longleftrightarrow> y = z \<and> e = d" by metis
  from iff[OF z(1)] have "f = d" by simp
  with iff[OF y] show ?thesis by simp
qed

lemma child_context:
  assumes lk: "linked rk fb T pa ch" and y: "slot T d y"
  shows "0 \<le> ch d y" "ch d y \<le> 4096" "ch d y = 4096 \<or> ch d y \<in> T \<and> ch d y < 4096 \<and> pa (ch d y) = y \<and> rk y < rk (ch d y)"
    "ch d y \<noteq> y"
proof -
  show "0 \<le> ch d y" "ch d y \<le> 4096" using child_range[OF assms] by auto
  show "ch d y = 4096 \<or> ch d y \<in> T \<and> ch d y < 4096 \<and> pa (ch d y) = y \<and> rk y < rk (ch d y)"
    using linkedD(1,2)[OF lk] y by blast
  then show "ch d y \<noteq> y" using slot_range[OF assms] by auto
qed

lemma nodes_slot: "p \<in> nodes sp \<Longrightarrow> slot (nodes sp) d p"
  by (simp add: slot_def)

lemma node_range: "p \<in> nodes sp \<Longrightarrow> 0 \<le> p \<and> p < 4096"
  by (simp add: nodes_def)

definition frame :: "encode_state \<Rightarrow> encode_state \<Rightarrow> bool" where
  "frame sp sp' \<longleftrightarrow> text_buf sp' = text_buf sp \<and> match_position sp' = match_position sp
     \<and> match_length sp' = match_length sp"


subsection \<open>Deletion\<close>

lemma unlink_one:
  assumes ok: "tree_ok sp" and p: "p \<in> nodes sp" and one: "children sp (\<not> c) p = LZSS_NIL"
  shows "\<exists>sp'. unlink_node sp p (children sp c p) = ret sp' \<and> tree_ok sp' \<and> nodes sp' = nodes sp - {p} \<and> frame sp sp'"
proof -
  from ok obtain rk where lk: "linked rk (first_byte sp) (nodes sp) (parent sp) (children sp)"
    by (auto simp: tree_ok_def)
  let ?T = "nodes sp"
  define u q where uq: "u = parent sp p" "q = children sp c p"
  from node_context[OF lk p, folded uq] obtain d where d: "slot ?T d u" "children sp d u = p" "u \<noteq> p"
    "rk u < rk p" and ur: "0 \<le> u" "u \<le> 4352" "u \<noteq> 4096" "\<not> d \<Longrightarrow> u < 4096"
    and iff: "\<And>e y. slot ?T e y \<Longrightarrow> children sp e y = p \<longleftrightarrow> y = u \<and> e = d" by metis
  note pr = node_range[OF p]
  note q = child_context[OF lk nodes_slot[OF p], of c, folded uq]
  have du: "(rchild sp u = p) = d"
    using d iff[of True u] ur by (cases d) (auto simp: children_def slot_def)
  let ?sp = "sp\<lparr>parent := (parent sp)(q := u, p := 4096),
    lchild := (if d then lchild sp else (lchild sp)(u := q)),
    rchild := (if d then (rchild sp)(u := q) else rchild sp)\<rparr>"
  have eq: "unlink_node sp p q = ret ?sp"
    using pr ur q du by (cases d) (simp_all add: unlink_node_def state_access_defs uq(1)[symmetric])
  have T': "nodes ?sp = ?T - {p}"
    using ur q by (auto simp: nodes_def)
  have "linked rk (first_byte sp) (?T - {p}) (parent ?sp) (children ?sp)"
  proof (rule linked_splice[OF lk p one])
    show "parent ?sp x = (if x = children sp c p then parent sp p else parent sp x)" if "x \<in> ?T - {p}" for x
      using that uq by auto
    show "children ?sp e y = (if children sp e y = p then children sp c p else children sp e y)"
      if "slot ?T e y" "y \<noteq> p" for e y
      using iff[OF that(1)] uq(2) by (cases d; cases e) (auto simp: children_def)
  qed
  then have "tree_ok ?sp" by (rule tree_okI) (simp_all add: T')
  with eq T' show ?thesis unfolding uq(2) by (auto simp: frame_def)
qed

lemma finite_nodes: "finite (nodes sp)"
  by (rule finite_subset[of _ "{0..4096}"]) (auto simp: nodes_def)

lemma card_rank_less:
  assumes "finite T" "y \<in> T" "rk x < (rk y::int)"
  shows "card {z \<in> T. rk y < rk z} < card {z \<in> T. rk x < rk z}"
  by (rule psubset_card_mono) (use assms in auto)

lemma rightmost_ok:
  assumes lk: "linked rk (first_byte sp) (nodes sp) (parent sp) (children sp)"
    and q: "q \<in> nodes sp" "rchild sp q \<noteq> LZSS_NIL"
  shows "\<exists>z. rightmost sp q = ret z \<and> z \<in> nodes sp \<and> rchild sp z = LZSS_NIL
    \<and> parent sp z \<in> nodes sp \<and> rchild sp (parent sp z) = z \<and> rk q \<le> rk (parent sp z)
    \<and> first_byte sp z = first_byte sp q"
  using q
proof (induction "card {z \<in> nodes sp. rk q < rk z}" arbitrary: q rule: less_induct)
  case less
  let ?w = "rchild sp q"
  note w = child_context[OF lk nodes_slot[OF less.prems(1)], of True, unfolded children_def, simplified]
  with less.prems(2) have wT: "?w \<in> nodes sp" "parent sp ?w = q" "rk q < rk ?w" by auto
  have fb: "first_byte sp ?w = first_byte sp q"
    using linkedD(2)[OF lk nodes_slot[OF less.prems(1)], of True] less.prems(2) by (auto simp: children_def)
  note v = child_context[OF lk nodes_slot[OF wT(1)], of True, unfolded children_def, simplified]
  note rng = node_range[OF less.prems(1)] node_range[OF wT(1)]
  have step: "rightmost sp q = (if rchild sp ?w \<noteq> LZSS_NIL then rightmost sp ?w else ret ?w)"
    using rng by (subst rightmost.simps) (simp add: state_access_defs)
  show ?case
  proof (cases "rchild sp ?w = LZSS_NIL")
    case True
    with step wT fb less.prems show ?thesis by auto
  next
    case False
    from less.hyps[OF card_rank_less[OF finite_nodes wT(1,3)] wT(1) False] step False wT(3) fb
    show ?thesis by fastforce
  qed
qed

text \<open>The predecessor \<open>v\<close> of \<open>p\<close> is its left child.\<close>

lemma delete_inner_near:
  assumes ok: "tree_ok sp" and p: "p \<in> nodes sp" and two: "lchild sp p \<noteq> LZSS_NIL" "rchild sp p \<noteq> LZSS_NIL"
    and near: "rchild sp (lchild sp p) = LZSS_NIL"
  shows "\<exists>sp1 sp2 q. delete_inner sp p = ret (sp1, q) \<and> unlink_node sp1 p q = ret sp2
    \<and> tree_ok sp2 \<and> nodes sp2 = nodes sp - {p} \<and> frame sp sp2"
proof -
  from ok obtain rk where lk: "linked rk (first_byte sp) (nodes sp) (parent sp) (children sp)"
    by (auto simp: tree_ok_def)
  let ?T = "nodes sp"
  define u v w b where uvw: "u = parent sp p" "v = lchild sp p" "w = rchild sp p" "b = lchild sp v"
  from node_context[OF lk p, folded uvw] obtain d where d: "slot ?T d u" "children sp d u = p" "u \<noteq> p"
    "rk u < rk p" and ur: "0 \<le> u" "u \<le> 4352" "u \<noteq> 4096" "\<not> d \<Longrightarrow> u < 4096"
    and iff: "\<And>e y. slot ?T e y \<Longrightarrow> children sp e y = p \<longleftrightarrow> y = u \<and> e = d" by metis
  note pr = node_range[OF p]
  have v: "v \<in> ?T" "parent sp v = p" "rk p < rk v" "0 \<le> v" "v < 4096" and w: "w \<in> ?T" "parent sp w = p" "rk p < rk w" "0 \<le> w" "w < 4096"
    using child_context[OF lk nodes_slot[OF p], of True, unfolded children_def, simplified]
      child_context[OF lk nodes_slot[OF p], of False, unfolded children_def, simplified] two uvw by auto
  have vw: "v \<noteq> w" using linkedD(4)[OF lk p] two uvw by (auto simp: children_def)
  have b: "0 \<le> b" "b \<le> 4096" "b = 4096 \<or> b \<in> ?T \<and> b < 4096 \<and> parent sp b = v \<and> rk v < rk b"
    using child_context[OF lk nodes_slot[OF v(1)], of False, unfolded children_def, simplified] uvw by auto
  have ne: "v \<noteq> p" "w \<noteq> p" "u \<noteq> v" "u \<noteq> w" "b \<noteq> p" "b \<noteq> v" "b \<noteq> w" "b \<noteq> u"
    using v w d b vw p ur by (auto simp: nodes_def)
  have du: "(rchild sp u = p) = d"
    using d iff[of True u] ur by (cases d) (auto simp: children_def slot_def)
  let ?sp = "sp\<lparr>parent := (parent sp)(w := v, v := u, p := 4096),
    lchild := (if d then lchild sp else (lchild sp)(u := v)),
    rchild := (if d then (rchild sp)(v := w, u := v) else (rchild sp)(v := w))\<rparr>"
  let ?sp1 = "sp\<lparr>rchild := (rchild sp)(v := w), parent := (parent sp)(w := v)\<rparr>"
  have eq1: "delete_inner sp p = ret (?sp1, v)"
    using pr v w near ne
    by (simp add: delete_inner_def state_access_defs uvw(2)[symmetric] uvw(3)[symmetric])
  have eq2: "unlink_node ?sp1 p v = ret ?sp"
    using pr v w ne ur du d
    by (cases d) (simp_all add: unlink_node_def state_access_defs uvw(1)[symmetric])
  have T': "nodes ?sp = insert v (?T - {v} - {p})"
    using v w ne ur by (auto simp: nodes_def)
  let ?pa = "(parent sp)(b := p)" and ?ch = "\<lambda>e y. if \<not> e \<and> y = p then b else children sp e y"
  have iff_v: "children sp e y = v \<longleftrightarrow> y = p \<and> \<not> e" if "slot ?T e y" for e y
    using child_eq_iff[OF lk nodes_slot[OF p, of False] _ that] uvw two by (simp add: children_def)
  have mid: "linked rk (first_byte sp) (?T - {v}) ?pa ?ch"
  proof (rule linked_splice[OF lk v(1), where d = False])
    show "children sp (\<not> False) v = LZSS_NIL" using near uvw by (simp add: children_def)
    show "?pa x = (if x = children sp False v then parent sp v else parent sp x)" for x
      using uvw v by (simp add: children_def)
    show "?ch e y = (if children sp e y = v then children sp False v else children sp e y)"
      if "slot ?T e y" for e y
      using iff_v[OF that] uvw by (auto simp: children_def)
  qed
  have "linked (rk(v := rk p)) (first_byte sp) (insert v (?T - {v} - {p})) (parent ?sp) (children ?sp)"
  proof (rule linked_rename[OF mid])
    show "p \<in> ?T - {v}" using p ne by auto
    show "v \<notin> ?T - {v}" "0 \<le> v" "v < LZSS_N" using v by auto
    show "first_byte sp v = first_byte sp p"
      using linkedD(2)[OF lk nodes_slot[OF p], of False] v uvw by (auto simp: children_def)
  next
    fix x assume "x \<in> ?T - {v}"
    then show "parent ?sp (if x = p then v else x) = (if ?pa x = p then v else ?pa x)"
      using pa_iff_child[OF lk p, of x] node_range[of x sp] ne v uvw b by (auto simp: children_def)
  next
    fix e y assume y: "slot (?T - {v}) e y"
    then have y': "slot ?T e y" and yv: "y \<noteq> v" using v by (auto simp: slot_def is_root_def)
    show "children ?sp e (if y = p then v else y) = (if ?ch e y = p then v else ?ch e y)"
    proof (cases "y = p")
      case True
      with ne uvw show ?thesis by (auto simp: children_def)
    next
      case False
      have "children ?sp e y = (if y = u \<and> e = d then v else children sp e y)"
        using yv by (cases e; cases d) (auto simp: children_def)
      with False iff[OF y'] show ?thesis by simp
    qed
  qed
  then have "tree_ok ?sp" by (rule tree_okI) (rule T', simp)
  moreover have "nodes ?sp = ?T - {p}" unfolding T' using v ne by auto
  ultimately show ?thesis using eq1 eq2 by (auto simp: frame_def)
qed

text \<open>It lies further down the right spine of the left subtree.\<close>

lemma delete_inner_far:
  assumes ok: "tree_ok sp" and p: "p \<in> nodes sp" and two: "lchild sp p \<noteq> LZSS_NIL" "rchild sp p \<noteq> LZSS_NIL"
    and far: "rchild sp (lchild sp p) \<noteq> LZSS_NIL"
  shows "\<exists>sp1 sp2 q. delete_inner sp p = ret (sp1, q) \<and> unlink_node sp1 p q = ret sp2
    \<and> tree_ok sp2 \<and> nodes sp2 = nodes sp - {p} \<and> frame sp sp2"
proof -
  from ok obtain rk where lk: "linked rk (first_byte sp) (nodes sp) (parent sp) (children sp)"
    by (auto simp: tree_ok_def)
  let ?T = "nodes sp"
  define u v w where uvw: "u = parent sp p" "v = lchild sp p" "w = rchild sp p"
  from node_context[OF lk p, folded uvw] obtain d where d: "slot ?T d u" "children sp d u = p" "u \<noteq> p"
    "rk u < rk p" and ur: "0 \<le> u" "u \<le> 4352" "u \<noteq> 4096" "\<not> d \<Longrightarrow> u < 4096"
    and iff: "\<And>e y. slot ?T e y \<Longrightarrow> children sp e y = p \<longleftrightarrow> y = u \<and> e = d" by metis
  note pr = node_range[OF p]
  have v: "v \<in> ?T" "parent sp v = p" "rk p < rk v" "0 \<le> v" "v < 4096" and w: "w \<in> ?T" "parent sp w = p" "rk p < rk w" "0 \<le> w" "w < 4096"
    using child_context[OF lk nodes_slot[OF p], of True, unfolded children_def, simplified]
      child_context[OF lk nodes_slot[OF p], of False, unfolded children_def, simplified] two uvw by auto
  have vw: "v \<noteq> w" using linkedD(4)[OF lk p] two uvw by (auto simp: children_def)
  from rightmost_ok[OF lk v(1)] far uvw obtain q where q: "rightmost sp v = ret q" "q \<in> ?T" "rchild sp q = LZSS_NIL"
    "parent sp q \<in> ?T" "rchild sp (parent sp q) = q" "rk v \<le> rk (parent sp q)" "first_byte sp q = first_byte sp v" by auto
  define a b where ab: "a = parent sp q" "b = lchild sp q"
  have a: "a \<in> ?T" "rchild sp a = q" "rk v \<le> rk a" "0 \<le> a" "a < 4096" "rk a < rk q" "0 \<le> q" "q < 4096"
    using q ab node_range linkedD(2)[OF lk nodes_slot[OF q(4)], of True] node_range[OF q(2)]
    by (auto simp: children_def)
  have b: "0 \<le> b" "b \<le> 4096" "b = 4096 \<or> b \<in> ?T \<and> b < 4096 \<and> parent sp b = q \<and> rk q < rk b"
    using child_context[OF lk nodes_slot[OF q(2)], of False, unfolded children_def, simplified] ab by auto
  have "q \<noteq> w" using a(3,6) w v ab by auto
  then have ne: "v \<noteq> p" "w \<noteq> p" "u \<noteq> v" "u \<noteq> w" "b \<noteq> p" "b \<noteq> v" "b \<noteq> w" "b \<noteq> u" "q \<noteq> p" "q \<noteq> v" "q \<noteq> w"
    "q \<noteq> u" "q \<noteq> a" "a \<noteq> p" "a \<noteq> u" "b \<noteq> q" "b \<noteq> a"
    using v w d b vw p ur a by (auto simp: nodes_def)
  have du: "(rchild sp u = p) = d"
    using d iff[of True u] ur by (cases d) (auto simp: children_def slot_def)
  let ?sp = "sp\<lparr>parent := (parent sp)(b := a, v := q, w := q, q := u, p := 4096),
    lchild := (if d then (lchild sp)(q := v) else (lchild sp)(q := v, u := q)),
    rchild := (if d then (rchild sp)(a := b, q := w, u := q) else (rchild sp)(a := b, q := w))\<rparr>"
  let ?sp1 = "sp\<lparr>rchild := (rchild sp)(a := b, q := w), parent := (parent sp)(b := a, v := q, w := q),
     lchild := (lchild sp)(q := v)\<rparr>"
  have eq1: "delete_inner sp p = ret (?sp1, q)"
    using pr v w far ne q(1) a b
    by (simp add: delete_inner_def state_access_defs uvw(2)[symmetric] uvw(3)[symmetric]
         ab(1)[symmetric] ab(2)[symmetric])
  have eq2: "unlink_node ?sp1 p q = ret ?sp"
    using pr v w ne ur du d a b
    by (cases d) (simp_all add: unlink_node_def state_access_defs uvw(1)[symmetric])
  have T': "nodes ?sp = insert q (?T - {q} - {p})"
    using v w ne ur a b by (auto simp: nodes_def)
  let ?pa = "(parent sp)(b := a)" and ?ch = "\<lambda>e y. if e \<and> y = a then b else children sp e y"
  have iff_q: "children sp e y = q \<longleftrightarrow> y = a \<and> e" if "slot ?T e y" for e y
    using child_eq_iff[OF lk nodes_slot[OF a(1), of True] _ that] a(2,8) by (simp add: children_def)
  have mid: "linked rk (first_byte sp) (?T - {q}) ?pa ?ch"
  proof (rule linked_splice[OF lk q(2), where d = False])
    show "children sp (\<not> False) q = LZSS_NIL" using q by (simp add: children_def)
    show "?pa x = (if x = children sp False q then parent sp q else parent sp x)" for x
      using ab by (simp add: children_def)
    show "?ch e y = (if children sp e y = q then children sp False q else children sp e y)"
      if "slot ?T e y" for e y
      using iff_q[OF that] ab by (auto simp: children_def)
  qed
  have fb: "first_byte sp q = first_byte sp p"
    using linkedD(2)[OF lk nodes_slot[OF p], of False] q(7) two uvw by (auto simp: children_def)
  have "linked (rk(q := rk p)) (first_byte sp) (insert q (?T - {q} - {p})) (parent ?sp) (children ?sp)"
  proof (rule linked_rename[OF mid])
    show "p \<in> ?T - {q}" using p ne by auto
    show "q \<notin> ?T - {q}" "0 \<le> q" "q < LZSS_N" using a by auto
    show "first_byte sp q = first_byte sp p" by (rule fb)
  next
    fix x assume "x \<in> ?T - {q}"
    then show "parent ?sp (if x = p then q else x) = (if ?pa x = p then q else ?pa x)"
      using pa_iff_child[OF lk p, of x] node_range[of x sp] ne v uvw b by (auto simp: children_def)
  next
    fix e y assume y: "slot (?T - {q}) e y"
    then have y': "slot ?T e y" and yv: "y \<noteq> q" using a by (auto simp: slot_def is_root_def)
    show "children ?sp e (if y = p then q else y) = (if ?ch e y = p then q else ?ch e y)"
    proof (cases "y = p")
      case True
      with ne uvw show ?thesis by (auto simp: children_def)
    next
      case False
      have "children ?sp e y = (if y = u \<and> e = d then q else ?ch e y)"
        using yv ne by (cases e; cases d) (auto simp: children_def)
      with False iff[OF y'] ne show ?thesis by simp
    qed
  qed
  then have "tree_ok ?sp" by (rule tree_okI) (rule T', simp)
  moreover have "nodes ?sp = ?T - {p}" unfolding T' using a ne q by auto
  ultimately show ?thesis using eq1 eq2 by (auto simp: frame_def)
qed

lemma linked_cong:
  assumes "linked rk fb T pa ch" and "\<And>x. x \<in> T \<Longrightarrow> pa' x = pa x"
    and "\<And>d y. slot T d y \<Longrightarrow> ch' d y = ch d y"
  shows "linked rk fb T pa' ch'"
proof (rule linkedI)
  show "0 \<le> x \<and> x < LZSS_N" if "x \<in> T" for x using linkedD(1)[OF assms(1) that] .
  show "ch' d y \<in> T \<and> pa' (ch' d y) = y \<and> fb (ch' d y) = fb y \<and> rk y < rk (ch' d y)"
    if "slot T d y" "ch' d y \<noteq> LZSS_NIL" for d y
    using linkedD(2)[OF assms(1) that(1)] that assms(2)[of "ch d y"] assms(3)[OF that(1)] by simp
  show "\<exists>d. slot T d (pa' x) \<and> ch' d (pa' x) = x" if "x \<in> T" for x
    using linkedD(3)[OF assms(1) that] assms(2)[OF that] assms(3) by auto
  show "ch' False y = LZSS_NIL" if "y \<in> T" "ch' False y = ch' True y" for y
    using linkedD(4)[OF assms(1) that(1)] that assms(3)[of _ y] by (simp add: slot_def)
qed

lemma DeleteNode_ok:
  assumes ok: "tree_ok sp" and p: "0 \<le> p" "p < LZSS_N"
  shows "\<exists>sp'. DeleteNode sp p = ret sp' \<and> tree_ok sp' \<and> nodes sp' = nodes sp - {p} \<and> frame sp sp'"
proof (cases "p \<in> nodes sp")
  case False
  with p have "DeleteNode sp p = ret sp" by (simp add: DeleteNode_def state_access_defs nodes_def)
  with ok False show ?thesis by (auto simp: frame_def)
next
  case True
  from ok obtain rk where lk: "linked rk (first_byte sp) (nodes sp) (parent sp) (children sp)"
    by (auto simp: tree_ok_def)
  have pn: "parent sp p \<noteq> LZSS_NIL" using True by (simp add: nodes_def)
  have eq: "DeleteNode sp p = seq (if rchild sp p = LZSS_NIL then ret (sp, lchild sp p)
              else if lchild sp p = LZSS_NIL then ret (sp, rchild sp p)
              else delete_inner sp p) (\<lambda>spq. unlink_node (fst spq) p (snd spq))"
    using p pn by (simp add: DeleteNode_def state_access_defs)
  consider "rchild sp p = LZSS_NIL" | "rchild sp p \<noteq> LZSS_NIL" "lchild sp p = LZSS_NIL"
    | "rchild sp p \<noteq> LZSS_NIL" "lchild sp p \<noteq> LZSS_NIL" by blast
  then show ?thesis
  proof cases
    case 1
    with unlink_one[OF ok True, of False] eq show ?thesis by (simp add: children_def)
  next
    case 2
    with unlink_one[OF ok True, of True] eq show ?thesis by (simp add: children_def)
  next
    case 3
    with delete_inner_near[OF ok True] delete_inner_far[OF ok True] eq show ?thesis by fastforce
  qed
qed

subsection \<open>Insertion\<close>

lemma compare_from_ok:
  assumes "0 \<le> r" "r < LZSS_N" "0 \<le> p" "p < LZSS_N" "1 \<le> i" "i \<le> LZSS_F"
  shows "\<exists>j c. compare_from sp r p i cmp = ret (j, c) \<and> i \<le> j \<and> j \<le> LZSS_F \<and>
    (\<forall>k. i \<le> k \<and> k < j \<longrightarrow> text_buf sp (p + k) = text_buf sp (r + k))"
  using assms
proof (induction sp r p i cmp rule: compare_from.induct)
  case (1 sp r p i cmp)
  show ?case
  proof (cases "i < LZSS_F")
    case False
    with "1.prems" show ?thesis by (subst compare_from.simps) auto
  next
    case True
    let ?a = "text_buf sp (r + i)" and ?b = "text_buf sp (p + i)"
    have step: "compare_from sp r p i cmp = (if uint ?a - uint ?b \<noteq> 0 then ret (i, uint ?a - uint ?b)
          else compare_from sp r p (i + 1) (uint ?a - uint ?b))"
      using "1.prems" True by (subst compare_from.simps) (simp add: get_text_def)
    show ?thesis
    proof (cases "?a = ?b")
      case False
      then have "uint ?a - uint ?b \<noteq> 0" by (simp add: word_uint_eq_iff)
      with step "1.prems" show ?thesis by auto
    next
      case eq: True
      with "1.IH"[of ?a ?b] True "1.prems" obtain j c where
        j: "compare_from sp r p (i + 1) (uint ?a - uint ?b) = ret (j, c)" "i + 1 \<le> j" "j \<le> LZSS_F"
          "\<forall>k. i + 1 \<le> k \<and> k < j \<longrightarrow> text_buf sp (p + k) = text_buf sp (r + k)"
        by auto
      have "\<forall>k. i \<le> k \<and> k < j \<longrightarrow> text_buf sp (p + k) = text_buf sp (r + k)"
      proof (intro allI impI)
        fix k assume "i \<le> k \<and> k < j"
        with j(4) eq show "text_buf sp (p + k) = text_buf sp (r + k)"
          by (cases "k = i") simp_all
      qed
      moreover have "compare_from sp r p i cmp = ret (j, c)" using step eq j(1) by simp
      ultimately show ?thesis using j(2,3) by (intro exI [of _ j] exI [of _ c]) simp
    qed
  qed
qed

text \<open>
  \<open>match_ok T sp r\<close>: the recorded match is a node of \<open>T\<close> whose string agrees with the string at
  \<open>r\<close> on the recorded length.
\<close>

definition match_ok :: "int set \<Rightarrow> encode_state \<Rightarrow> int \<Rightarrow> bool" where
  "match_ok T sp r \<longleftrightarrow> 0 \<le> match_length sp \<and> match_length sp \<le> LZSS_F \<and>
     (0 < match_length sp \<longrightarrow> match_position sp \<in> T \<and>
       (\<forall>i. 0 \<le> i \<and> i < match_length sp \<longrightarrow>
          text_buf sp (match_position sp + i) = text_buf sp (r + i)))"

lemma attach_ok:
  assumes lk: "linked rk (first_byte sp) (nodes sp) (parent sp) (children sp)"
    and r: "r \<notin> nodes sp" "0 \<le> r" "r < LZSS_N"
    and nil: "lchild sp r = LZSS_NIL" "rchild sp r = LZSS_NIL"
    and p: "slot (nodes sp) d p" "children sp d p = LZSS_NIL" and fb: "first_byte sp r = first_byte sp p"
  shows "\<exists>sp'. seq (if d then set_rchild sp p r else set_lchild sp p r) (\<lambda>sp.
         seq (set_parent sp r p) (\<lambda>sp. ret (sp, None :: int option))) = ret (sp', None) \<and>
         tree_ok sp' \<and> nodes sp' = insert r (nodes sp) \<and> frame sp sp'"
proof -
  from slot_range[OF lk p(1)] have pr: "0 \<le> p" "p \<le> 4352" "p \<noteq> 4096" "\<not> d \<Longrightarrow> p < 4096" by auto
  have ne: "p \<noteq> r" using p r by (auto simp: slot_def is_root_def)
  let ?sp = "sp\<lparr>parent := (parent sp)(r := p),
    lchild := (if d then lchild sp else (lchild sp)(p := r)),
    rchild := (if d then (rchild sp)(p := r) else rchild sp)\<rparr>"
  have eq: "seq (if d then set_rchild sp p r else set_lchild sp p r) (\<lambda>sp.
         seq (set_parent sp r p) (\<lambda>sp. ret (sp, None :: int option))) = ret (?sp, None)"
    using pr r by (cases d) (simp_all add: state_access_defs)
  have T': "nodes ?sp = insert r (nodes sp)" using r pr by (auto simp: nodes_def)
  have "linked (rk(r := rk p + 1)) (first_byte sp) (insert r (nodes sp)) (parent ?sp) (children ?sp)"
  proof (rule linked_attach[OF lk p r fb])
    show "parent ?sp x = parent sp x" if "x \<in> nodes sp" for x using that r by auto
    show "parent ?sp r = p" by simp
    show "children ?sp e y = (if e = d \<and> y = p then r else children sp e y)" for e y
      by (cases e; cases d) (auto simp: children_def)
    show "children ?sp e r = LZSS_NIL" for e
      using nil ne by (auto simp: children_def)
  qed
  then have "tree_ok ?sp" by (rule tree_okI) (rule T', simp)
  moreover have "frame sp ?sp" by (simp add: frame_def)
  ultimately show ?thesis using eq T' by blast
qed

lemma insert_descend_ok:
  assumes "linked rk (first_byte sp) (nodes sp) (parent sp) (children sp)"
    and "r \<notin> nodes sp" "0 \<le> r" "r < LZSS_N" "lchild sp r = LZSS_NIL" "rchild sp r = LZSS_NIL"
    and "slot (nodes sp) (0 \<le> cmp) p" "first_byte sp r = first_byte sp p"
    and "match_ok (nodes sp) sp r" "match_length sp < LZSS_F"
  shows "\<exists>sp' res. insert_descend sp r p cmp = ret (sp', res) \<and> text_buf sp' = text_buf sp \<and>
    match_ok (nodes sp) sp' r \<and> tree_ok sp' \<and>
    (case res of None \<Rightarrow> nodes sp' = insert r (nodes sp)
     | Some q \<Rightarrow> q \<in> nodes sp \<and> nodes sp' = nodes sp \<and> first_byte sp' r = first_byte sp' q)"
  using assms
proof (induction "card {z \<in> nodes sp. rk p < rk z}" arbitrary: sp p cmp rule: less_induct)
  case less
  note lk = less.prems(1) and r = less.prems(2-4) and nil = less.prems(5,6)
  note p = less.prems(7) and fb = less.prems(8) and m = less.prems(9,10)
  let ?d = "0 \<le> cmp"
  define q where "q = children sp ?d p"
  from slot_range[OF lk p] have pr: "0 \<le> p" "p \<le> 4352" "p \<noteq> 4096" "\<not> ?d \<Longrightarrow> p < 4096" by auto
  have get: "(if cmp \<ge> 0 then get_rchild sp p else get_lchild sp p) = ret q"
    using pr by (cases "0 \<le> cmp") (simp_all add: state_access_defs q_def children_def)
  show ?case
  proof (cases "q = LZSS_NIL")
    case True
    have "insert_descend sp r p cmp = seq (if ?d then set_rchild sp p r else set_lchild sp p r) (\<lambda>sp.
         seq (set_parent sp r p) (\<lambda>sp. ret (sp, None)))"
      by (subst insert_descend.simps, unfold get) (simp add: True)
    with attach_ok[OF lk r nil p True[unfolded q_def] fb] m show ?thesis
      by (fastforce simp: frame_def match_ok_def)
  next
    case False
    with linkedD(2)[OF lk p] have q: "q \<in> nodes sp" "first_byte sp q = first_byte sp p" "rk p < rk q"
      by (auto simp: q_def)
    note qr = node_range[OF q(1)]
    from compare_from_ok[of r q 1 sp cmp] r qr obtain j c where
      jc: "compare_from sp r q 1 cmp = ret (j, c)" "1 \<le> j" "j \<le> LZSS_F"
        "\<forall>k. 1 \<le> k \<and> k < j \<longrightarrow> text_buf sp (q + k) = text_buf sp (r + k)" by auto
    have t0: "text_buf sp q = text_buf sp r"
    proof -
      from fb q(2) have "first_byte sp q = first_byte sp r" by simp
      with qr r show ?thesis by (simp add: first_byte_def is_root_def word_uint_eq_iff)
    qed
    have agree: "text_buf sp (q + k) = text_buf sp (r + k)" if "0 \<le> k" "k < j" for k
      using jc(4) t0 that by (cases "k = 0") auto
    define sq where "sq = (if j > match_length sp then sp\<lparr>match_position := q, match_length := j\<rparr> else sp)"
    have step: "insert_descend sp r p cmp =
      (if j > match_length sp \<and> j \<ge> LZSS_F then ret (sq, Some q) else insert_descend sq r q c)"
      by (subst insert_descend.simps, unfold get) (simp add: False jc sq_def)
    have fields: "lchild sq = lchild sp" "rchild sq = rchild sp" "parent sq = parent sp" "text_buf sq = text_buf sp"
      by (auto simp: sq_def)
    then have same: "nodes sq = nodes sp" "first_byte sq = first_byte sp" "children sq = children sp"
      by (auto simp: nodes_def first_byte_def children_def fun_eq_iff)
    have mq: "match_ok (nodes sp) sq r"
      using m q agree jc(2,3) by (auto simp: sq_def match_ok_def)
    show ?thesis
    proof (cases "j > match_length sp \<and> j \<ge> LZSS_F")
      case True
      have "tree_ok sq" using lk by (intro tree_okI[of rk sp]) (auto simp: same fields)
      with True step mq q same fields fb show ?thesis by auto
    next
      case False
      have "match_length sq < LZSS_F" using False m by (auto simp: sq_def)
      moreover have "card {z \<in> nodes sq. rk q < rk z} < card {z \<in> nodes sp. rk p < rk z}"
        unfolding same by (rule card_rank_less[OF finite_nodes q(1,3)])
      ultimately have "\<exists>sp' res. insert_descend sq r q c = ret (sp', res) \<and> text_buf sp' = text_buf sq \<and>
    match_ok (nodes sq) sp' r \<and> tree_ok sp' \<and>
    (case res of None \<Rightarrow> nodes sp' = insert r (nodes sq)
     | Some q \<Rightarrow> q \<in> nodes sq \<and> nodes sp' = nodes sq \<and> first_byte sp' r = first_byte sp' q)"
        using lk r nil q fb mq nodes_slot[OF q(1)]
        by (intro less.hyps) (simp_all add: same fields)
      from this [unfolded same fields] step False show ?thesis by simp
    qed
  qed
qed

theorem InsertNode_ok:
  assumes ok: "tree_ok sp" and r: "r \<notin> nodes sp" "0 \<le> r" "r < LZSS_N"
  shows "\<exists>sp'. InsertNode sp r = ret sp' \<and> tree_ok sp' \<and> r \<in> nodes sp' \<and> nodes sp' \<subseteq> insert r (nodes sp)
    \<and> text_buf sp' = text_buf sp \<and> match_ok (nodes sp) sp' r"
proof -
  from ok obtain rk where lk: "linked rk (first_byte sp) (nodes sp) (parent sp) (children sp)"
    by (auto simp: tree_ok_def)
  let ?sp = "sp\<lparr>lchild := (lchild sp)(r := LZSS_NIL), rchild := (rchild sp)(r := LZSS_NIL), match_length := 0\<rparr>"
  let ?p = "LZSS_N + 1 + uint (text_buf sp r)"
  have u: "0 \<le> uint (text_buf sp r)" "uint (text_buf sp r) < 256"
    using uint_lt2p[of "text_buf sp r"] by auto
  then have root: "is_root ?p" unfolding is_root_def by linarith
  have same: "nodes ?sp = nodes sp" "first_byte ?sp = first_byte sp"
    by (auto simp: nodes_def first_byte_def fun_eq_iff)
  have rs: "\<not> slot (nodes sp) d r" for d using r by (auto simp: slot_def is_root_def)
  have lk': "linked rk (first_byte ?sp) (nodes ?sp) (parent ?sp) (children ?sp)"
    unfolding same using lk by (rule linked_cong) (use rs in \<open>auto simp: children_def slot_def\<close>)
  have eq: "InsertNode sp r = seq (insert_descend ?sp r ?p 1) (\<lambda>res.
       case snd res of None \<Rightarrow> ret (fst res) | Some p \<Rightarrow> replace_node (fst res) r p)"
    using r by (simp add: InsertNode_def state_access_defs)
  have "\<exists>sp' res. insert_descend ?sp r ?p 1 = ret (sp', res) \<and> text_buf sp' = text_buf ?sp \<and>
    match_ok (nodes ?sp) sp' r \<and> tree_ok sp' \<and>
    (case res of None \<Rightarrow> nodes sp' = insert r (nodes ?sp)
     | Some q \<Rightarrow> q \<in> nodes ?sp \<and> nodes sp' = nodes ?sp \<and> first_byte sp' r = first_byte sp' q)"
    using r root by (intro insert_descend_ok[OF lk'])
      (auto simp: same slot_def first_byte_def match_ok_def is_root_def)
  then obtain sp' res where d: "insert_descend ?sp r ?p 1 = ret (sp', res)" "text_buf sp' = text_buf sp"
    "match_ok (nodes sp) sp' r" "tree_ok sp'"
    "case res of None \<Rightarrow> nodes sp' = insert r (nodes sp)
     | Some q \<Rightarrow> q \<in> nodes sp \<and> nodes sp' = nodes sp \<and> first_byte sp' r = first_byte sp' q"
    unfolding same by auto
  show ?thesis
  proof (cases res)
    case None
    with d eq show ?thesis by auto
  next
    case (Some q)
    with d r have "q \<in> nodes sp'" "r \<notin> nodes sp'" "first_byte sp' r = first_byte sp' q" by auto
    from replace_node_ok[OF d(4) this(1,2) r(2,3) this(3)] d Some eq show ?thesis
      by (auto simp: match_ok_def)
  qed
qed

end
