(* ===== verification/Lzss_Tokens.thy ===== *)
theory Lzss_Tokens imports Prelude begin

text \<open>
  The LZSS format as the code reads and writes it, without ring buffer, flag word or pointers:
  a token is a byte or a reference to a position of the window; \<open>expand\<close> is the meaning of a
  list of tokens, \<open>parse_tokens\<close> and \<open>encode_tokens\<close> relate tokens to bytes. The compressor and
  the decompressor are both related to these definitions.
\<close>

datatype token = Literal byte | Copy int int

text \<open>
  The window position of stream position \<open>a\<close>; positions before the start of the stream hold
  spaces (0x20), as the encoder and the decoder initialise their buffers.
\<close>

definition ring :: "int \<Rightarrow> int" where
  "ring a = (4078 + a) mod 4096"

definition stream :: "byte list \<Rightarrow> int \<Rightarrow> byte" where
  "stream xs a = (if a < 0 then 0x20 else if a < int (length xs) then xs ! nat a else 0)"

text \<open>The stream position a window position stands for when \<open>t\<close> bytes have been produced.\<close>

definition origin :: "int \<Rightarrow> int \<Rightarrow> int" where
  "origin t p = t - 1 - ((t - 1 + 4078 - p) mod 4096)"

fun expand_copy :: "byte list \<Rightarrow> int \<Rightarrow> nat \<Rightarrow> byte list" where
  "expand_copy out a 0 = out"
| "expand_copy out a (Suc m) = expand_copy (out @ [stream out a]) (a + 1) m"

text \<open>
  A reference before position \<open>-4078\<close> would read a part of the window that was never written:
  such a list of tokens has no meaning.
\<close>

fun expand :: "byte list \<Rightarrow> token list \<Rightarrow> byte list option" where
  "expand out [] = Some out"
| "expand out (Literal b # ts) = expand (out @ [b]) ts"
| "expand out (Copy p m # ts) =
     (let a = origin (int (length out)) p in
      if - 4078 \<le> a then expand (expand_copy out a (nat m)) ts else None)"

definition valid_token :: "token \<Rightarrow> bool" where
  "valid_token t = (case t of Literal b \<Rightarrow> True | Copy p m \<Rightarrow> 0 \<le> p \<and> p < 4096 \<and> 3 \<le> m \<and> m \<le> 18)"

definition ref_pos :: "byte \<Rightarrow> byte \<Rightarrow> int" where
  "ref_pos i j = uint i OR push_bit 4 (uint j AND 0xF0)"

definition ref_len :: "byte \<Rightarrow> int" where
  "ref_len j = (uint j AND 0x0F) + 3"

definition unit_bytes :: "token \<Rightarrow> byte list" where
  "unit_bytes t = (case t of Literal b \<Rightarrow> [b]
     | Copy p m \<Rightarrow> [word_of_int p, word_of_int ((drop_bit 4 p AND 0xF0) OR (m - 3))])"

fun flag_byte :: "token list \<Rightarrow> byte" where
  "flag_byte [] = 0"
| "flag_byte (Literal b # ts) = 1 OR push_bit 1 (flag_byte ts)"
| "flag_byte (Copy p m # ts) = push_bit 1 (flag_byte ts)"

definition group_bytes :: "token list \<Rightarrow> byte list" where
  "group_bytes ts = flag_byte ts # concat (map unit_bytes ts)"

function encode_tokens :: "token list \<Rightarrow> byte list" where
  "encode_tokens ts =
     (if ts = [] then [] else group_bytes (take 8 ts) @ encode_tokens (drop 8 ts))"
  by pat_completeness auto
termination by (relation "measure length") auto

declare encode_tokens.simps [simp del]

text \<open>\<open>parse_tokens f k bs\<close>: \<open>k\<close> flags are left in \<open>f\<close>; an incomplete unit at the end is dropped.\<close>

fun parse_tokens :: "byte \<Rightarrow> nat \<Rightarrow> byte list \<Rightarrow> token list" where
  "parse_tokens f 0 [] = []"
| "parse_tokens f 0 (c # bs) = parse_tokens c 8 bs"
| "parse_tokens f (Suc k) bs =
     (if bit f 0 then
        (case bs of [] \<Rightarrow> [] | c # bs' \<Rightarrow> Literal c # parse_tokens (drop_bit 1 f) k bs')
      else
        (case bs of [] \<Rightarrow> [] | i # bs' \<Rightarrow>
          (case bs' of [] \<Rightarrow> []
           | j # bs'' \<Rightarrow> Copy (ref_pos i j) (ref_len j) # parse_tokens (drop_bit 1 f) k bs'')))"

subsection \<open>References and bits\<close>

lemma ring_range: "0 \<le> ring a" "ring a < 4096"
  by (simp_all add: ring_def)

lemma ring_eq_iff:
  assumes "\<bar>a - b\<bar> < 4096" shows "ring a = ring b \<longleftrightarrow> a = b"
proof
  assume "ring a = ring b"
  then have "4096 dvd a - b" by (simp add: ring_def mod_eq_dvd_iff)
  with dvd_imp_le_int [of "a - b" 4096] assms show "a = b" by auto
qed simp

lemma ring_add: "(ring a + k) mod 4096 = ring (a + k)"
  by (simp add: ring_def mod_simps algebra_simps)

lemma origin_ring:
  assumes "t - 4096 \<le> a" "a < t" shows "origin t (ring a) = a"
proof -
  have "(t - 1 + 4078 - ring a) mod 4096 = (t - 1 - a) mod 4096"
    by (simp add: ring_def mod_simps algebra_simps)
  also have "\<dots> = t - 1 - a" using assms by (intro mod_pos_pos_trivial) auto
  finally show ?thesis by (simp add: origin_def)
qed

lemma ring_origin:
  assumes "0 \<le> p" "p < 4096" shows "ring (origin t p) = p"
proof -
  have "ring (origin t p) = p mod 4096"
    by (simp add: ring_def origin_def mod_simps algebra_simps)
  with assms show ?thesis by simp
qed

lemma origin_range: "t - 4096 \<le> origin t p" "origin t p < t"
  using pos_mod_bound [of 4096 "t - 1 + 4078 - p"] pos_mod_sign [of 4096 "t - 1 + 4078 - p"]
  by (simp_all add: origin_def)

lemma mask_nibble: "x AND 0x0F = x mod 16" "x AND 4095 = x mod 4096" for x :: int
  using take_bit_eq_mask [of 4 x] take_bit_eq_mask [of 12 x]
  by (simp_all add: mask_eq_exp_minus_1 take_bit_eq_mod)

lemma byte_range: "0 \<le> uint (b :: byte)" "uint (b :: byte) < 256"
  using uint_lt2p [of b] by auto

lemma high_nibble: "0 \<le> x \<Longrightarrow> x < 256 \<Longrightarrow> x AND 0xF0 = 16 * (x div 16)" for x :: int
proof -
  assume "0 \<le> x" "x < 256"
  have m: "(0xF0 :: int) = push_bit 4 (mask 4)"
    by (simp add: mask_eq_exp_minus_1 push_bit_eq_mult)
  have "x AND 0xF0 = push_bit 4 (take_bit 4 (drop_bit 4 x))"
    unfolding m by (rule bit_eqI) (auto simp: bit_simps)
  with \<open>0 \<le> x\<close> \<open>x < 256\<close> show ?thesis
    by (simp add: push_bit_eq_mult drop_bit_eq_div take_bit_eq_mod)
qed

lemma nibbles_or: "0 \<le> l \<Longrightarrow> l < 16 \<Longrightarrow> (16 * h) OR l = 16 * h + l" for h l :: int
proof -
  assume "0 \<le> l" "l < 16"
  then have l: "take_bit 4 l = l" by (simp add: take_bit_eq_mod)
  have "push_bit 4 h AND take_bit 4 l = 0"
    by (rule bit_eqI) (auto simp: bit_simps)
  with l have "(16 * h) AND l = 0" by (simp add: push_bit_eq_mult mult.commute)
  with plus_and_or [of "16 * h" l] show ?thesis by simp
qed

lemma ref_pos_eq: "ref_pos i j = uint i + 256 * (uint j div 16)"
proof -
  have "push_bit 4 (uint j AND 0xF0) = 256 * (uint j div 16)"
    using byte_range [of j] by (simp add: high_nibble push_bit_eq_mult)
  moreover have "uint i OR push_bit 8 (uint j div 16) = uint i + push_bit 8 (uint j div 16)"
  proof -
    have "take_bit 8 (uint i) AND push_bit 8 (uint j div 16) = 0"
      by (rule bit_eqI) (auto simp: bit_simps)
    moreover have "take_bit 8 (uint i) = uint i"
      using byte_range [of i] by (simp add: take_bit_eq_mod)
    ultimately show ?thesis using plus_and_or [of "uint i" "push_bit 8 (uint j div 16)"] by simp
  qed
  ultimately show ?thesis by (simp add: ref_pos_def push_bit_eq_mult mult.commute)
qed

lemma ref_pos_range: "0 \<le> ref_pos i j" "ref_pos i j < 4096"
proof -
  have "uint j div 16 \<le> 15" "0 \<le> uint j div 16" using byte_range [of j] by (auto simp: pos_imp_zdiv_nonneg_iff)
  then show "0 \<le> ref_pos i j" "ref_pos i j < 4096"
    using byte_range [of i] by (auto simp: ref_pos_eq)
qed

lemma ref_len_eq: "ref_len j = uint j mod 16 + 3"
  by (simp add: ref_len_def mask_nibble)

lemma ref_len_range: "3 \<le> ref_len j" "ref_len j \<le> 18"
proof -
  have "0 \<le> uint j mod 16" "uint j mod 16 < 16" by auto
  then show "3 \<le> ref_len j" "ref_len j \<le> 18" by (auto simp: ref_len_eq)
qed

lemma unit_bytes_Copy:
  assumes "valid_token (Copy p m)"
  obtains i j where "unit_bytes (Copy p m) = [i, j]" "ref_pos i j = p" "ref_len j = m"
proof -
  from assms have r: "0 \<le> p" "p < 4096" "3 \<le> m" "m \<le> 18" by (auto simp: valid_token_def)
  let ?h = "p div 256"
  have h: "0 \<le> ?h" "?h < 16" using r by auto
  have d: "drop_bit 4 p AND 0xF0 = 16 * ?h"
  proof -
    have "drop_bit 4 p = p div 16" by (simp add: drop_bit_eq_div)
    moreover have "0 \<le> p div 16" "p div 16 < 256" using r by auto
    moreover have "p div 16 div 16 = ?h" by (simp add: zdiv_zmult2_eq [symmetric])
    ultimately show ?thesis by (simp add: high_nibble)
  qed
  let ?i = "word_of_int p :: byte" and ?j = "word_of_int (16 * ?h + (m - 3)) :: byte"
  have "unit_bytes (Copy p m) = [?i, ?j]"
    using r d nibbles_or [of "m - 3" ?h] by (simp add: unit_bytes_def)
  moreover have i: "uint ?i = p mod 256" by (simp add: uint_word_of_int)
  moreover have j: "uint ?j = 16 * ?h + (m - 3)"
  proof -
    have "(16 * ?h + (m - 3)) mod 256 = 16 * ?h + (m - 3)"
      using h r by (intro mod_pos_pos_trivial) auto
    then show ?thesis by (subst uint_word_of_int) simp
  qed
  moreover have "(16 * ?h + (m - 3)) div 16 = ?h" "(16 * ?h + (m - 3)) mod 16 = m - 3"
    using r by auto
  ultimately show ?thesis
    by (intro that [of ?i ?j]) (simp_all add: ref_pos_eq ref_len_eq)
qed

subsection \<open>Length of the expansion\<close>

lemma expand_copy_length: "length (expand_copy out a m) = length out + m"
  by (induction out a m rule: expand_copy.induct) simp_all

lemma expand_length: "expand out ts = Some res \<Longrightarrow> length out \<le> length res"
proof (induction out ts rule: expand.induct)
  case (3 out p m ts)
  then show ?case
    by (auto simp: Let_def expand_copy_length split: if_splits)
qed auto

subsection \<open>Parsing what was encoded\<close>

lemma bit_flag_byte_Cons:
  "bit (flag_byte (t # ts)) n \<longleftrightarrow>
     (n = 0 \<and> (\<exists>b. t = Literal b)) \<or> (0 < n \<and> n < 8 \<and> bit (flag_byte ts) (n - 1))"
proof (cases t)
  case (Literal b)
  then show ?thesis
    by (auto simp only: flag_byte.simps bit_or_iff bit_push_bit_iff bit_1_iff possible_bit_word)
      (auto simp: possible_bit_word)
next
  case (Copy p m)
  then show ?thesis
    by (auto simp only: flag_byte.simps bit_push_bit_iff possible_bit_word)
      (auto simp: possible_bit_word)
qed

declare flag_byte.simps(2,3) [simp del]

lemma flag_byte_bit: "bit (flag_byte ts) n \<Longrightarrow> n < length ts"
proof (induction ts arbitrary: n)
  case (Cons t ts)
  then have "n = 0 \<or> bit (flag_byte ts) (n - 1)" by (auto simp: bit_flag_byte_Cons)
  with Cons.IH [of "n - 1"] show ?case by auto
qed simp

lemma flag_byte_0: "bit (flag_byte (t # ts)) 0 \<longleftrightarrow> (\<exists>b. t = Literal b)"
  by (simp add: bit_flag_byte_Cons)

lemma flag_byte_drop:
  assumes "length ts < 8" shows "drop_bit 1 (flag_byte (t # ts)) = flag_byte ts"
proof (rule bit_eqI)
  fix n
  show "bit (drop_bit 1 (flag_byte (t # ts))) n = bit (flag_byte ts) n"
    using flag_byte_bit [of ts n] assms by (auto simp: bit_drop_bit_eq bit_flag_byte_Cons)
qed

lemma bit_flag_byte_snoc:
  "bit (flag_byte (ts @ [t])) n \<longleftrightarrow>
     bit (flag_byte ts) n \<or> (n = length ts \<and> n < 8 \<and> (\<exists>b. t = Literal b))"
proof (induction ts arbitrary: n)
  case Nil
  then show ?case by (auto simp: bit_flag_byte_Cons)
next
  case (Cons u ts)
  show ?case
    unfolding append_Cons bit_flag_byte_Cons Cons.IH by (cases n) auto
qed

lemma flag_byte_snoc:
  assumes "length ts < 8"
  shows "flag_byte (ts @ [t]) =
     (case t of Literal b \<Rightarrow> flag_byte ts OR push_bit (length ts) 1 | Copy p m \<Rightarrow> flag_byte ts)"
proof (rule bit_eqI)
  fix n
  show "bit (flag_byte (ts @ [t])) n = bit (case t of
     Literal b \<Rightarrow> flag_byte ts OR push_bit (length ts) 1 | Copy p m \<Rightarrow> flag_byte ts) n"
    using assms by (cases t) (auto simp: bit_flag_byte_snoc bit_or_iff bit_exp_iff possible_bit_word)
qed

lemma parse_group:
  assumes "\<forall>t \<in> set ts. valid_token t" "length ts \<le> k" "k \<le> 8"
  shows "parse_tokens (flag_byte ts) k (concat (map unit_bytes ts) @ rest) =
           ts @ parse_tokens 0 (k - length ts) rest"
  using assms
proof (induction ts arbitrary: k)
  case Nil
  then show ?case by simp
next
  case (Cons t ts)
  then obtain l where k: "k = Suc l" by (cases k) auto
  with Cons.prems have IH: "parse_tokens (flag_byte ts) l (concat (map unit_bytes ts) @ rest) =
           ts @ parse_tokens 0 (l - length ts) rest"
    by (intro Cons.IH) auto
  have d: "drop_bit 1 (flag_byte (t # ts)) = flag_byte ts"
    using Cons.prems by (intro flag_byte_drop) auto
  show ?case
  proof (cases t)
    case (Literal b)
    then show ?thesis using IH d flag_byte_0 [of t ts] by (simp add: k unit_bytes_def [of "Literal b"])
  next
    case (Copy p m)
    with Cons.prems have "valid_token (Copy p m)" by auto
    from unit_bytes_Copy [OF this] obtain i j where
      "unit_bytes (Copy p m) = [i, j]" "ref_pos i j = p" "ref_len j = m" .
    with Copy IH d flag_byte_0 [of t ts] show ?thesis by (simp add: k)
  qed
qed

lemma parse_tokens_0: "parse_tokens f 0 bs = parse_tokens g 0 bs"
  by (cases bs) simp_all

lemma parse_encode: "\<forall>t \<in> set ts. valid_token t \<Longrightarrow> parse_tokens f 0 (encode_tokens ts) = ts"
proof (induction ts arbitrary: f rule: encode_tokens.induct)
  case (1 ts)
  show ?case
  proof (cases "ts = []")
    case True
    then show ?thesis by (simp add: encode_tokens.simps)
  next
    case False
    let ?g = "take 8 ts" and ?r = "encode_tokens (drop 8 ts)"
    have v: "\<forall>t \<in> set ?g. valid_token t" "\<forall>t \<in> set (drop 8 ts). valid_token t"
      using "1.prems" by (auto dest: in_set_takeD in_set_dropD)
    have "parse_tokens f 0 (encode_tokens ts) = parse_tokens (flag_byte ?g) 8 (concat (map unit_bytes ?g) @ ?r)"
      using False by (simp add: encode_tokens.simps [of ts] group_bytes_def)
    also have "\<dots> = ?g @ parse_tokens 0 (8 - length ?g) ?r"
      using v(1) by (intro parse_group) auto
    also have "parse_tokens 0 (8 - length ?g) ?r = drop 8 ts"
    proof (cases "8 \<le> length ts")
      case True
      with "1.IH" [OF False v(2), of 0] show ?thesis by simp
    next
      case le: False
      then have "?r = []" by (simp add: encode_tokens.simps)
      with le show ?thesis by (cases "8 - length ?g") auto
    qed
    finally show ?thesis by simp
  qed
qed

lemma encode_tokens_group:
  assumes "8 dvd length ds" "ps \<noteq> []" "length ps \<le> 8"
  shows "encode_tokens (ds @ ps) = encode_tokens ds @ group_bytes ps"
  using assms
proof (induction ds rule: encode_tokens.induct)
  case (1 ds)
  show ?case
  proof (cases "ds = []")
    case True
    with "1.prems" show ?thesis by (simp add: encode_tokens.simps)
  next
    case False
    with "1.prems"(1) have "8 \<le> length ds" "8 dvd length (drop 8 ds)"
      by (auto simp: dvd_imp_le)
    with False "1.IH" [OF False] "1.prems" show ?thesis
      by (simp add: encode_tokens.simps [of "ds @ ps"] encode_tokens.simps [of ds])
  qed
qed

end
