(* ===== verification/Lzss_Window.thy ===== *)
theory Lzss_Window imports History Lzss_Dict Lzss_Tokens begin

text \<open>
  What the compressor relies on of the dictionary, as the locale \<open>dictionary\<close>: insertion, deletion and
  the writing of one byte. The lemmas of the locale say how the ring buffer follows the
  input when the window moves by one byte; the last section interprets the locale on
  \<open>InsertNode\<close>, \<open>DeleteNode\<close> and the accesses of Lzss_Tree.
\<close>

subsection \<open>The window over the input\<close>

text \<open>
  The string to be coded starts at stream position \<open>t\<close>, the bytes before \<open>e\<close> have been read. The
  ring buffer holds the 4078 positions before \<open>t\<close> and those up to \<open>e\<close>; its first 17 cells are
  repeated at its end.
\<close>

definition window :: "(int \<Rightarrow> byte) \<Rightarrow> byte list \<Rightarrow> int \<Rightarrow> int \<Rightarrow> bool" where
  "window txt xs t e \<longleftrightarrow> 0 \<le> t \<and> t \<le> e \<and> e \<le> t + 18 \<and> e \<le> int (length xs) \<and>
     (\<forall>a. t - 4078 \<le> a \<and> a < e \<longrightarrow> txt (ring a) = stream xs a) \<and>
     (\<forall>a. 0 \<le> a \<and> t - 4078 \<le> a \<and> a < e \<and> ring a < 17 \<longrightarrow> txt (4096 + ring a) = stream xs a)"

text \<open>A recorded match (position and length) is a match of the input with itself.\<close>

definition matched :: "int \<times> int \<Rightarrow> byte list \<Rightarrow> int \<Rightarrow> int \<Rightarrow> bool" where
  "matched m xs t e \<longleftrightarrow> 0 \<le> snd m \<and> snd m \<le> 18 \<and>
     (0 < snd m \<longrightarrow> (\<exists>a. t - 4078 \<le> a \<and> a < t \<and> fst m = ring a \<and>
        (\<forall>i. 0 \<le> i \<and> i < snd m \<and> t + i < e \<longrightarrow> stream xs (a + i) = stream xs (t + i))))"

lemma ring_wrap:
  assumes "0 \<le> i" "i < 18"
  shows "ring a + i = ring (a + i) \<or> (ring a + i = 4096 + ring (a + i) \<and> ring (a + i) < 17)"
proof (cases "ring a + i < 4096")
  case True
  then have "(ring a + i) mod 4096 = ring a + i" using ring_range [of a] assms by (intro mod_pos_pos_trivial) auto
  then show ?thesis by (simp add: ring_add)
next
  case False
  then have "(ring a + i - 4096) mod 4096 = ring a + i - 4096"
    using ring_range [of a] assms by (intro mod_pos_pos_trivial) auto
  then have "(ring a + i) mod 4096 = ring a + i - 4096" by (simp add: mod_simps)
  then have "ring (a + i) = ring a + i - 4096" by (simp add: ring_add)
  then show ?thesis using ring_range [of a] assms by auto
qed

lemma ring_negative:
  assumes "- 4078 \<le> a" "a + i < 0" "0 \<le> i" shows "ring a + i = ring (a + i)"
proof -
  have "ring a = 4078 + a" "ring (a + i) = 4078 + (a + i)"
    using assms by (auto simp: ring_def intro!: mod_pos_pos_trivial)
  then show ?thesis by simp
qed

lemma window_read:
  assumes w: "window txt xs t e" and a: "t - 4078 \<le> a" "0 \<le> i" "i < 18" "a + i < e"
  shows "txt (ring a + i) = stream xs (a + i)"
proof (cases "0 \<le> a + i")
  case True
  with ring_wrap [OF a(2,3), of a] w a show ?thesis by (auto simp: window_def)
next
  case False
  moreover have "- 4078 \<le> a" using w a by (simp add: window_def)
  ultimately have "ring a + i = ring (a + i)" using a by (intro ring_negative) auto
  with w a show ?thesis by (simp add: window_def)
qed

lemma window_match:
  assumes w: "window txt xs t e" and a: "t - 4078 \<le> a" "a < t" and m: "0 \<le> i" "i < 18" "t + i < e"
    and eq: "txt (ring a + i) = txt (ring t + i)"
  shows "stream xs (a + i) = stream xs (t + i)"
  using window_read [OF w a(1) m(1,2)] window_read [OF w _ m(1,2), of t] a m eq by simp

lemma window_drop: "window txt xs t e \<Longrightarrow> t < e \<Longrightarrow> window txt xs (t + 1) e"
  by (auto simp: window_def)

lemma window_put:
  assumes w: "window txt xs t (t + 18)" and c: "t + 18 < int (length xs)" "c = stream xs (t + 18)"
    and tx: "txt' = (if ring (t + 18) < 17 then (txt(ring (t + 18) := c))(4096 + ring (t + 18) := c)
                     else txt(ring (t + 18) := c))"
  shows "window txt' xs (t + 1) (t + 19)"
proof -
  let ?p = "ring (t + 18)"
  have p: "0 \<le> ?p" "?p < 4096" by (rule ring_range)+
  have old: "ring a \<noteq> ?p" if "t - 4077 \<le> a" "a < t + 18" for a
    using ring_eq_iff [of a "t + 18"] that by auto
  have new: "txt' ?p = c" "ring a \<noteq> ?p \<Longrightarrow> txt' (ring a) = txt (ring a)"
    "ring a < 17 \<Longrightarrow> ring a \<noteq> ?p \<Longrightarrow> txt' (4096 + ring a) = txt (4096 + ring a)"
    "?p < 17 \<Longrightarrow> txt' (4096 + ?p) = c" for a
    using p ring_range [of a] by (auto simp: tx)
  have "txt' (ring a) = stream xs a" if "t + 1 - 4078 \<le> a" "a < t + 19" for a
  proof (cases "a = t + 18")
    case True
    then show ?thesis using c(2) new(1) by simp
  next
    case False
    with that old [of a] have "ring a \<noteq> ?p" by auto
    with that False w show ?thesis by (simp add: new window_def)
  qed
  moreover have "txt' (4096 + ring a) = stream xs a"
    if "0 \<le> a" "t + 1 - 4078 \<le> a" "a < t + 19" "ring a < 17" for a
  proof (cases "a = t + 18")
    case True
    then show ?thesis using c(2) new(4) that by simp
  next
    case False
    with that old [of a] have "ring a \<noteq> ?p" by auto
    with that False w show ?thesis by (simp add: new window_def)
  qed
  ultimately show ?thesis using w c by (auto simp: window_def)
qed

subsection \<open>The interface\<close>

locale dictionary =
  fixes ins :: "'s \<Rightarrow> int \<Rightarrow> 's exec"
    and del :: "'s \<Rightarrow> int \<Rightarrow> 's exec"
    and put :: "'s \<Rightarrow> int \<Rightarrow> byte \<Rightarrow> 's exec"
    and valid :: "'s \<Rightarrow> bool"
    and keys :: "'s \<Rightarrow> int set"
    and buf :: "'s \<Rightarrow> int \<Rightarrow> byte"
    and best :: "'s \<Rightarrow> int \<times> int"
  assumes ins: "valid s \<Longrightarrow> r \<notin> keys s \<Longrightarrow> 0 \<le> r \<Longrightarrow> r < 4096 \<Longrightarrow>
      \<exists>s'. ins s r = ret s' \<and> valid s' \<and> r \<in> keys s' \<and> keys s' \<subseteq> insert r (keys s) \<and> buf s' = buf s \<and>
        0 \<le> snd (best s') \<and> snd (best s') \<le> 18 \<and>
        (0 < snd (best s') \<longrightarrow> fst (best s') \<in> keys s \<and>
           (\<forall>i. 0 \<le> i \<and> i < snd (best s') \<longrightarrow> buf s (fst (best s') + i) = buf s (r + i)))"
    and del: "valid s \<Longrightarrow> 0 \<le> p \<Longrightarrow> p < 4096 \<Longrightarrow>
      \<exists>s'. del s p = ret s' \<and> valid s' \<and> keys s' = keys s - {p} \<and> buf s' = buf s"
    and put: "valid s \<Longrightarrow> i \<notin> keys s \<Longrightarrow> 0 \<le> i \<Longrightarrow> i < 4113 \<Longrightarrow>
      \<exists>s'. put s i c = ret s' \<and> valid s' \<and> keys s' = keys s \<and> buf s' = (buf s)(i := c)"
    and keys_range: "keys s \<subseteq> {0..<4096}"
begin

definition holds :: "'s \<Rightarrow> byte list \<Rightarrow> int \<Rightarrow> int \<Rightarrow> bool" where
  "holds s xs t e \<longleftrightarrow> valid s \<and> window (buf s) xs t e \<and> keys s \<subseteq> ring ` {t - 4078 .. t}"

lemma ins_window:
  assumes s: "valid s" "window (buf s) xs t e" "keys s \<subseteq> ring ` {t - 4078 ..< t}"
  shows "\<exists>s'. ins s (ring t) = ret s' \<and> holds s' xs t e \<and> matched (best s') xs t e"
proof -
  have "ring t \<notin> keys s"
  proof
    assume "ring t \<in> keys s"
    then have "ring t \<in> ring ` {t - 4078 ..< t}" using s(3) by (rule rev_subsetD)
    then obtain a where "t - 4078 \<le> a" "a < t" "ring t = ring a" by auto
    then show False using ring_eq_iff [of t a] by simp
  qed
  from ins [OF s(1) this ring_range] obtain s' where s': "ins s (ring t) = ret s'" "valid s'"
    "keys s' \<subseteq> insert (ring t) (keys s)" "buf s' = buf s" "0 \<le> snd (best s')" "snd (best s') \<le> 18"
    and m: "0 < snd (best s') \<Longrightarrow> fst (best s') \<in> keys s \<and>
           (\<forall>i. 0 \<le> i \<and> i < snd (best s') \<longrightarrow> buf s (fst (best s') + i) = buf s (ring t + i))"
    by blast
  have "{t - 4078 ..< t} \<subseteq> {t - 4078 .. t}" "t \<in> {t - 4078 .. t}" by auto
  then have "keys s' \<subseteq> ring ` {t - 4078 .. t}" using s(3) s'(3) by blast
  with s s' have h: "holds s' xs t e" by (simp add: holds_def)
  have "\<exists>a. t - 4078 \<le> a \<and> a < t \<and> fst (best s') = ring a \<and>
        (\<forall>i. 0 \<le> i \<and> i < snd (best s') \<and> t + i < e \<longrightarrow> stream xs (a + i) = stream xs (t + i))"
    if pos: "0 < snd (best s')"
  proof -
    have "fst (best s') \<in> ring ` {t - 4078 ..< t}" using m [OF pos] s(3) by (intro subsetD [OF s(3)]) simp
    then obtain a where a: "t - 4078 \<le> a" "a < t" "fst (best s') = ring a" by auto
    have "stream xs (a + i) = stream xs (t + i)" if "0 \<le> i" "i < snd (best s')" "t + i < e" for i
      using m [OF pos] that s'(6) a by (intro window_match [OF s(2) a(1,2)]) auto
    with a show ?thesis by blast
  qed
  with s' have "matched (best s') xs t e" by (simp add: matched_def)
  with s' h show ?thesis by blast
qed

lemma ring_del:
  assumes "ks \<subseteq> ring ` {t - 4078 .. t}"
  shows "ks - {ring (t + 18)} \<subseteq> ring ` {t + 1 - 4078 ..< t + 1}"
proof
  fix k assume k: "k \<in> ks - {ring (t + 18)}"
  with assms have "k \<in> ring ` {t - 4078 .. t}" by blast
  then obtain a where a: "k = ring a" "t - 4078 \<le> a" "a \<le> t" by auto
  have "ring (t - 4078) = ring (t + 18)"
    by (simp add: ring_def mod_eq_dvd_iff)
  with a k have "a \<noteq> t - 4078" by auto
  with a show "k \<in> ring ` {t + 1 - 4078 ..< t + 1}" by auto
qed

lemma del_window:
  assumes "holds s xs t e"
  shows "\<exists>s'. del s (ring (t + 18)) = ret s' \<and> valid s' \<and> buf s' = buf s \<and> ring (t + 18) \<notin> keys s' \<and>
    keys s' \<subseteq> ring ` {t + 1 - 4078 ..< t + 1}"
proof -
  from assms have s: "valid s" "keys s \<subseteq> ring ` {t - 4078 .. t}" by (auto simp: holds_def)
  from del [OF s(1) ring_range] obtain s' where
    s': "del s (ring (t + 18)) = ret s'" "valid s'" "keys s' = keys s - {ring (t + 18)}" "buf s' = buf s" by blast
  with ring_del [OF s(2)] show ?thesis by auto
qed

text \<open>A byte is read and the window moves.\<close>

lemma shift_read:
  assumes h: "holds s xs t (t + 18)" and c: "t + 18 < int (length xs)" "c = stream xs (t + 18)"
  shows "\<exists>s'. seq (del s (ring (t + 18))) (\<lambda>s. seq (put s (ring (t + 18)) c) (\<lambda>s.
      seq (if ring (t + 18) < 17 then put s (ring (t + 18) + 4096) c else ret s) (\<lambda>s. ins s (ring (t + 1))))) = ret s'
    \<and> holds s' xs (t + 1) (t + 19) \<and> matched (best s') xs (t + 1) (t + 19)"
proof -
  let ?p = "ring (t + 18)"
  from del_window [OF h] obtain s1 where s1: "del s ?p = ret s1" "valid s1" "buf s1 = buf s"
    "?p \<notin> keys s1" "keys s1 \<subseteq> ring ` {t + 1 - 4078 ..< t + 1}" by blast
  from put [OF s1(2,4) ring_range(1), of c] ring_range(2) [of "t + 18"] obtain s2 where
    s2: "put s1 ?p c = ret s2" "valid s2" "keys s2 = keys s1" "buf s2 = (buf s1)(?p := c)" by force
  have "\<exists>s3. (if ?p < 17 then put s2 (?p + 4096) c else ret s2) = ret s3 \<and> valid s3 \<and> keys s3 = keys s2 \<and>
      buf s3 = (if ?p < 17 then (buf s2)(4096 + ?p := c) else buf s2)"
  proof (cases "?p < 17")
    case True
    have "?p + 4096 \<notin> keys s2" using keys_range [of s2] ring_range(1) [of "t + 18"] by auto
    from put [OF s2(2) this, of c] True ring_range(1) [of "t + 18"] show ?thesis by (simp add: add.commute)
  qed (use s2 in simp)
  then obtain s3 where s3: "(if ?p < 17 then put s2 (?p + 4096) c else ret s2) = ret s3" "valid s3"
    "keys s3 = keys s2" "buf s3 = (if ?p < 17 then (buf s2)(4096 + ?p := c) else buf s2)" by blast
  have "window (buf s3) xs (t + 1) (t + 19)"
    using h by (intro window_put [OF _ c, of "buf s"]) (auto simp: holds_def s3 s2 s1)
  from ins_window [OF s3(2) this] s1 s2 s3 show ?thesis by simp
qed

text \<open>The input has ended and the window moves.\<close>

lemma shift_drain:
  assumes h: "holds s xs t e" and e: "t + 1 < e"
  shows "\<exists>s'. seq (del s (ring (t + 18))) (\<lambda>s. ins s (ring (t + 1))) = ret s'
    \<and> holds s' xs (t + 1) e \<and> matched (best s') xs (t + 1) e"
proof -
  from del_window [OF h] obtain s1 where s1: "del s (ring (t + 18)) = ret s1" "valid s1" "buf s1 = buf s"
    "keys s1 \<subseteq> ring ` {t + 1 - 4078 ..< t + 1}" by blast
  have "window (buf s1) xs (t + 1) e" using h e by (auto simp: holds_def s1 intro: window_drop)
  from ins_window [OF s1(2) this s1(4)] s1 show ?thesis by simp
qed

end

text \<open>Every sequence of the three operations, made when their preconditions hold, runs.\<close>

datatype dict_call = Insert_call int | Delete_call int | Put_call int byte

fun dict_run :: "('s \<Rightarrow> int \<Rightarrow> 's exec) \<Rightarrow> ('s \<Rightarrow> int \<Rightarrow> 's exec) \<Rightarrow> ('s \<Rightarrow> int \<Rightarrow> byte \<Rightarrow> 's exec) \<Rightarrow> ('s \<Rightarrow> int \<times> int) \<Rightarrow>
    dict_call \<Rightarrow> 's \<Rightarrow> ((int \<times> int) \<times> 's) exec" where
  "dict_run ins del put best (Insert_call r) s = seq (ins s r) (\<lambda>s. ret (best s, s))"
| "dict_run ins del put best (Delete_call p) s = seq (del s p) (\<lambda>s. ret (best s, s))"
| "dict_run ins del put best (Put_call i c) s = seq (put s i c) (\<lambda>s. ret (best s, s))"

fun dict_pre :: "('s \<Rightarrow> int set) \<Rightarrow> dict_call \<Rightarrow> 's \<Rightarrow> bool" where
  "dict_pre keys (Insert_call r) s = (r \<notin> keys s \<and> 0 \<le> r \<and> r < 4096)"
| "dict_pre keys (Delete_call p) s = (0 \<le> p \<and> p < 4096)"
| "dict_pre keys (Put_call i c) s = (i \<notin> keys s \<and> 0 \<le> i \<and> i < 4113)"

sublocale dictionary \<subseteq> plans: guarded_class "dict_run ins del put best" valid "dict_pre keys"
proof (unfold_locales, goal_cases)
  case (1 s c)
  then show ?case
  proof (cases c)
    case (Insert_call r)
    with 1 ins [of s r] show ?thesis by auto
  next
    case (Delete_call p)
    with 1 del [of s p] show ?thesis by auto
  next
    case (Put_call i b)
    with 1 put [of s i b] show ?thesis by auto
  qed
qed

subsection \<open>The encoder's dictionary provides it\<close>

lemma set_text_ok:
  assumes ok: "tree_ok sp" and i: "i \<notin> nodes sp" "0 \<le> i" "i < 4113"
  shows "\<exists>sp'. set_text sp i c = ret sp' \<and> tree_ok sp' \<and> nodes sp' = nodes sp \<and> text_buf sp' = (text_buf sp)(i := c)"
proof -
  let ?sp = "sp\<lparr>text_buf := (text_buf sp)(i := c)\<rparr>"
  have n: "nodes ?sp = nodes sp" by (simp add: nodes_def)
  from ok obtain rk where lk: "linked rk (first_byte sp) (nodes sp) (parent sp) (children sp)"
    by (auto simp: tree_ok_def)
  have fb: "first_byte ?sp y = first_byte sp y" if "slot (nodes sp) d y" for d y
    using that i by (auto simp: slot_def first_byte_def)
  have ch: "children ?sp = children sp" by (simp add: children_def fun_eq_iff)
  have "linked rk (first_byte ?sp) (nodes sp) (parent sp) (children sp)"
  proof (rule linkedI)
    show "0 \<le> x \<and> x < LZSS_N" if "x \<in> nodes sp" for x using linkedD(1) [OF lk that] .
    show "children sp d y \<in> nodes sp \<and> parent sp (children sp d y) = y \<and>
        first_byte ?sp (children sp d y) = first_byte ?sp y \<and> rk y < rk (children sp d y)"
      if "slot (nodes sp) d y" "children sp d y \<noteq> LZSS_NIL" for d y
    proof -
      note l = linkedD(2) [OF lk that]
      then have "slot (nodes sp) d (children sp d y)" by (simp add: slot_def)
      with l show ?thesis by (simp add: fb [OF that(1)] fb)
    qed
    show "\<exists>d. slot (nodes sp) d (parent sp x) \<and> children sp d (parent sp x) = x" if "x \<in> nodes sp" for x
      using linkedD(3) [OF lk that] .
    show "children sp False y = LZSS_NIL" if "y \<in> nodes sp" "children sp False y = children sp True y" for y
      using linkedD(4) [OF lk that] .
  qed
  then have "tree_ok ?sp" unfolding tree_ok_def using n ch by auto
  with i n show ?thesis by (simp add: set_text_def)
qed

interpretation dict: dictionary InsertNode DeleteNode set_text tree_ok nodes text_buf
  "\<lambda>sp. (match_position sp, match_length sp)"
proof (unfold_locales, goal_cases)
  case (1 s r)
  from InsertNode_ok [OF this] show ?case by (auto simp: match_ok_def)
next
  case (2 s p)
  from DeleteNode_ok [OF this] show ?case by (auto simp: frame_def)
next
  case (3 s i c)
  then show ?case by (rule set_text_ok)
next
  case (4 s)
  then show ?case by (auto simp: nodes_def)
qed

lemma InitState_ok: "tree_ok (InitState sp)" "nodes (InitState sp) = {}"
proof -
  show n: "nodes (InitState sp) = {}" by (auto simp: nodes_def InitState_def)
  have "linked rk (first_byte (InitState sp)) {} (parent (InitState sp)) (children (InitState sp))" for rk
    by (rule linkedI) (auto simp: slot_def is_root_def children_def InitState_def)
  with n show "tree_ok (InitState sp)" by (auto simp: tree_ok_def)
qed

subsection \<open>The search trees, as the encoder sees them\<close>

text \<open>A state to evaluate the operations on.\<close>

definition blank_state :: encode_state where
  "blank_state = \<lparr>lchild = \<lambda>i. 0, rchild = \<lambda>i. 0, parent = \<lambda>i. 0, text_buf = \<lambda>i. 0,
     match_position = 0, match_length = 0\<rparr>"

text \<open>C40: every sequence of insertions of positions that are not in the trees, deletions, and writes to positions of the window that are
  not in the trees, in any order from the initial state, runs without a fault and leaves well-formed trees.\<close>

theorem tree_histories:
  assumes "plan_ok (dict_pre nodes) (dict_run InsertNode DeleteNode set_text (\<lambda>sp. (match_position sp, match_length sp))) cs (InitState sp)"
  shows "\<exists>tr sp'. map fst tr = cs \<and>
    history (dict_run InsertNode DeleteNode set_text (\<lambda>sp. (match_position sp, match_length sp))) (InitState sp) tr sp' \<and> tree_ok sp'"
  by (rule dict.plans.plan_runs [OF InitState_ok(1) assms])

theorem tree_histories_witness:
  "\<exists>tr sp'. map fst tr = [Put_call 0 5, Delete_call 7, Insert_call 4078] \<and>
    history (dict_run InsertNode DeleteNode set_text (\<lambda>sp. (match_position sp, match_length sp))) (InitState blank_state) tr sp' \<and> tree_ok sp'"
proof (rule tree_histories)
  let ?run = "dict_run InsertNode DeleteNode set_text (\<lambda>sp. (match_position sp, match_length sp))"
  have n: "nodes (sp\<lparr>text_buf := b\<rparr>) = nodes sp" for sp b by (simp add: nodes_def)
  have "?run (Put_call 0 5) (InitState blank_state) =
      ret ((0, 0), (InitState blank_state)\<lparr>text_buf := (text_buf (InitState blank_state))(0 := 5)\<rparr>)"
    by (simp add: set_text_def) (simp add: InitState_def)
  moreover have "?run (Delete_call 7) ((InitState blank_state)\<lparr>text_buf := b\<rparr>) = ret ((0, 0), (InitState blank_state)\<lparr>text_buf := b\<rparr>)" for b
    by (simp add: DeleteNode_def get_parent_def InitState_def)
  ultimately show "plan_ok (dict_pre nodes) ?run [Put_call 0 5, Delete_call 7, Insert_call 4078] (InitState blank_state)"
    by (simp add: n InitState_ok(2) ret_def del: dict_run.simps split: option.split sum.split)
qed

text \<open>C11: inserting a position keeps the trees well formed, makes the position a node, adds no other node and
  leaves the window alone; the match it reports starts at a node and agrees with the inserted string on its whole
  length, which is at most 18.\<close>

theorem InsertNode_keeps_trees:
  assumes "tree_ok sp" "r \<notin> nodes sp" "0 \<le> r" "r < LZSS_N"
  shows "\<exists>sp'. InsertNode sp r = ret sp' \<and> tree_ok sp' \<and> r \<in> nodes sp' \<and> nodes sp' \<subseteq> insert r (nodes sp) \<and>
    text_buf sp' = text_buf sp \<and> 0 \<le> match_length sp' \<and> match_length sp' \<le> LZSS_F \<and>
    (0 < match_length sp' \<longrightarrow> match_position sp' \<in> nodes sp \<and>
      (\<forall>i. 0 \<le> i \<and> i < match_length sp' \<longrightarrow> text_buf sp' (match_position sp' + i) = text_buf sp' (r + i)))"
  using InsertNode_ok [OF assms] by (auto simp: match_ok_def)

theorem InsertNode_keeps_trees_witness:
  "\<exists>sp'. InsertNode (InitState blank_state) 4078 = ret sp' \<and> tree_ok sp'"
  using InsertNode_keeps_trees [OF InitState_ok(1), of 4078 blank_state]
  by (auto simp: InitState_ok(2))

text \<open>C12: deleting a position keeps the trees well formed, removes exactly that node (nothing when it is not in a
  tree) and changes neither the window nor the reported match.\<close>

theorem DeleteNode_keeps_trees:
  assumes "tree_ok sp" "0 \<le> p" "p < LZSS_N"
  shows "\<exists>sp'. DeleteNode sp p = ret sp' \<and> tree_ok sp' \<and> nodes sp' = nodes sp - {p} \<and>
    text_buf sp' = text_buf sp \<and> match_position sp' = match_position sp \<and> match_length sp' = match_length sp"
  using DeleteNode_ok [OF assms] by (auto simp: frame_def)

theorem DeleteNode_keeps_trees_witness:
  "\<exists>sp'. DeleteNode (InitState blank_state) 7 = ret sp' \<and> tree_ok sp' \<and> nodes sp' = {}"
  using DeleteNode_keeps_trees [OF InitState_ok(1), of 7 blank_state] by (auto simp: InitState_ok(2))

end
