(* ===== verification/Lzss_Compress.thy ===== *)
theory Lzss_Compress imports Lzss_Window begin

text \<open>
  \<open>IMG3_LzssInterface::Compress\<close> (src/src/compression/IMG3_LzssInterface.cpp), loop by loop, and its
  correctness: it returns, no access leaves an array, and what it writes is the encoding of
  tokens whose expansion is the input.
\<close>

subsection \<open>The code\<close>

record code_state =
  code_buf :: "int \<Rightarrow> byte"
  code_buf_ptr :: int
  code_mask :: byte

definition reset_code :: "(int \<Rightarrow> byte) \<Rightarrow> code_state exec" where
  "reset_code buf = seq (wr 17 buf 0 0) (\<lambda>buf. ret \<lparr>code_buf = buf, code_buf_ptr = 1, code_mask = 1\<rparr>)"

definition push_code :: "code_state \<Rightarrow> byte \<Rightarrow> code_state exec" where
  "push_code cs b = seq (wr 17 (code_buf cs) (code_buf_ptr cs) b) (\<lambda>buf.
     ret (cs\<lparr>code_buf := buf, code_buf_ptr := code_buf_ptr cs + 1\<rparr>))"

text \<open>\<open>for (len = 0; len < F && src < srcend; len++) sp->text_buf[r + len] = *src++;\<close>\<close>

function read_text :: "encode_state \<Rightarrow> int \<Rightarrow> int \<Rightarrow> cursor \<Rightarrow> (encode_state \<times> int \<times> cursor) exec" where
  "read_text sp r len cur =
     (if len < LZSS_F then
        seq (next_byte cur) (\<lambda>nb. case nb of None \<Rightarrow> ret (sp, len, cur)
          | Some cc \<Rightarrow> seq (set_text sp (r + len) (fst cc)) (\<lambda>sp. read_text sp r (len + 1) (snd cc)))
      else ret (sp, len, cur))"
  by pat_completeness auto
termination by (relation "measure (\<lambda>(sp, r, len, cur). nat (LZSS_F - len))") auto

declare read_text.simps [simp del]

text \<open>\<open>for (i = 1; i <= F; i++) InsertNode(sp, r - i);\<close>\<close>

function insert_spaces :: "encode_state \<Rightarrow> int \<Rightarrow> int \<Rightarrow> encode_state exec" where
  "insert_spaces sp r i =
     (if i \<le> LZSS_F then seq (InsertNode sp (r - i)) (\<lambda>sp. insert_spaces sp r (i + 1)) else ret sp)"
  by pat_completeness auto
termination by (relation "measure (\<lambda>(sp, r, i). nat (LZSS_F + 1 - i))") auto

declare insert_spaces.simps [simp del]

text \<open>The head of the main loop: one unit, a byte or a position and length, goes to \<open>code_buf\<close>.\<close>

definition put_unit :: "encode_state \<Rightarrow> int \<Rightarrow> int \<Rightarrow> code_state \<Rightarrow> (encode_state \<times> code_state) exec" where
  "put_unit sp0 r len cs =
     (let sp = (if match_length sp0 > len then sp0\<lparr>match_length := len\<rparr> else sp0) in
      if match_length sp \<le> LZSS_THRESHOLD then
        seq (rd 17 (code_buf cs) 0) (\<lambda>flags.
        seq (wr 17 (code_buf cs) 0 (flags OR code_mask cs)) (\<lambda>buf.
        seq (get_text sp r) (\<lambda>c.
        seq (push_code (cs\<lparr>code_buf := buf\<rparr>) c) (\<lambda>cs. ret (sp\<lparr>match_length := 1\<rparr>, cs)))))
      else
        seq (push_code cs (word_of_int (match_position sp))) (\<lambda>cs.
        seq (push_code cs (word_of_int
              ((drop_bit 4 (match_position sp) AND 0xF0) OR (match_length sp - (LZSS_THRESHOLD + 1))))) (\<lambda>cs.
        ret (sp, cs))))"

text \<open>
  The loops that send \<open>code_buf[0..code_buf_ptr)\<close>: \<open>limit\<close> is \<open>dstend - dst\<close> at the start, \<open>room\<close> what is
  allocated behind \<open>dst\<close>; the result \<open>None\<close> stands for \<open>return NULL\<close>.
\<close>

function send_code :: "nat \<Rightarrow> nat \<Rightarrow> byte list \<Rightarrow> code_state \<Rightarrow> int \<Rightarrow> byte list option exec" where
  "send_code room limit out cs i =
     (if i < code_buf_ptr cs then
        (if length out < limit then
           seq (rd 17 (code_buf cs) i) (\<lambda>b.
             if length out < room then send_code room limit (out @ [b]) cs (i + 1) else crash OutOfBounds)
         else ret None)
      else ret (Some out))"
  by pat_completeness auto
termination by (relation "measure (\<lambda>(room, limit, out, cs, i). nat (code_buf_ptr cs - i))") auto

declare send_code.simps [simp del]

text \<open>Old strings are deleted while new bytes come in; the result carries \<open>i\<close> and the advanced \<open>r\<close>, \<open>s\<close>.\<close>

record pos_state =
  pos_r :: int
  pos_s :: int
  pos_len :: int

definition next_pos :: "pos_state \<Rightarrow> pos_state" where
  "next_pos ps = ps\<lparr>pos_s := (pos_s ps + 1) AND (LZSS_N - 1), pos_r := (pos_r ps + 1) AND (LZSS_N - 1)\<rparr>"

function read_shift :: "encode_state \<Rightarrow> pos_state \<Rightarrow> int \<Rightarrow> int \<Rightarrow> cursor \<Rightarrow>
    (encode_state \<times> pos_state \<times> int \<times> cursor) exec" where
  "read_shift sp ps last_match_length i cur =
     (if i < last_match_length \<and> 0 < snd cur then
        seq (DeleteNode sp (pos_s ps)) (\<lambda>sp.
        seq (fetch cur) (\<lambda>cc.
        seq (set_text sp (pos_s ps) (fst cc)) (\<lambda>sp.
        seq (if pos_s ps < LZSS_F - 1 then set_text sp (pos_s ps + LZSS_N) (fst cc) else ret sp) (\<lambda>sp.
        seq (InsertNode sp (pos_r (next_pos ps))) (\<lambda>sp.
          read_shift sp (next_pos ps) last_match_length (i + 1) (snd cc))))))
      else ret (sp, ps, i, cur))"
  by pat_completeness auto
termination by (relation "measure (\<lambda>(sp, ps, l, i, cur). nat (l - i))") auto

declare read_shift.simps [simp del]

text \<open>\<open>while (i++ < last_match_length) ...\<close>: the input has ended, \<open>--len\<close> on the way.\<close>

function drain :: "encode_state \<Rightarrow> pos_state \<Rightarrow> int \<Rightarrow> int \<Rightarrow> (encode_state \<times> pos_state) exec" where
  "drain sp ps last_match_length i =
     (if i < last_match_length then
        seq (DeleteNode sp (pos_s ps)) (\<lambda>sp.
        seq (if pos_len ps - 1 \<noteq> 0 then InsertNode sp (pos_r (next_pos ps)) else ret sp) (\<lambda>sp.
          drain sp ((next_pos ps)\<lparr>pos_len := pos_len ps - 1\<rparr>) last_match_length (i + 1)))
      else ret (sp, ps))"
  by pat_completeness auto
termination by (relation "measure (\<lambda>(sp, ps, l, i). nat (l - i))") auto

declare drain.simps [simp del]

text \<open>\<open>if ((mask <<= 1) == 0) ...\<close>: eight units are sent together.\<close>

definition next_mask :: "nat \<Rightarrow> nat \<Rightarrow> byte list \<Rightarrow> code_state \<Rightarrow> (byte list \<times> code_state) option exec" where
  "next_mask room limit out cs0 =
     (let cs = cs0\<lparr>code_mask := push_bit 1 (code_mask cs0)\<rparr> in
      if code_mask cs = 0 then
        seq (send_code room limit out cs 0) (\<lambda>sent. case sent of None \<Rightarrow> ret None
          | Some out \<Rightarrow> seq (reset_code (code_buf cs)) (\<lambda>cs. ret (Some (out, cs))))
      else ret (Some (out, cs)))"

partial_function (option) compress_loop ::
    "nat \<Rightarrow> nat \<Rightarrow> encode_state \<Rightarrow> pos_state \<Rightarrow> code_state \<Rightarrow> byte list \<Rightarrow> cursor \<Rightarrow>
     (byte list \<times> code_state) option exec" where
  "compress_loop room limit sp ps cs out cur =
     seq (put_unit sp (pos_r ps) (pos_len ps) cs) (\<lambda>pu.
     seq (next_mask room limit out (snd pu)) (\<lambda>sent. case sent of None \<Rightarrow> ret None
     | Some oc \<Rightarrow>
       seq (read_shift (fst pu) ps (match_length (fst pu)) 0 cur) (\<lambda>rs.
       seq (drain (fst rs) (fst (snd rs)) (match_length (fst pu)) (fst (snd (snd rs)))) (\<lambda>dr.
         if 0 < pos_len (snd dr)
         then compress_loop room limit (fst dr) (snd dr) (snd oc) (fst oc) (snd (snd (snd rs)))
         else ret (Some oc)))))"

text \<open>
  \<open>new_sp\<close> and \<open>junk\<close> are the indeterminate contents of the new \<open>encode_state\<close> and of \<open>code_buf\<close>. The
  result is what was written to \<open>dst\<close>, \<open>None\<close> for a null pointer.
\<close>

definition Compress :: "nat \<Rightarrow> encode_state \<Rightarrow> (int \<Rightarrow> byte) \<Rightarrow> nat \<Rightarrow> byte list \<Rightarrow> nat \<Rightarrow> byte list option exec" where
  "Compress room new_sp junk dstlen src srclen =
     seq (reset_code junk) (\<lambda>cs.
     seq (read_text (InitState new_sp) (LZSS_N - LZSS_F) 0 (src, srclen)) (\<lambda>rt.
       if fst (snd rt) = 0 then ret None
       else
         seq (insert_spaces (fst rt) (LZSS_N - LZSS_F) 1) (\<lambda>sp.
         seq (InsertNode sp (LZSS_N - LZSS_F)) (\<lambda>sp.
         seq (compress_loop room dstlen sp
                \<lparr>pos_r = LZSS_N - LZSS_F, pos_s = 0, pos_len = fst (snd rt)\<rparr> cs [] (snd (snd rt))) (\<lambda>res.
           case res of None \<Rightarrow> ret None
           | Some oc \<Rightarrow>
             if 1 < code_buf_ptr (snd oc) then send_code room dstlen (fst oc) (snd oc) 0
             else ret (Some (fst oc)))))))"

subsection \<open>The code buffer\<close>

definition units :: "token list \<Rightarrow> byte list" where
  "units ts = concat (map unit_bytes ts)"

text \<open>\<open>pending cs ts\<close>: the buffer holds the units of \<open>ts\<close> and their flags.\<close>

definition pending :: "code_state \<Rightarrow> token list \<Rightarrow> bool" where
  "pending cs ts \<longleftrightarrow> code_mask cs = push_bit (length ts) 1 \<and> length ts \<le> 8 \<and>
     code_buf_ptr cs = 1 + int (length (units ts)) \<and> code_buf cs 0 = flag_byte ts \<and>
     (\<forall>j < length (units ts). code_buf cs (1 + int j) = units ts ! j)"

lemma units_simps [simp]: "units [] = []" "units (ts @ us) = units ts @ units us" "units [t] = unit_bytes t"
  by (simp_all add: units_def)

lemma unit_bytes_length: "length (unit_bytes t) = (case t of Literal b \<Rightarrow> 1 | Copy p m \<Rightarrow> 2)"
  by (cases t) (simp_all add: unit_bytes_def)

lemma units_length: "length (units ts) \<le> 2 * length ts"
  by (induction ts) (auto simp: units_def unit_bytes_length split: token.splits)

lemma reset_code_ok: "\<exists>cs. reset_code buf = ret cs \<and> pending cs []"
  by (simp add: reset_code_def pending_def)

lemma push_code_ok:
  assumes "0 \<le> code_buf_ptr cs" "code_buf_ptr cs < 17"
  shows "push_code cs b = ret (cs\<lparr>code_buf := (code_buf cs)(code_buf_ptr cs := b), code_buf_ptr := code_buf_ptr cs + 1\<rparr>)"
  using assms by (simp add: push_code_def)

lemma pending_literal:
  assumes p: "pending cs ts" "length ts < 8"
  shows "\<exists>cs'. push_code (cs\<lparr>code_buf := (code_buf cs)(0 := code_buf cs 0 OR code_mask cs)\<rparr>) c = ret cs' \<and>
    pending (cs'\<lparr>code_mask := push_bit 1 (code_mask cs')\<rparr>) (ts @ [Literal c])"
proof -
  have "length (units ts) < 16" using units_length [of ts] p(2) by simp
  moreover have "push_bit 1 (push_bit (length ts) 1) = (push_bit (Suc (length ts)) 1 :: byte)"
    by (simp only: push_bit_push_bit) simp
  ultimately show ?thesis
    using p by (simp add: push_code_ok pending_def flag_byte_snoc unit_bytes_def nth_append less_Suc_eq)
qed

lemma pending_copy:
  assumes p: "pending cs ts" "length ts < 8" and xy: "unit_bytes (Copy q m) = [x, y]"
  shows "\<exists>cs'. seq (push_code cs x) (\<lambda>cs. push_code cs y) = ret cs' \<and>
    pending (cs'\<lparr>code_mask := push_bit 1 (code_mask cs')\<rparr>) (ts @ [Copy q m])"
proof -
  let ?p = "code_buf_ptr cs"
  let ?cs = "cs\<lparr>code_buf := (code_buf cs)(?p := x, ?p + 1 := y), code_buf_ptr := ?p + 2\<rparr>"
  have l: "length (units ts) < 15" using units_length [of ts] p(2) by simp
  have c: "code_mask cs = push_bit (length ts) 1" "?p = 1 + int (length (units ts))" "code_buf cs 0 = flag_byte ts"
    "\<And>j. j < length (units ts) \<Longrightarrow> code_buf cs (1 + int j) = units ts ! j"
    using p(1) by (simp_all add: pending_def)
  have e: "seq (push_code cs x) (\<lambda>cs. push_code cs y) = ret ?cs"
  proof -
    have r: "0 \<le> ?p" "?p < 17" "0 \<le> ?p + 1" "?p + 1 < 17" using l c(2) by auto
    show ?thesis using r by (simp only: push_code_ok seq_ret) (simp add: push_code_ok)
  qed
  have mask: "push_bit 1 (code_mask cs) = push_bit (length (ts @ [Copy q m])) 1"
    by (simp only: c(1) push_bit_push_bit) simp
  have "code_buf ?cs (1 + int j) = units (ts @ [Copy q m]) ! j" if "j < length (units (ts @ [Copy q m]))" for j
    using that c(4) [of j] by (auto simp: xy nth_append c(2) nth_Cons' less_Suc_eq)
  moreover have "code_buf ?cs 0 = flag_byte (ts @ [Copy q m])"
    using p(2) by (simp add: c(2,3) flag_byte_snoc)
  ultimately have "pending (?cs\<lparr>code_mask := push_bit 1 (code_mask ?cs)\<rparr>) (ts @ [Copy q m])"
    using p(2) mask by (auto simp: pending_def c(2) xy)
  with e show ?thesis by blast
qed

lemma send_code_from:
  assumes p: "pending cs ts" and i: "0 \<le> i" "i \<le> code_buf_ptr cs" and lim: "length out + nat (code_buf_ptr cs - i) \<le> room \<or> limit \<le> room"
  shows "send_code room limit out cs i =
    (if i < code_buf_ptr cs \<and> limit < length out + nat (code_buf_ptr cs - i) then ret None
     else ret (Some (out @ drop (nat i) (flag_byte ts # units ts))))"
  using i lim
proof (induction "nat (code_buf_ptr cs - i)" arbitrary: i out)
  case 0
  then have "nat i = length (flag_byte ts # units ts)" using p by (auto simp: pending_def)
  with 0 show ?case by (simp add: send_code.simps)
next
  case (Suc n)
  then have il: "i < code_buf_ptr cs" "nat (code_buf_ptr cs - (i + 1)) = n" by auto
  have lu: "length (units ts) \<le> 16" using units_length [of ts] p by (simp add: pending_def)
  have b: "code_buf cs i = (flag_byte ts # units ts) ! nat i" "nat i < length (flag_byte ts # units ts)"
  proof -
    show n: "nat i < length (flag_byte ts # units ts)" using p il(1) Suc.prems(1) by (simp add: pending_def)
    show "code_buf cs i = (flag_byte ts # units ts) ! nat i"
    proof (cases "i = 0")
      case True
      with p show ?thesis by (simp add: pending_def)
    next
      case False
      with Suc.prems(1) obtain j where j: "i = 1 + int j" using zle_iff_zadd [of 1 i] by auto
      with n have "j < length (units ts)" by simp
      moreover have "nat i = Suc j" using j by simp
      ultimately show ?thesis using p j by (simp add: pending_def)
    qed
  qed
  have s: "send_code room limit out cs i = (if length out < limit then
      if length out < room then send_code room limit (out @ [code_buf cs i]) cs (i + 1) else crash OutOfBounds
      else ret None)"
    using il Suc.prems(1) p lu by (subst send_code.simps) (simp add: pending_def)
  have d: "drop (nat i) (flag_byte ts # units ts) = code_buf cs i # drop (nat (i + 1)) (flag_byte ts # units ts)"
  proof -
    have "nat (i + 1) = Suc (nat i)" using Suc.prems(1) by simp
    then show ?thesis using b by (simp only: Cons_nth_drop_Suc)
  qed
  show ?case
    using Suc.hyps(1) [of "i + 1" "out @ [code_buf cs i]"] Suc.hyps(2) Suc.prems il d
    by (auto simp: s)
qed

subsection \<open>Tokens and the input\<close>

lemma stream_take: "a < t \<Longrightarrow> t \<le> int (length xs) \<Longrightarrow> stream (take (nat t) xs) a = stream xs a"
  by (auto simp: stream_def)

lemma take_snoc_stream: "t < length xs \<Longrightarrow> take t xs @ [stream xs (int t)] = take (Suc t) xs"
  by (simp add: stream_def take_Suc_conv_app_nth)

lemma expand_append: "expand out ts = Some mid \<Longrightarrow> expand out (ts @ us) = expand mid us"
  by (induction out ts rule: expand.induct) (auto simp: Let_def split: if_splits)

lemma expand_copy_take:
  assumes "a < int t" "t + m \<le> length xs"
    and "\<And>i. 0 \<le> i \<Longrightarrow> i < int m \<Longrightarrow> stream xs (a + i) = stream xs (int t + i)"
  shows "expand_copy (take t xs) a m = take (t + m) xs"
  using assms
proof (induction m arbitrary: a t)
  case (Suc m)
  have "stream (take t xs) a = stream xs (int t)"
    using Suc.prems(1,2) Suc.prems(3) [of 0] stream_take [of a "int t" xs] by simp
  moreover have "take t xs @ [stream xs (int t)] = take (Suc t) xs"
    using Suc.prems(2) by (intro take_snoc_stream) simp
  moreover have "stream xs (a + 1 + i) = stream xs (int (Suc t) + i)" if "0 \<le> i" "i < int m" for i
    using Suc.prems(3) [of "1 + i"] that by (simp add: algebra_simps)
  ultimately show ?case using Suc.IH [of "a + 1" "Suc t"] Suc.prems(1,2) by simp
qed simp

text \<open>\<open>coded ts xs t\<close>: the tokens stand for the first \<open>t\<close> bytes of the input.\<close>

definition coded :: "token list \<Rightarrow> byte list \<Rightarrow> int \<Rightarrow> bool" where
  "coded ts xs t \<longleftrightarrow> (\<forall>u \<in> set ts. valid_token u) \<and> 0 \<le> t \<and> t \<le> int (length xs) \<and>
     expand [] ts = Some (take (nat t) xs)"

lemma coded_literal:
  assumes "coded ts xs t" "t < int (length xs)"
  shows "coded (ts @ [Literal (stream xs t)]) xs (t + 1)"
proof -
  have "take (nat t) xs @ [stream xs t] = take (Suc (nat t)) xs"
  proof -
    have "nat t < length xs" "int (nat t) = t" using assms by (auto simp: coded_def)
    with take_snoc_stream [of "nat t" xs] show ?thesis by simp
  qed
  with assms show ?thesis
    by (auto simp: coded_def expand_append valid_token_def nat_add_distrib)
qed

lemma coded_copy:
  assumes c: "coded ts xs t" and m: "matched (p, l) xs t e" "3 \<le> m" "m \<le> l" "t + m \<le> e" "e \<le> int (length xs)"
  shows "coded (ts @ [Copy p m]) xs (t + m)"
proof -
  from m obtain a where a: "t - 4078 \<le> a" "a < t" "p = ring a" "l \<le> 18"
    "\<And>i. 0 \<le> i \<Longrightarrow> i < l \<Longrightarrow> t + i < e \<Longrightarrow> stream xs (a + i) = stream xs (t + i)"
    by (auto simp: matched_def)
  have t: "0 \<le> t" "t \<le> int (length xs)" "int (nat t) = t" "nat (int (nat t)) = nat t" using c by (auto simp: coded_def)
  have o: "origin t p = a" using a by (simp add: origin_ring)
  have "expand_copy (take (nat t) xs) a (nat m) = take (nat t + nat m) xs"
  proof (rule expand_copy_take)
    show "a < int (nat t)" "nat t + nat m \<le> length xs" using m(2,4,5) a(2) t by linarith+
    show "stream xs (a + i) = stream xs (int (nat t) + i)" if "0 \<le> i" "i < int (nat m)" for i
      using a(5) [of i] that m t(3) by simp
  qed
  moreover have "nat t + nat m = nat (t + m)" using t(1) m(2) nat_add_distrib [of t m] by linarith
  moreover have "length (take (nat t) xs) = nat t" using t by auto
  ultimately have "expand (take (nat t) xs) [Copy p m] = Some (take (nat (t + m)) xs)"
  proof -
    have "- 4078 \<le> a" using a(1) t(1) by simp
    then show ?thesis using t(3)
        \<open>expand_copy (take (nat t) xs) a (nat m) = take (nat t + nat m) xs\<close>
        \<open>nat t + nat m = nat (t + m)\<close> \<open>length (take (nat t) xs) = nat t\<close>
      by (simp only: expand.simps Let_def o if_True)
  qed
  moreover have "valid_token (Copy p m)"
    using a m ring_range [of a] by (simp add: valid_token_def)
  moreover have "0 \<le> t + m" "t + m \<le> int (length xs)" using t(1) m by linarith+
  ultimately show ?thesis using c unfolding coded_def by (simp only: expand_append) auto
qed

text \<open>The size of the code.\<close>

lemma coded_size_aux:
  assumes "\<forall>u \<in> set ts. valid_token u" "expand out ts = Some res"
  shows "length out + length ts \<le> length res \<and> length out + length (units ts) \<le> length res"
  using assms
proof (induction out ts rule: expand.induct)
  case (2 out b ts)
  then show ?case by (auto simp: units_def unit_bytes_length)
next
  case (3 out p m ts)
  then have m: "3 \<le> m" by (simp add: valid_token_def)
  have "- 4078 \<le> origin (int (length out)) p" using 3(3) by (auto simp: Let_def split: if_splits)
  with 3 m show ?case
    by (auto simp: Let_def expand_copy_length units_def unit_bytes_length)
qed (auto simp: units_def)

lemma encode_tokens_length:
  "length (encode_tokens ts) = length (units ts) + (length ts + 7) div 8"
proof (induction ts rule: encode_tokens.induct)
  case (1 ts)
  show ?case
  proof (cases "ts = []")
    case True
    then show ?thesis by (simp add: encode_tokens.simps)
  next
    case False
    have u: "units ts = units (take 8 ts) @ units (drop 8 ts)"
      by (simp add: units_def flip: concat_append map_append)
    have "(length ts + 7) div 8 = Suc ((length (drop 8 ts) + 7) div 8)"
    proof (cases "length ts \<le> 8")
      case True
      moreover have "1 \<le> length ts" using False by (cases ts) auto
      ultimately have "(length ts + 7) div 8 = 1" by (intro div_nat_eqI) auto
      with True show ?thesis by simp
    next
      case False
      then have "length ts + 7 = length (drop 8 ts) + 7 + 8" by simp
      then show ?thesis by (simp only: div_add_self2)
    qed
    with False 1 u show ?thesis
      by (simp add: encode_tokens.simps [of ts] group_bytes_def units_def)
  qed
qed

definition code_bound :: "nat \<Rightarrow> nat" where
  "code_bound n = n + (n + 7) div 8"

lemma coded_size:
  assumes "coded ts xs t" shows "length (encode_tokens ts) \<le> code_bound (length xs)"
proof -
  from assms have "length ts \<le> nat t" "length (units ts) \<le> nat t" "nat t \<le> length xs"
    using coded_size_aux [of ts "[]" "take (nat t) xs"] by (auto simp: coded_def)
  then have "(length ts + 7) div 8 \<le> (length xs + 7) div 8" by (intro div_le_mono) auto
  with \<open>length (units ts) \<le> nat t\<close> \<open>nat t \<le> length xs\<close> show ?thesis
    by (simp add: encode_tokens_length code_bound_def)
qed

subsection \<open>One round of the main loop\<close>

definition cursor_at :: "cursor \<Rightarrow> byte list \<Rightarrow> int \<Rightarrow> bool" where
  "cursor_at cur xs e \<longleftrightarrow> 0 \<le> e \<and> e \<le> int (length xs) \<and>
     (\<exists>tl. cur = (drop (nat e) xs @ tl, length xs - nat e))"

definition pos_at :: "pos_state \<Rightarrow> int \<Rightarrow> int \<Rightarrow> bool" where
  "pos_at ps t e \<longleftrightarrow> pos_r ps = ring t \<and> pos_s ps = ring (t + 18) \<and> pos_len ps = e - t"

abbreviation best_match :: "encode_state \<Rightarrow> int \<times> int" where
  "best_match sp \<equiv> (match_position sp, match_length sp)"

lemma cursor_end: "cursor_at cur xs e \<Longrightarrow> snd cur = 0 \<longleftrightarrow> e = int (length xs)"
  by (auto simp: cursor_at_def)

lemma cursor_fetch:
  assumes "cursor_at cur xs e" "e < int (length xs)"
  shows "\<exists>cur'. fetch cur = ret (stream xs e, cur') \<and> next_byte cur = ret (Some (stream xs e, cur')) \<and>
    cursor_at cur' xs (e + 1)"
proof -
  from assms obtain tl where c: "cur = (drop (nat e) xs @ tl, length xs - nat e)" and e: "0 \<le> e"
    by (auto simp: cursor_at_def)
  have l: "nat e < length xs" "stream xs e = xs ! nat e" "nat (e + 1) = Suc (nat e)"
    using e assms(2) by (auto simp: stream_def)
  then have "drop (nat e) xs = stream xs e # drop (nat (e + 1)) xs" "length xs - nat e = Suc (length xs - nat (e + 1))"
    by (simp_all add: Cons_nth_drop_Suc)
  then show ?thesis using c e assms(2) by (auto simp: cursor_at_def)
qed

lemma pos_next: "pos_at ps t e \<Longrightarrow> pos_at (next_pos ps) (t + 1) (e + 1)"
  using ring_add [of t 1] ring_add [of "t + 18" 1]
  by (simp add: pos_at_def next_pos_def mask_nibble)

lemma put_unit_ok:
  assumes h: "dict.holds sp xs t e" "matched (best_match sp) xs t e" "t < e"
    and c: "pending cs us" "length us < 8" "coded (ds @ us) xs t"
  shows "\<exists>l cs' u. put_unit sp (ring t) (e - t) cs = ret (sp\<lparr>match_length := l\<rparr>, cs') \<and> 1 \<le> l \<and> l \<le> e - t \<and>
    pending (cs'\<lparr>code_mask := push_bit 1 (code_mask cs')\<rparr>) (us @ [u]) \<and> coded (ds @ us @ [u]) xs (t + l)"
proof -
  define l where "l = min (match_length sp) (e - t)"
  have w: "window (text_buf sp) xs t e" using h(1) by (simp add: dict.holds_def)
  then have e: "e \<le> int (length xs)" "0 \<le> t" by (auto simp: window_def)
  have sp: "(if match_length sp > e - t then sp\<lparr>match_length := e - t\<rparr> else sp) = sp\<lparr>match_length := l\<rparr>"
    by (auto simp: l_def)
  show ?thesis
  proof (cases "l \<le> 2")
    case True
    have tx: "get_text sp (ring t) = ret (stream xs t)"
      using window_read [OF w, of t 0] h(3) ring_range [of t] by (simp add: get_text_def)
    from pending_literal [OF c(1,2), of "stream xs t"] obtain cs' where
      cs': "push_code (cs\<lparr>code_buf := (code_buf cs)(0 := code_buf cs 0 OR code_mask cs)\<rparr>) (stream xs t) = ret cs'"
      "pending (cs'\<lparr>code_mask := push_bit 1 (code_mask cs')\<rparr>) (us @ [Literal (stream xs t)])" by blast
    have gt: "get_text (sp\<lparr>match_length := l\<rparr>) (ring t) = ret (stream xs t)" using tx by (simp add: get_text_def)
    have "put_unit sp (ring t) (e - t) cs = ret (sp\<lparr>match_length := 1\<rparr>, cs')"
      using True cs'(1) gt by (simp add: put_unit_def Let_def sp)
    moreover have "coded (ds @ us @ [Literal (stream xs t)]) xs (t + 1)"
      using coded_literal [OF c(3)] h(3) e by simp
    ultimately show ?thesis using cs'(2) h(3) by (intro exI [of _ 1]) auto
  next
    case False
    have "coded ((ds @ us) @ [Copy (match_position sp) l]) xs (t + l)"
      using h(2) False e by (intro coded_copy [OF c(3)]) (auto simp: l_def)
    then have cd: "coded (ds @ us @ [Copy (match_position sp) l]) xs (t + l)" by simp
    have "put_unit sp (ring t) (e - t) cs =
        seq (seq (push_code cs (word_of_int (match_position sp))) (\<lambda>cs. push_code cs (word_of_int
              ((drop_bit 4 (match_position sp) AND 0xF0) OR (l - 3))))) (\<lambda>cs. ret (sp\<lparr>match_length := l\<rparr>, cs))"
      using False by (simp add: put_unit_def Let_def sp seq_seq)
    moreover have "unit_bytes (Copy (match_position sp) l) = [word_of_int (match_position sp), word_of_int
              ((drop_bit 4 (match_position sp) AND 0xF0) OR (l - 3))]" by (simp add: unit_bytes_def)
    from pending_copy [OF c(1,2) this] obtain cs' where
      "seq (push_code cs (word_of_int (match_position sp))) (\<lambda>cs. push_code cs (word_of_int
              ((drop_bit 4 (match_position sp) AND 0xF0) OR (l - 3)))) = ret cs'"
      "pending (cs'\<lparr>code_mask := push_bit 1 (code_mask cs')\<rparr>) (us @ [Copy (match_position sp) l])" by blast
    ultimately have "put_unit sp (ring t) (e - t) cs = ret (sp\<lparr>match_length := l\<rparr>, cs')"
      "pending (cs'\<lparr>code_mask := push_bit 1 (code_mask cs')\<rparr>) (us @ [Copy (match_position sp) l])"
      by simp_all
    with cd False show ?thesis by (intro exI [of _ l]) (auto simp: l_def)
  qed
qed

lemma mask_wrap: "length us \<le> 8 \<Longrightarrow> (push_bit (length us) 1 :: byte) = 0 \<longleftrightarrow> length us = 8"
  by (simp add: push_bit_eq_mult)

text \<open>Sending the eight units: either the buffer is too short or the group is appended.\<close>

lemma send_group:
  assumes p: "pending cs us" "us \<noteq> []" "8 dvd length ds" and c: "coded (ds @ us) xs t"
    and lim: "limit \<le> room \<or> code_bound (length xs) \<le> room"
  shows "send_code room limit (encode_tokens ds) cs 0 =
    (if limit < length (encode_tokens (ds @ us)) then ret None else ret (Some (encode_tokens (ds @ us))))"
proof -
  have us: "length us \<le> 8" using p by (simp add: pending_def)
  have e: "encode_tokens (ds @ us) = encode_tokens ds @ flag_byte us # units us"
    using encode_tokens_group [OF p(3,2) us] by (simp add: group_bytes_def units_def)
  have n: "nat (code_buf_ptr cs) = Suc (length (units us))" "0 < code_buf_ptr cs"
    using p by (auto simp: pending_def)
  have "length (encode_tokens ds) + nat (code_buf_ptr cs - 0) \<le> room \<or> limit \<le> room"
    using coded_size [OF c] lim n by (auto simp: e)
  from send_code_from [OF p(1) _ _ this] n show ?thesis by (auto simp: e)
qed

lemma next_mask_ok:
  assumes p: "pending (cs\<lparr>code_mask := push_bit 1 (code_mask cs)\<rparr>) us" "us \<noteq> []" "8 dvd length ds"
    and c: "coded (ds @ us) xs t" and lim: "limit \<le> room \<or> code_bound (length xs) \<le> room"
  shows "(next_mask room limit (encode_tokens ds) cs = ret None \<and> limit < code_bound (length xs)) \<or>
    (\<exists>ds' us' cs'. next_mask room limit (encode_tokens ds) cs = ret (Some (encode_tokens ds', cs')) \<and>
       ds' @ us' = ds @ us \<and> 8 dvd length ds' \<and> pending cs' us' \<and> length us' < 8)"
proof -
  let ?cs = "cs\<lparr>code_mask := push_bit 1 (code_mask cs)\<rparr>"
  have us: "length us \<le> 8" "code_mask ?cs = push_bit (length us) 1" using p by (simp_all add: pending_def)
  show ?thesis
  proof (cases "length us = 8")
    case False
    with us mask_wrap [of us] have "code_mask ?cs \<noteq> 0" by simp
    then have "next_mask room limit (encode_tokens ds) cs = ret (Some (encode_tokens ds, ?cs))"
      by (simp only: next_mask_def Let_def if_False)
    with False us p show ?thesis by (metis le_neq_implies_less)
  next
    case True
    with us mask_wrap [of us] have z: "code_mask ?cs = 0" by simp
    have n: "next_mask room limit (encode_tokens ds) cs =
      seq (send_code room limit (encode_tokens ds) ?cs 0) (\<lambda>sent. case sent of None \<Rightarrow> ret None
          | Some out \<Rightarrow> seq (reset_code (code_buf ?cs)) (\<lambda>cs. ret (Some (out, cs))))"
      by (simp only: next_mask_def Let_def refl if_True z)
    note s = send_group [OF p c lim]
    show ?thesis
    proof (cases "limit < length (encode_tokens (ds @ us))")
      case True
      with s coded_size [OF c] show ?thesis by (simp add: n)
    next
      case False
      from reset_code_ok [of "code_buf ?cs"] obtain cs' where "reset_code (code_buf ?cs) = ret cs'" "pending cs' []"
        by blast
      moreover have "8 dvd length (ds @ us)" using p(3) True by simp
      ultimately show ?thesis using False s n
        by (intro disjI2 exI [of _ "ds @ us"] exI [of _ "[]"] exI [of _ cs']) simp
    qed
  qed
qed

lemma read_shift_ok:
  assumes "dict.holds sp xs t e" "cursor_at cur xs e" "pos_at ps t e"
    and "e < int (length xs) \<longrightarrow> e = t + 18" "i \<le> l" "0 \<le> i" "0 < i \<longrightarrow> matched (best_match sp) xs t e"
  shows "\<exists>sp' ps' j cur'. read_shift sp ps l i cur = ret (sp', ps', j, cur') \<and> i \<le> j \<and> j \<le> l \<and>
    dict.holds sp' xs (t + (j - i)) (e + (j - i)) \<and> cursor_at cur' xs (e + (j - i)) \<and>
    pos_at ps' (t + (j - i)) (e + (j - i)) \<and>
    (e + (j - i) < int (length xs) \<longrightarrow> j = l \<and> e = t + 18) \<and>
    (0 < j \<longrightarrow> matched (best_match sp') xs (t + (j - i)) (e + (j - i)))"
  using assms
proof (induction "nat (l - i)" arbitrary: sp t e cur ps i rule: less_induct)
  case less
  show ?case
  proof (cases "i < l \<and> 0 < snd cur")
    case False
    then have "read_shift sp ps l i cur = ret (sp, ps, i, cur)" by (subst read_shift.simps) (simp only: if_False)
    moreover have "e < int (length xs) \<longrightarrow> i = l" using False cursor_end [OF less.prems(2)] less.prems(5) by auto
    ultimately show ?thesis using less.prems by (intro exI [of _ sp] exI [of _ ps] exI [of _ i] exI [of _ cur]) simp
  next
    case True
    have "e \<noteq> int (length xs)" using True cursor_end [OF less.prems(2)] by simp
    then have e: "e < int (length xs)" "e = t + 18" using less.prems(2,4) by (auto simp: cursor_at_def)
    from cursor_fetch [OF less.prems(2) e(1)] obtain cur' where cur': "fetch cur = ret (stream xs e, cur')"
      "cursor_at cur' xs (e + 1)" by blast
    have p: "pos_s ps = ring (t + 18)" "pos_r (next_pos ps) = ring (t + 1)"
      using less.prems(3) pos_next [OF less.prems(3)] by (simp_all add: pos_at_def)
    have h: "dict.holds sp xs t (t + 18)" "t + 18 < int (length xs)" "stream xs e = stream xs (t + 18)"
      using less.prems(1) e by simp_all
    from dict.shift_read [OF h] obtain sp1 where
      sp1: "seq (DeleteNode sp (ring (t + 18))) (\<lambda>s. seq (set_text s (ring (t + 18)) (stream xs e)) (\<lambda>s.
        seq (if ring (t + 18) < 17 then set_text s (ring (t + 18) + 4096) (stream xs e) else ret s)
          (\<lambda>s. InsertNode s (ring (t + 1))))) = ret sp1"
      "dict.holds sp1 xs (t + 1) (t + 19)" "matched (best_match sp1) xs (t + 1) (t + 19)" by blast
    then have step: "read_shift sp ps l i cur = read_shift sp1 (next_pos ps) l (i + 1) cur'"
      using True by (subst read_shift.simps) (auto simp: p cur' seq_eq_ret)
    have e1: "t + 19 = e + 1" using e by simp
    have "dict.holds sp1 xs (t + 1) (e + 1)" using sp1 e1 by simp
    from less.hyps [OF _ this cur'(2) pos_next [OF less.prems(3)], of "i + 1"]
      e True less.prems(6) sp1(3) e1 obtain sp' ps' j cur'' where
      r: "read_shift sp1 (next_pos ps) l (i + 1) cur' = ret (sp', ps', j, cur'')" "i + 1 \<le> j" "j \<le> l"
      "dict.holds sp' xs (t + 1 + (j - (i + 1))) (e + 1 + (j - (i + 1)))"
      "cursor_at cur'' xs (e + 1 + (j - (i + 1)))" "pos_at ps' (t + 1 + (j - (i + 1))) (e + 1 + (j - (i + 1)))"
      "e + 1 + (j - (i + 1)) < int (length xs) \<longrightarrow> j = l \<and> e + 1 = t + 1 + 18"
      "0 < j \<longrightarrow> matched (best_match sp') xs (t + 1 + (j - (i + 1))) (e + 1 + (j - (i + 1)))"
      by auto
    have eq: "t + 1 + (j - (i + 1)) = t + (j - i)" "e + 1 + (j - (i + 1)) = e + (j - i)" by simp_all
    with r step show ?thesis
      unfolding eq by (intro exI [of _ sp'] exI [of _ ps'] exI [of _ j] exI [of _ cur'']) auto
  qed
qed

lemma drain_ok:
  assumes "dict.holds sp xs t e" "t < e" "pos_at ps t e" "i \<le> l" "l - i \<le> e - t"
    and "0 \<le> i" "0 < i \<longrightarrow> matched (best_match sp) xs t e" "0 < l"
  shows "\<exists>sp' ps'. drain sp ps l i = ret (sp', ps') \<and> pos_at ps' (t + (l - i)) e \<and>
    (t + (l - i) < e \<longrightarrow> dict.holds sp' xs (t + (l - i)) e \<and> matched (best_match sp') xs (t + (l - i)) e)"
  using assms
proof (induction "nat (l - i)" arbitrary: sp t ps i)
  case 0
  then have "i = l" by simp
  with 0 show ?case by (subst drain.simps) simp
next
  case (Suc n)
  then have i: "i < l" by simp
  have p: "pos_s ps = ring (t + 18)" "pos_r (next_pos ps) = ring (t + 1)" "pos_len ps = e - t"
    using Suc.prems(3) pos_next [OF Suc.prems(3)] by (simp_all add: pos_at_def)
  let ?ps = "(next_pos ps)\<lparr>pos_len := pos_len ps - 1\<rparr>"
  have ps: "pos_at ?ps (t + 1) e" using pos_next [OF Suc.prems(3)] by (simp add: pos_at_def p(3))
  have step: "drain sp ps l i = seq (seq (DeleteNode sp (ring (t + 18))) (\<lambda>sp.
      if e - t - 1 \<noteq> 0 then InsertNode sp (ring (t + 1)) else ret sp)) (\<lambda>sp. drain sp ?ps l (i + 1))"
    using i by (subst drain.simps) (simp only: if_True p seq_seq)
  show ?case
  proof (cases "t + 1 < e")
    case True
    from dict.shift_drain [OF Suc.prems(1) True] obtain sp1 where
      sp1: "seq (DeleteNode sp (ring (t + 18))) (\<lambda>s. InsertNode s (ring (t + 1))) = ret sp1"
        "dict.holds sp1 xs (t + 1) e" "matched (best_match sp1) xs (t + 1) e" by blast
    have "drain sp ps l i = drain sp1 ?ps l (i + 1)" using True sp1(1) by (simp add: step)
    moreover have "t + 1 + (l - (i + 1)) = t + (l - i)" by simp
    ultimately show ?thesis
      using Suc.hyps(1) [of "i + 1" sp1 "t + 1" ?ps] Suc.hyps(2) Suc.prems i sp1(2,3) True ps by simp
  next
    case False
    then have last: "e = t + 1" "l = i + 1" using Suc.prems i by auto
    from dict.del_window [OF Suc.prems(1)] obtain sp1 where "DeleteNode sp (ring (t + 18)) = ret sp1" by blast
    then have "drain sp ps l i = drain sp1 ?ps l (i + 1)" unfolding step by (simp add: last(1))
    then have "drain sp ps l i = ret (sp1, ?ps)" using last by (simp add: drain.simps)
    with last ps show ?thesis by auto
  qed
qed

text \<open>The outcome of the main loop: \<open>None\<close> only when the buffer is too short for the worst case.\<close>

definition loop_outcome :: "byte list \<Rightarrow> nat \<Rightarrow> (byte list \<times> code_state) option exec \<Rightarrow> bool" where
  "loop_outcome xs limit m \<longleftrightarrow> (m = ret None \<and> limit < code_bound (length xs)) \<or>
     (\<exists>ds us cs. m = ret (Some (encode_tokens ds, cs)) \<and> 8 dvd length ds \<and> pending cs us \<and> length us < 8 \<and>
        coded (ds @ us) xs (int (length xs)))"

lemma holds_match_length: "dict.holds (sp\<lparr>match_length := l\<rparr>) xs t e = dict.holds sp xs t e"
proof -
  have "tree_ok (sp\<lparr>match_length := l\<rparr>) = tree_ok sp"
  proof -
    have "first_byte (sp\<lparr>match_length := l\<rparr>) = first_byte sp" "children (sp\<lparr>match_length := l\<rparr>) = children sp"
      by (simp_all add: first_byte_def children_def fun_eq_iff)
    then show ?thesis by (simp add: tree_ok_def nodes_def)
  qed
  then show ?thesis by (simp add: dict.holds_def nodes_def)
qed

lemma compress_loop_ok:
  assumes "dict.holds sp xs t e" "matched (best_match sp) xs t e" "t < e" "pos_at ps t e"
    and "pending cs us" "length us < 8" "8 dvd length ds" "coded (ds @ us) xs t"
    and "cursor_at cur xs e" "e < int (length xs) \<longrightarrow> e = t + 18"
    and lim: "limit \<le> room \<or> code_bound (length xs) \<le> room"
  shows "loop_outcome xs limit (compress_loop room limit sp ps cs (encode_tokens ds) cur)"
  using assms(1-10)
proof (induction "nat (int (length xs) - t)" arbitrary: sp t e ps cs us ds cur rule: less_induct)
  case less
  note pr = less.prems
  have ps: "pos_r ps = ring t" "pos_len ps = e - t" using pr(4) by (simp_all add: pos_at_def)
  have en: "e \<le> int (length xs)" using pr(9) by (simp add: cursor_at_def)
  from put_unit_ok [OF pr(1-3,5,6,8)] obtain l cs1 u where
    pu: "put_unit sp (ring t) (e - t) cs = ret (sp\<lparr>match_length := l\<rparr>, cs1)" and l: "1 \<le> l" "l \<le> e - t"
    and pend: "pending (cs1\<lparr>code_mask := push_bit 1 (code_mask cs1)\<rparr>) (us @ [u])"
    and cd: "coded (ds @ us @ [u]) xs (t + l)" by blast
  let ?sp = "sp\<lparr>match_length := l\<rparr>"
  note unfold = compress_loop.simps [of room limit sp ps cs "encode_tokens ds" cur, unfolded ps pu seq_ret fst_conv snd_conv]
  have "us @ [u] \<noteq> []" by simp
  from next_mask_ok [OF pend this pr(7) cd lim] show ?case
  proof (elim disjE exE conjE)
    assume "next_mask room limit (encode_tokens ds) cs1 = ret None" "limit < code_bound (length xs)"
    then show ?thesis by (simp add: unfold loop_outcome_def)
  next
    fix ds' us' cs'
    assume nm: "next_mask room limit (encode_tokens ds) cs1 = ret (Some (encode_tokens ds', cs'))"
      and du: "ds' @ us' = ds @ us @ [u]" "8 dvd length ds'" "pending cs' us'" "length us' < 8"
    from pr(1) have "dict.holds ?sp xs t e" by (simp add: holds_match_length)
    from read_shift_ok [OF this pr(9,4,10), of 0 l] l obtain sp2 ps2 j cur2 where
      rs: "read_shift ?sp ps l 0 cur = ret (sp2, ps2, j, cur2)" "0 \<le> j" "j \<le> l"
        "dict.holds sp2 xs (t + j) (e + j)" "cursor_at cur2 xs (e + j)" "pos_at ps2 (t + j) (e + j)"
        "e + j < int (length xs) \<longrightarrow> j = l \<and> e = t + 18"
        "0 < j \<longrightarrow> matched (best_match sp2) xs (t + j) (e + j)" by auto
    have "t + j < e + j" "l - j \<le> e + j - (t + j)" "0 < l" using pr(3) rs(2) l by auto
    from drain_ok [OF rs(4) this(1) rs(6,3) this(2) rs(2,8) this(3)] obtain sp3 ps3 where
      dr: "drain sp2 ps2 l j = ret (sp3, ps3)" "pos_at ps3 (t + l) (e + j)"
        "t + l < e + j \<longrightarrow> dict.holds sp3 xs (t + l) (e + j) \<and> matched (best_match sp3) xs (t + l) (e + j)"
      by auto
    have len: "pos_len ps3 = e + j - (t + l)" using dr(2) by (simp add: pos_at_def)
    have body: "compress_loop room limit sp ps cs (encode_tokens ds) cur =
      (if t + l < e + j then compress_loop room limit sp3 ps3 cs' (encode_tokens ds') cur2
       else ret (Some (encode_tokens ds', cs')))"
      by (simp add: unfold nm rs(1) dr(1) len)
    have cd': "coded (ds' @ us') xs (t + l)" using cd du(1) by simp
    show ?thesis
    proof (cases "t + l < e + j")
      case True
      have "loop_outcome xs limit (compress_loop room limit sp3 ps3 cs' (encode_tokens ds') cur2)"
        using True dr l pr(3) en rs(7) du(2-4) cd' rs(5) by (intro less.hyps) auto
      with True show ?thesis by (simp add: body)
    next
      case False
      have "t + l = int (length xs)"
      proof (cases "e + j < int (length xs)")
        case True
        with rs(7) False pr(3) show ?thesis by simp
      next
        case no: False
        have "e + j \<le> int (length xs)" using rs(5) by (simp add: cursor_at_def)
        moreover have "t + l \<le> int (length xs)" using cd by (simp add: coded_def)
        ultimately show ?thesis using no False by simp
      qed
      then have "coded (ds' @ us') xs (int (length xs))" using cd' by simp
      with False du(2-4) show ?thesis unfolding body loop_outcome_def by auto
    qed
  qed
qed

subsection \<open>The routine\<close>

lemma window_zero:
  "window txt xs 0 e \<longleftrightarrow> 0 \<le> e \<and> e \<le> 18 \<and> e \<le> int (length xs) \<and>
     (\<forall>a. - 4078 \<le> a \<and> a < e \<longrightarrow> txt (4078 + a) = stream xs a)"
proof -
  have r: "ring a = 4078 + a" if "- 4078 \<le> a" "a < 18" for a
    using that by (auto simp: ring_def intro!: mod_pos_pos_trivial)
  show ?thesis
  proof
    assume "window txt xs 0 e"
    then show "0 \<le> e \<and> e \<le> 18 \<and> e \<le> int (length xs) \<and> (\<forall>a. - 4078 \<le> a \<and> a < e \<longrightarrow> txt (4078 + a) = stream xs a)"
      using r by (auto simp: window_def)
  next
    assume h: "0 \<le> e \<and> e \<le> 18 \<and> e \<le> int (length xs) \<and> (\<forall>a. - 4078 \<le> a \<and> a < e \<longrightarrow> txt (4078 + a) = stream xs a)"
    then have "txt (ring a) = stream xs a" if "- 4078 \<le> a" "a < e" for a using r [of a] that by auto
    moreover have "\<not> ring a < 17" if "0 \<le> a" "a < e" for a using h r [of a] that by auto
    ultimately show "window txt xs 0 e" using h by (auto simp: window_def)
  qed
qed

lemma read_text_ok:
  assumes "tree_ok sp" "nodes sp = {}" "window (text_buf sp) xs 0 len" "cursor_at cur xs len"
  shows "\<exists>sp' len' cur'. read_text sp 4078 len cur = ret (sp', len', cur') \<and> tree_ok sp' \<and> nodes sp' = {} \<and>
    window (text_buf sp') xs 0 len' \<and> cursor_at cur' xs len' \<and> (len' < int (length xs) \<longrightarrow> len' = 18) \<and>
    (len' = 0 \<longleftrightarrow> xs = [])"
  using assms
proof (induction "nat (18 - len)" arbitrary: sp len cur)
  case 0
  then have "len = 18" by (simp add: window_def)
  with 0 show ?case by (subst read_text.simps) (auto simp: window_def)
next
  case (Suc n)
  then have l: "len < 18" "0 \<le> len" by (auto simp: window_def)
  show ?case
  proof (cases "len < int (length xs)")
    case False
    then have e: "len = int (length xs)" using Suc.prems(3) by (simp add: window_def)
    with cursor_end [OF Suc.prems(4)] have "next_byte cur = ret None" by (simp add: next_byte_def)
    with l have "read_text sp 4078 len cur = ret (sp, len, cur)" by (subst read_text.simps) simp
    with Suc.prems e show ?thesis by auto
  next
    case True
    from cursor_fetch [OF Suc.prems(4) True] obtain cur' where
      c: "next_byte cur = ret (Some (stream xs len, cur'))" "cursor_at cur' xs (len + 1)" by blast
    from set_text_ok [OF Suc.prems(1), of "4078 + len" "stream xs len"] l Suc.prems(2) obtain sp1 where
      sp1: "set_text sp (4078 + len) (stream xs len) = ret sp1" "tree_ok sp1" "nodes sp1 = {}"
        "text_buf sp1 = (text_buf sp)(4078 + len := stream xs len)" by auto
    have "window (text_buf sp1) xs 0 (len + 1)"
      using Suc.prems(3) l True by (auto simp: window_zero sp1(4))
    moreover have "n = nat (18 - (len + 1))" using Suc.hyps(2) by simp
    ultimately obtain sp' len' cur'' where
      r: "read_text sp1 4078 (len + 1) cur' = ret (sp', len', cur'')" "tree_ok sp' \<and> nodes sp' = {} \<and>
        window (text_buf sp') xs 0 len' \<and> cursor_at cur'' xs len' \<and> (len' < int (length xs) \<longrightarrow> len' = 18) \<and>
        (len' = 0 \<longleftrightarrow> xs = [])" using Suc.hyps(1) [of "len + 1" sp1 cur'] sp1 c by auto
    have "read_text sp 4078 len cur = ret (sp', len', cur'')"
      using l c r(1) sp1(1) by (subst read_text.simps) simp
    with r(2) show ?thesis by blast
  qed
qed

lemma insert_spaces_ok:
  assumes "tree_ok sp" "nodes sp \<subseteq> {4078 - i <..< 4078}" "1 \<le> i" "i \<le> 19"
  shows "\<exists>sp'. insert_spaces sp 4078 i = ret sp' \<and> tree_ok sp' \<and> nodes sp' \<subseteq> {4059 <..< 4078} \<and> text_buf sp' = text_buf sp"
  using assms
proof (induction "nat (19 - i)" arbitrary: sp i)
  case 0
  then have "i = 19" by simp
  with 0 show ?case by (subst insert_spaces.simps) auto
next
  case (Suc n)
  then have "4078 - i \<notin> nodes sp" by auto
  from dict.ins [OF Suc.prems(1) this] Suc.prems Suc.hyps(2) obtain sp1 where
    sp1: "InsertNode sp (4078 - i) = ret sp1" "tree_ok sp1" "nodes sp1 \<subseteq> insert (4078 - i) (nodes sp)"
      "text_buf sp1 = text_buf sp" by auto
  have "nodes sp1 \<subseteq> {4078 - (i + 1) <..< 4078}" using sp1(3) Suc.prems(2,3) by fastforce
  moreover have "n = nat (19 - (i + 1))" "i + 1 \<le> 19" using Suc.hyps(2) by simp_all
  ultimately obtain sp' where
    "insert_spaces sp1 4078 (i + 1) = ret sp'" "tree_ok sp'" "nodes sp' \<subseteq> {4059 <..< 4078}" "text_buf sp' = text_buf sp1"
    using Suc.hyps(1) [of "i + 1" sp1] Suc.prems(3) sp1(2) by auto
  with sp1 Suc.hyps(2) Suc.prems show ?case by (subst insert_spaces.simps) auto
qed

lemma spaces_ring: "{4059 <..< 4078} \<subseteq> ring ` {0 - 4078 ..< 0}"
proof
  fix x :: int assume x: "x \<in> {4059 <..< 4078}"
  then have "ring (x - 4078) = x" by (simp add: ring_def)
  with x show "x \<in> ring ` {0 - 4078 ..< 0}" by (intro image_eqI [of _ _ "x - 4078"]) auto
qed

lemma Compress_empty: "Compress room new_sp junk limit src 0 = ret None"
  using reset_code_ok [of junk] by (auto simp: Compress_def read_text.simps)

text \<open>
  \<open>Compress\<close> never leaves an array and returns; it returns a null pointer only for an empty input
  or a buffer below the worst case, and otherwise the encoding of tokens that stand for the input.
\<close>

lemma Compress_ok:
  assumes n: "srclen \<le> length src" "0 < srclen" and xs: "xs = take srclen src"
    and lim: "limit \<le> room \<or> code_bound srclen \<le> room"
  shows "(Compress room new_sp junk limit src srclen = ret None \<and> limit < code_bound srclen) \<or>
    (\<exists>ts. Compress room new_sp junk limit src srclen = ret (Some (encode_tokens ts)) \<and>
       coded ts xs (int srclen))"
proof -
  let ?sp = "InitState new_sp"
  have len: "length xs = srclen" using n xs by simp
  with n have ne: "xs \<noteq> []" by auto
  from reset_code_ok [of junk] obtain cs where cs: "reset_code junk = ret cs" "pending cs []" by blast
  have "window (text_buf ?sp) xs 0 0" by (auto simp: window_zero InitState_def stream_def)
  moreover have "cursor_at (src, srclen) xs 0"
    by (auto simp: cursor_at_def xs n intro!: exI [of _ "drop srclen src"])
  ultimately obtain sp1 len cur where rt: "read_text ?sp 4078 0 (src, srclen) = ret (sp1, len, cur)"
    and sp1: "tree_ok sp1" "nodes sp1 = {}" "window (text_buf sp1) xs 0 len" "cursor_at cur xs len"
      "len < int (length xs) \<longrightarrow> len = 18" "len \<noteq> 0"
    using read_text_ok [OF InitState_ok] ne by metis
  from insert_spaces_ok [OF sp1(1), of 1] sp1(2) obtain sp2 where
    sp2: "insert_spaces sp1 4078 1 = ret sp2" "tree_ok sp2" "nodes sp2 \<subseteq> {4059 <..< 4078}" "text_buf sp2 = text_buf sp1"
    by auto
  have "window (text_buf sp2) xs 0 len" "nodes sp2 \<subseteq> ring ` {0 - 4078 ..< 0}"
    using sp1(3) sp2(3,4) spaces_ring by (simp, blast)
  from dict.ins_window [OF sp2(2) this] obtain sp3 where
    sp3: "InsertNode sp2 4078 = ret sp3" "dict.holds sp3 xs 0 len" "matched (best_match sp3) xs 0 len"
    by (auto simp: ring_def)
  let ?ps = "\<lparr>pos_r = 4078, pos_s = 0, pos_len = len\<rparr>"
  let ?loop = "compress_loop room limit sp3 ?ps cs [] cur"
  have "0 < len" using sp1(3,6) by (simp add: window_def)
  moreover have "pos_at ?ps 0 len" by (simp add: pos_at_def ring_def)
  moreover have "coded ([] @ []) xs 0" by (simp add: coded_def)
  ultimately have "loop_outcome xs limit (compress_loop room limit sp3 ?ps cs (encode_tokens []) cur)"
    using sp3 cs(2) sp1(4,5) lim len
    by (intro compress_loop_ok [where t = 0 and e = len and us = "[]"]) (auto simp: len)
  then have outcome: "loop_outcome xs limit ?loop" by (simp add: encode_tokens.simps)
  have C: "Compress room new_sp junk limit src srclen = seq ?loop (\<lambda>res. case res of None \<Rightarrow> ret None
     | Some oc \<Rightarrow> if 1 < code_buf_ptr (snd oc) then send_code room limit (fst oc) (snd oc) 0 else ret (Some (fst oc)))"
    using sp1(6) by (simp add: Compress_def cs rt sp2 sp3)
  from outcome [unfolded loop_outcome_def] show ?thesis
  proof (elim disjE exE conjE)
    assume "?loop = ret None" "limit < code_bound (length xs)"
    then show ?thesis by (simp add: C len)
  next
    fix ds us cs'
    assume l: "?loop = ret (Some (encode_tokens ds, cs'))" and d: "8 dvd length ds" and p: "pending cs' us" "length us < 8"
      and cd: "coded (ds @ us) xs (int (length xs))"
    show ?thesis
    proof (cases "us = []")
      case True
      with p have "code_buf_ptr cs' = 1" by (simp add: pending_def)
      with l cd True show ?thesis by (intro disjI2 exI [of _ ds]) (simp add: C len)
    next
      case False
      then obtain u us' where "us = u # us'" by (cases us) auto
      then have "units us \<noteq> []" by (simp add: units_def unit_bytes_def split: token.splits)
      with p have "1 < code_buf_ptr cs'" by (simp add: pending_def)
      with l have C': "Compress room new_sp junk limit src srclen = send_code room limit (encode_tokens ds) cs' 0"
        by (simp add: C)
      show ?thesis
        using send_group [OF p(1) False d cd, of limit room] lim coded_size [OF cd] cd
        by (auto simp: C' len)
    qed
  qed
qed

subsection \<open>The encoder\<close>

text \<open>C2: when the room allows it, \<open>Compress\<close> writes the encoding of a list of tokens that expands to the
  input, no longer than nine bytes for every eight of input; otherwise it returns null, and only when the limit is
  below that bound. It never faults and always returns.\<close>

theorem Compress_correct:
  assumes "srclen \<le> length src" "0 < srclen" "limit \<le> room \<or> code_bound srclen \<le> room"
  shows "(Compress room new_sp junk limit src srclen = ret None \<and> limit < code_bound srclen) \<or>
    (\<exists>ts. Compress room new_sp junk limit src srclen = ret (Some (encode_tokens ts)) \<and>
       (\<forall>u \<in> set ts. valid_token u) \<and> expand [] ts = Some (take srclen src) \<and>
       length (encode_tokens ts) \<le> srclen + (srclen + 7) div 8)"
  using Compress_ok [OF assms(1,2) refl assms(3), of new_sp junk]
proof (elim disjE exE conjE)
  fix ts assume ts: "Compress room new_sp junk limit src srclen = ret (Some (encode_tokens ts))"
    "coded ts (take srclen src) (int srclen)"
  have "length (encode_tokens ts) \<le> srclen + (srclen + 7) div 8"
    using coded_size [OF ts(2)] assms(1) by (simp add: code_bound_def min_absorb2)
  with ts show ?thesis by (intro disjI2 exI [of _ ts]) (simp add: coded_def)
qed simp

theorem Compress_correct_witness:
  "(Compress 9 blank_state (\<lambda>i. 0) 9 [1, 2, 1, 2] 4 = ret None \<and> 9 < code_bound 4) \<or>
    (\<exists>ts. Compress 9 blank_state (\<lambda>i. 0) 9 [1, 2, 1, 2] 4 = ret (Some (encode_tokens ts)) \<and>
       (\<forall>u \<in> set ts. valid_token u) \<and> expand [] ts = Some [1, 2, 1, 2] \<and> length (encode_tokens ts) \<le> 4 + (4 + 7) div 8)"
  using Compress_correct [of 4 "[1, 2, 1, 2]" 9 9 blank_state "\<lambda>i. 0"] by simp

end
