(* ===== verification/Lzss_Decoder.thy ===== *)
theory Lzss_Decoder imports Lzss_Tokens begin

text \<open>
  \<open>IMG3_LzssInterface::Decompress\<close> (src/src/compression/IMG3_LzssInterface.cpp) and its
  equivalence, on every input, with parsing the input into tokens and expanding them.
\<close>

subsection \<open>The code\<close>

text \<open>
  \<open>d_buf\<close> is \<open>text_buf\<close>, \<open>d_out\<close> the bytes between \<open>dststart\<close> and \<open>dst\<close>, \<open>d_r\<close> is \<open>r\<close>.
\<close>

record decode_state =
  d_buf :: "int \<Rightarrow> byte"
  d_out :: "byte list"
  d_r :: int

text \<open>\<open>*dst++ = c; text_buf[r++] = c; r &= (N - 1);\<close> with \<open>room\<close> bytes allocated at \<open>dststart\<close>.\<close>

definition put_byte :: "nat \<Rightarrow> decode_state \<Rightarrow> byte \<Rightarrow> decode_state exec" where
  "put_byte room st c =
     (if length (d_out st) < room then
        seq (wr 4113 (d_buf st) (d_r st) c) (\<lambda>buf.
          ret (st\<lparr>d_out := d_out st @ [c], d_buf := buf, d_r := (d_r st + 1) AND 4095\<rparr>))
      else crash OutOfBounds)"

text \<open>\<open>for (k = 0; k <= j; k++) ...\<close>\<close>

function copy_loop :: "nat \<Rightarrow> decode_state \<Rightarrow> int \<Rightarrow> int \<Rightarrow> int \<Rightarrow> decode_state exec" where
  "copy_loop room st i j k =
     (if k \<le> j then
        seq (rd 4113 (d_buf st) ((i + k) AND 4095)) (\<lambda>c.
        seq (put_byte room st c) (\<lambda>st. copy_loop room st i j (k + 1)))
      else ret st)"
  by pat_completeness auto
termination by (relation "measure (\<lambda>(room, st, i, j, k). nat (j + 1 - k))") auto

declare copy_loop.simps [simp del]

partial_function (option) decode_loop ::
    "nat \<Rightarrow> decode_state \<Rightarrow> u32 \<Rightarrow> cursor \<Rightarrow> decode_state exec" where
  "decode_loop room st flags cur =
     seq (if (drop_bit 1 flags) AND 0x100 = 0
          then seq (next_byte cur) (\<lambda>nb.
                 ret (case nb of None \<Rightarrow> None | Some cc \<Rightarrow> Some (ucast (fst cc) OR 0xFF00, snd cc)))
          else ret (Some (drop_bit 1 flags, cur))) (\<lambda>loaded.
     case loaded of None \<Rightarrow> ret st
     | Some fc \<Rightarrow>
       if fst fc AND 1 \<noteq> 0 then
         seq (next_byte (snd fc)) (\<lambda>nb. case nb of None \<Rightarrow> ret st
           | Some cc \<Rightarrow> seq (put_byte room st (fst cc)) (\<lambda>st. decode_loop room st (fst fc) (snd cc)))
       else
         seq (next_byte (snd fc)) (\<lambda>nb. case nb of None \<Rightarrow> ret st
           | Some ic \<Rightarrow> seq (next_byte (snd ic)) (\<lambda>nb. case nb of None \<Rightarrow> ret st
             | Some jc \<Rightarrow>
               seq (copy_loop room st (uint (fst ic) OR push_bit 4 (uint (fst jc) AND 0xF0))
                      ((uint (fst jc) AND 0x0F) + 2) 0)
                 (\<lambda>st. decode_loop room st (fst fc) (snd jc)))))"

text \<open>
  \<open>junk\<close> is what the uninitialised tail of \<open>text_buf\<close> holds. The result is what was written to
  \<open>dst\<close>; its length is the value \<open>Decompress\<close> returns.
\<close>

definition decode_init :: "(int \<Rightarrow> byte) \<Rightarrow> decode_state" where
  "decode_init junk = \<lparr>d_buf = (\<lambda>i. if 0 \<le> i \<and> i < 4078 then 0x20 else junk i), d_out = [], d_r = 4078\<rparr>"

definition Decompress :: "nat \<Rightarrow> (int \<Rightarrow> byte) \<Rightarrow> byte list \<Rightarrow> nat \<Rightarrow> byte list exec" where
  "Decompress room junk src srclen =
     seq (decode_loop room (decode_init junk) 0 (src, srclen)) (\<lambda>st. ret (d_out st))"

subsection \<open>The window\<close>

definition window_ok :: "decode_state \<Rightarrow> bool" where
  "window_ok st \<longleftrightarrow> d_r st = ring (int (length (d_out st))) \<and>
     (\<forall>a. - 4078 \<le> a \<and> int (length (d_out st)) - 4096 \<le> a \<and> a < int (length (d_out st)) \<longrightarrow>
        d_buf st (ring a) = stream (d_out st) a)"

lemma stream_snoc:
  "a < int (length xs) \<Longrightarrow> stream (xs @ [c]) a = stream xs a"
  "stream (xs @ [c]) (int (length xs)) = c"
  by (auto simp: stream_def nth_append)

lemma window_init: "window_ok (decode_init junk)"
  by (auto simp: window_ok_def decode_init_def ring_def stream_def)

lemma put_byte_ok:
  assumes w: "window_ok st" and room: "length (d_out st) < room"
  shows "\<exists>st'. put_byte room st c = ret st' \<and> window_ok st' \<and> d_out st' = d_out st @ [c]"
proof -
  let ?t = "int (length (d_out st))"
  let ?st = "st\<lparr>d_out := d_out st @ [c], d_buf := (d_buf st)(d_r st := c), d_r := (d_r st + 1) AND 4095\<rparr>"
  have r: "d_r st = ring ?t" using w by (simp add: window_ok_def)
  have "put_byte room st c = ret ?st"
    using room ring_range [of ?t] by (simp add: put_byte_def r)
  moreover have "(d_r st + 1) AND 4095 = ring (?t + 1)"
    by (simp add: r mask_nibble ring_add)
  moreover have "((d_buf st)(d_r st := c)) (ring a) = stream (d_out st @ [c]) a"
    if "- 4078 \<le> a" "?t + 1 - 4096 \<le> a" "a < ?t + 1" for a
  proof (cases "a = ?t")
    case True
    then show ?thesis by (simp add: r stream_snoc)
  next
    case False
    with that have "a < ?t" "ring a \<noteq> ring ?t" using ring_eq_iff [of a ?t] by auto
    with that w show ?thesis by (simp add: r stream_snoc window_ok_def)
  qed
  ultimately show ?thesis by (intro exI [of _ ?st]) (auto simp: window_ok_def add.commute)
qed

lemma copy_loop_ok:
  assumes "window_ok st" "- 4078 \<le> a" "int (length (d_out st)) - 4096 \<le> a" "a < int (length (d_out st))"
    and "0 \<le> k" "(i + k) mod 4096 = ring a" "length (d_out st) \<le> room"
  shows "if length (d_out st) + nat (j + 1 - k) \<le> room
         then \<exists>st'. copy_loop room st i j k = ret st' \<and> window_ok st'
                \<and> d_out st' = expand_copy (d_out st) a (nat (j + 1 - k))
         else copy_loop room st i j k = crash OutOfBounds"
  using assms
proof (induction "nat (j + 1 - k)" arbitrary: st a k)
  case 0
  then show ?case by (auto simp: copy_loop.simps)
next
  case (Suc n)
  then have kj: "k \<le> j" and n: "nat (j + 1 - k) = Suc n" "n = nat (j + 1 - (k + 1))" by auto
  let ?c = "d_buf st (ring a)"
  have c: "?c = stream (d_out st) a" using Suc.prems by (simp add: window_ok_def)
  have step: "copy_loop room st i j k =
    seq (put_byte room st ?c) (\<lambda>st. copy_loop room st i j (k + 1))"
    using kj Suc.prems(6) ring_range [of a] by (subst copy_loop.simps) (simp add: mask_nibble)
  show ?case
  proof (cases "length (d_out st) < room")
    case False
    then have "put_byte room st ?c = crash OutOfBounds" by (simp add: put_byte_def)
    with step n False show ?thesis by simp
  next
    case True
    from put_byte_ok [OF Suc.prems(1) True] obtain st' where
      st': "put_byte room st ?c = ret st'" "window_ok st'" "d_out st' = d_out st @ [?c]" by blast
    have "(i + (k + 1)) mod 4096 = ring (a + 1)"
      using Suc.prems(6) ring_add [of a 1] by (metis add.assoc mod_add_left_eq)
    with Suc.hyps(1) [OF n(2), of st' "a + 1"] st' Suc.prems step n c True show ?thesis by auto
  qed
qed

subsection \<open>The flag word\<close>

text \<open>
  \<open>flags_rel w f k\<close>: before the word \<open>w\<close> is shifted, \<open>k\<close> flags of the group are left to be used and
  they are the low bits of \<open>f\<close>. The bits set by \<open>0xFF00\<close> move down and count them.
\<close>

definition flags_rel :: "u32 \<Rightarrow> byte \<Rightarrow> nat \<Rightarrow> bool" where
  "flags_rel w f k \<longleftrightarrow> (k = 0 \<and> \<not> bit w 9) \<or>
     (0 < k \<and> k \<le> 7 \<and> (\<forall>i < k. bit w (i + 1) = bit f i) \<and> (\<forall>n > k. bit w n \<longleftrightarrow> n \<le> k + 8))"

lemma flag_count_test: "(drop_bit 1 w AND 0x100 = 0) \<longleftrightarrow> \<not> bit w 9" for w :: u32
proof -
  have "(0x100 :: u32) = push_bit 8 1" by (simp add: push_bit_eq_mult)
  then have "(drop_bit 1 w AND 0x100 = 0) \<longleftrightarrow> \<not> bit (drop_bit 1 w) 8"
    using and_exp_eq_0_iff_not_bit [of "drop_bit 1 w" 8] by simp
  then show ?thesis by (simp add: bit_drop_bit_eq)
qed

lemma flag_low_test: "(v AND 1 \<noteq> 0) \<longleftrightarrow> bit v 0" for v :: u32
  using and_exp_eq_0_iff_not_bit [of v 0] by simp

lemma flags_rel_shift:
  assumes "flags_rel w f (Suc k)"
  shows "bit w 9" "bit (drop_bit 1 w) 0 = bit f 0" "flags_rel (drop_bit 1 w) (drop_bit 1 f) k"
  using assms by (auto simp: flags_rel_def bit_drop_bit_eq)

lemma flags_rel_load:
  fixes c :: byte
  defines "v \<equiv> ucast c OR 0xFF00 :: u32"
  shows "bit v 0 = bit c 0" "flags_rel v (drop_bit 1 c) 7"
proof -
  have m: "(0xFF00 :: u32) = push_bit 8 (mask 8)"
    by (simp add: push_bit_eq_mult mask_eq_exp_minus_1)
  have b: "bit v n \<longleftrightarrow> (n < 8 \<and> bit c n) \<or> (8 \<le> n \<and> n < 16)" for n
    unfolding v_def m by (auto simp: bit_simps dest: bit_imp_le_length)
  from b [of 0] show "bit v 0 = bit c 0" by simp
  show "flags_rel v (drop_bit 1 c) 7" by (auto simp: flags_rel_def b bit_drop_bit_eq)
qed

subsection \<open>The loop\<close>

definition decode_unit :: "nat \<Rightarrow> decode_state \<Rightarrow> u32 \<Rightarrow> cursor \<Rightarrow> decode_state exec" where
  "decode_unit room st v cur =
     (if v AND 1 \<noteq> 0 then
        seq (next_byte cur) (\<lambda>nb. case nb of None \<Rightarrow> ret st
          | Some cc \<Rightarrow> seq (put_byte room st (fst cc)) (\<lambda>st. decode_loop room st v (snd cc)))
      else
        seq (next_byte cur) (\<lambda>nb. case nb of None \<Rightarrow> ret st
          | Some ic \<Rightarrow> seq (next_byte (snd ic)) (\<lambda>nb. case nb of None \<Rightarrow> ret st
            | Some jc \<Rightarrow>
              seq (copy_loop room st (uint (fst ic) OR push_bit 4 (uint (fst jc) AND 0xF0))
                     ((uint (fst jc) AND 0x0F) + 2) 0)
                (\<lambda>st. decode_loop room st v (snd jc)))))"

lemma ref_args:
  "uint i OR push_bit 4 (uint j AND 0xF0) = ref_pos i j" "(uint j AND 0x0F) + 2 = ref_len j - 1"
  by (simp_all only: ref_pos_def ref_len_def)

lemma decode_unit_ref:
  "decode_unit room st v cur =
     (if v AND 1 \<noteq> 0 then
        seq (next_byte cur) (\<lambda>nb. case nb of None \<Rightarrow> ret st
          | Some cc \<Rightarrow> seq (put_byte room st (fst cc)) (\<lambda>st. decode_loop room st v (snd cc)))
      else
        seq (next_byte cur) (\<lambda>nb. case nb of None \<Rightarrow> ret st
          | Some ic \<Rightarrow> seq (next_byte (snd ic)) (\<lambda>nb. case nb of None \<Rightarrow> ret st
            | Some jc \<Rightarrow>
              seq (copy_loop room st (ref_pos (fst ic) (fst jc)) (ref_len (fst jc) - 1) 0)
                (\<lambda>st. decode_loop room st v (snd jc)))))"
  by (simp only: decode_unit_def ref_args)

lemma decode_loop_cases:
  "bit w 9 \<Longrightarrow> decode_loop room st w cur = decode_unit room st (drop_bit 1 w) cur"
  "\<not> bit w 9 \<Longrightarrow> decode_loop room st w (bs, 0) = ret st"
  "\<not> bit w 9 \<Longrightarrow> decode_loop room st w (c # bs, Suc n) = decode_unit room st (ucast c OR 0xFF00) (bs, n)"
proof -
  note e = decode_loop.simps [of room st w, unfolded flag_count_test]
  note u = decode_unit_def
  show "bit w 9 \<Longrightarrow> decode_loop room st w cur = decode_unit room st (drop_bit 1 w) cur"
    by (simp only: e u if_False if_True not_True_eq_False seq_ret option.case fst_conv snd_conv)
  show "\<not> bit w 9 \<Longrightarrow> decode_loop room st w (bs, 0) = ret st"
    by (simp only: e if_True not_False_eq_True next_byte_simps) simp
  show "\<not> bit w 9 \<Longrightarrow> decode_loop room st w (c # bs, Suc n) = decode_unit room st (ucast c OR 0xFF00) (bs, n)"
    by (simp only: e u if_True not_False_eq_True next_byte_simps seq_ret option.case fst_conv snd_conv)
qed

definition decodes_to :: "nat \<Rightarrow> byte list \<Rightarrow> decode_state exec \<Rightarrow> bool" where
  "decodes_to room res m \<longleftrightarrow>
     (if length res \<le> room then \<exists>st. m = ret st \<and> d_out st = res else m = crash OutOfBounds)"

lemma copy_ok:
  assumes w: "window_ok st" "length (d_out st) \<le> room"
    and a: "- 4078 \<le> origin (int (length (d_out st))) (ref_pos i j)"
  defines "out \<equiv> expand_copy (d_out st) (origin (int (length (d_out st))) (ref_pos i j)) (nat (ref_len j))"
  shows "if length out \<le> room
         then \<exists>st'. copy_loop room st (ref_pos i j) (ref_len j - 1) 0 = ret st' \<and> window_ok st' \<and> d_out st' = out
         else copy_loop room st (ref_pos i j) (ref_len j - 1) 0 = crash OutOfBounds"
proof -
  let ?a = "origin (int (length (d_out st))) (ref_pos i j)"
  have "(ref_pos i j + 0) mod 4096 = ring ?a"
    using ref_pos_range [of i j] by (simp add: ring_origin)
  moreover have "nat (ref_len j - 1 + 1 - 0) = nat (ref_len j)" by simp
  ultimately show ?thesis
    using copy_loop_ok [OF w(1) a origin_range _ _ w(2), of 0 "ref_pos i j" "ref_len j - 1"]
    by (simp only: out_def expand_copy_length) simp
qed

lemma decode_ok:
  assumes "window_ok st" "length (d_out st) \<le> room" "flags_rel w f k" "n \<le> length bs"
    and "expand (d_out st) (parse_tokens f k (take n bs)) = Some res"
  shows "decodes_to room res (decode_loop room st w (bs, n))"
  using assms
proof (induction n arbitrary: st w f k bs rule: less_induct)
  case (less n)
  have unit: "decodes_to room res (decode_unit room st v (bs', m))"
    if m: "m \<le> n" "m \<le> length bs'" and v: "bit v 0 = bit g 0" "flags_rel v (drop_bit 1 g) l"
      and ex: "expand (d_out st) (parse_tokens g (Suc l) (take m bs')) = Some res" for v g l bs' m
  proof (cases "m = 0")
    case True
    with ex less.prems show ?thesis
      by (auto simp: decode_unit_ref decodes_to_def split: if_splits)
  next
    case False
    with m obtain b bs1 m1 where b: "bs' = b # bs1" "m = Suc m1" by (cases bs'; cases m) auto
    show ?thesis
    proof (cases "bit g 0")
      case True
      have ex': "expand (d_out st @ [b]) (parse_tokens (drop_bit 1 g) l (take m1 bs1)) = Some res"
        using ex True b by simp
      have u: "decode_unit room st v (bs', m) = seq (put_byte room st b) (\<lambda>st. decode_loop room st v (bs1, m1))"
        using True v b by (simp add: decode_unit_ref flag_low_test)
      show ?thesis
      proof (cases "length (d_out st) < room")
        case False
        with expand_length [OF ex'] show ?thesis unfolding u by (auto simp: put_byte_def decodes_to_def)
      next
        case True
        from put_byte_ok [OF less.prems(1) True, of b] obtain st' where
          "put_byte room st b = ret st'" "window_ok st'" "d_out st' = d_out st @ [b]" by blast
        with less.IH [of m1 st' v "drop_bit 1 g" l bs1] m b v ex' True
        have "decodes_to room res (decode_loop room st' v (bs1, m1))" by auto
        with \<open>put_byte room st b = ret st'\<close> show ?thesis by (simp only: u seq_ret)
      qed
    next
      case g: False
      show ?thesis
      proof (cases "m1 = 0")
        case True
        with ex less.prems g b v show ?thesis
          by (auto simp: decode_unit_ref flag_low_test decodes_to_def split: if_splits)
      next
        case False
        with m b obtain c bs2 m2 where c: "bs1 = c # bs2" "m1 = Suc m2" by (cases bs1; cases m1) auto
        let ?a = "origin (int (length (d_out st))) (ref_pos b c)"
        let ?out = "expand_copy (d_out st) ?a (nat (ref_len c))"
        have a: "- 4078 \<le> ?a"
          and ex': "expand ?out (parse_tokens (drop_bit 1 g) l (take m2 bs2)) = Some res"
          using ex g b c by (auto simp: Let_def split: if_splits)
        have u: "decode_unit room st v (bs', m) =
            seq (copy_loop room st (ref_pos b c) (ref_len c - 1) 0) (\<lambda>st. decode_loop room st v (bs2, m2))"
          using g v b c by (simp add: decode_unit_ref flag_low_test)
        note cp = copy_ok [OF less.prems(1,2) a]
        show ?thesis
        proof (cases "length ?out \<le> room")
          case False
          with cp expand_length [OF ex'] show ?thesis unfolding u by (auto simp: decodes_to_def)
        next
          case True
          with cp obtain st' where st': "copy_loop room st (ref_pos b c) (ref_len c - 1) 0 = ret st'"
            "window_ok st'" "d_out st' = ?out" by auto
          have "decodes_to room res (decode_loop room st' v (bs2, m2))"
            using m b c v st' ex' True by (intro less.IH [of m2 st' v "drop_bit 1 g" l bs2]) auto
          with st'(1) show ?thesis by (simp only: u seq_ret)
        qed
      qed
    qed
  qed
  show ?case
  proof (cases k)
    case (Suc l)
    note fl = flags_rel_shift [OF less.prems(3) [unfolded Suc]]
    from unit [OF order.refl less.prems(4) fl(2,3)] less.prems(5) show ?thesis
      by (simp add: decode_loop_cases(1) [OF fl(1)] Suc)
  next
    case 0
    with less.prems(3) have w: "\<not> bit w 9" by (simp add: flags_rel_def)
    show ?thesis
    proof (cases "n = 0")
      case True
      with less.prems 0 show ?thesis by (simp add: decode_loop_cases(2) [OF w] decodes_to_def)
    next
      case False
      with less.prems(4) obtain c bs' m where c: "bs = c # bs'" "n = Suc m" by (cases bs; cases n) auto
      have "decodes_to room res (decode_unit room st (ucast c OR 0xFF00) (bs', m))"
        using c less.prems 0 flags_rel_load [of c] by (intro unit [of m bs' _ c 7]) auto
      then show ?thesis by (simp add: decode_loop_cases(3) [OF w] c)
    qed
  qed
qed

text \<open>
  On every input whose references stay inside what was written to the window, the routine computes
  the expansion of the tokens of the input, whatever the uninitialised tail of the window holds.
\<close>

lemma Decompress_expand:
  assumes "n \<le> length src" "expand [] (parse_tokens 0 0 (take n src)) = Some res" "length res \<le> room"
  shows "Decompress room junk src n = ret res"
proof -
  have "decodes_to room res (decode_loop room (decode_init junk) 0 (src, n))"
    using assms by (intro decode_ok [where f = 0 and k = 0] window_init)
      (auto simp: decode_init_def flags_rel_def)
  with assms(3) show ?thesis by (auto simp: decodes_to_def Decompress_def)
qed

lemma Decompress_overflow:
  assumes "n \<le> length src" "expand [] (parse_tokens 0 0 (take n src)) = Some res" "room < length res"
  shows "Decompress room junk src n = crash OutOfBounds"
proof -
  have "decodes_to room res (decode_loop room (decode_init junk) 0 (src, n))"
    using assms by (intro decode_ok [where f = 0 and k = 0] window_init)
      (auto simp: decode_init_def flags_rel_def)
  with assms(3) show ?thesis by (auto simp: decodes_to_def Decompress_def)
qed

subsection \<open>The decoder against the reference expansion\<close>

text \<open>C7: \<open>Decompress\<close> agrees with the reference: the tokens of the input are parsed and expanded; a result that
  fits the output buffer is returned, and one that does not is a write outside that buffer, for which the code has
  no check.\<close>

theorem Decompress_is_expand:
  assumes "n \<le> length src" "expand [] (parse_tokens 0 0 (take n src)) = Some res"
  shows "Decompress room junk src n = (if length res \<le> room then ret res else crash OutOfBounds)"
  using Decompress_expand [OF assms] Decompress_overflow [OF assms] by simp

theorem Decompress_is_expand_witness:
  "Decompress 2 (\<lambda>i. 0) [3, 65, 66] 3 = ret [65, 66] \<and> Decompress 1 (\<lambda>i. 0) [3, 65, 66] 3 = crash OutOfBounds"
proof -
  have "expand [] (parse_tokens 0 0 (take 3 [3, 65, 66])) = Some [65, 66]" by code_simp
  from Decompress_is_expand [OF _ this, of 2 "\<lambda>i. 0"] Decompress_is_expand [OF _ this, of 1 "\<lambda>i. 0"]
  show ?thesis by simp
qed

end
