(* ===== verification/Lzss_Container.thy ===== *)
theory Lzss_Container imports Lzss_Compress Lzss_Decoder begin

text \<open>
  The public methods of \<open>IMG3_LzssInterface\<close> (src/src/compression/IMG3_LzssInterface.cpp): the checksum,
  the 384-byte header, \<open>IsFileCompressed\<close>, \<open>LzssCompress\<close> and \<open>LzssDecompress\<close>; the round trip of
  the two, from the correctness of the encoder and the decoder.
\<close>

subsection \<open>Checksum\<close>

text \<open>\<open>for (k = 0; k < len; k++)\<close> over the bytes of \<open>buf\<close>, with 64-bit sums.\<close>

fun adler_loop :: "byte list \<Rightarrow> u64 \<Rightarrow> u64 \<Rightarrow> u64 \<times> u64" where
  "adler_loop [] s1 s2 = (s1, s2)"
| "adler_loop (b # bs) s1 s2 =
     (let s1 = (s1 + ucast b) mod 65521; s2 = (s2 + s1) mod 65521 in adler_loop bs s1 s2)"

definition lzadler32 :: "byte list \<Rightarrow> int \<Rightarrow> u32 exec" where
  "lzadler32 buf len = seq (slice buf 0 (nat len)) (\<lambda>bs.
     case adler_loop bs 1 0 of (s1, s2) \<Rightarrow> ret (ucast (push_bit 16 s2 OR s1)))"

subsection \<open>Header and entry points\<close>

abbreviation COMP_SIGNATURE :: u32 where "COMP_SIGNATURE \<equiv> 0x636F6D70"
abbreviation LZSS_SIGNATURE :: u32 where "LZSS_SIGNATURE \<equiv> 0x6C7A7373"

text \<open>
  The fields of \<open>IMG3_LzssInterface_CompressionHeader\<close> in the order of the structure; in memory they are
  big-endian, followed by 364 bytes of padding.
\<close>

record lzss_header =
  signature :: u32
  compression_type :: u32
  checksum :: u32
  length_uncompressed :: u32
  length_compressed :: u32

definition header_bytes :: "lzss_header \<Rightarrow> byte list" where
  "header_bytes h = be32_bytes (signature h) @ be32_bytes (compression_type h) @ be32_bytes (checksum h) @
     be32_bytes (length_uncompressed h) @ be32_bytes (length_compressed h) @ replicate 0x16c 0"

definition header_field :: "byte list \<Rightarrow> nat \<Rightarrow> u32 exec" where
  "header_field inbuff i = seq (slice inbuff (4 * i) 4) (\<lambda>bs. ret (be32 bs))"

datatype lzss_error =
    LZSS_NONE
  | LZSS_FILE_IS_NOT_COMPRESSED
  | LZSS_FILE_NOT_A_LZSS_FILE
  | LZSS_COMPRESSION_FAILED
  | LZSS_CHECKSUM_MISMATCH
  | LZSS_INPUT_TOO_SMALL
  | LZSS_INVALID_PARAMETER

text \<open>
  A call answers the return value, the value of \<open>errorCode\<close> after it, and what it stored through
  \<open>outbuff\<close> and \<open>outsize\<close>, if it got that far: the whole allocation and the size. Of the input pointers
  \<open>inbuff\<close> may be null (\<open>None\<close>), \<open>outs\<close> says whether both output pointers are not.
\<close>

record lzss_answer =
  lz_return :: int
  lz_error :: lzss_error
  lz_out :: "(byte list \<times> nat) option"

definition lz_fail :: "lzss_error \<Rightarrow> lzss_answer" where
  "lz_fail e = \<lparr>lz_return = - 1, lz_error = e, lz_out = None\<rparr>"

definition IsFileCompressed :: "byte list option \<Rightarrow> lzss_error \<Rightarrow> (int \<times> lzss_error) exec" where
  "IsFileCompressed inbuff err = (case inbuff of None \<Rightarrow> ret (- 1, LZSS_INVALID_PARAMETER)
     | Some inb \<Rightarrow>
       seq (header_field inb 0) (\<lambda>sig.
       seq (if sig \<noteq> COMP_SIGNATURE
            then seq (header_field inb 1) (\<lambda>typ. ret (typ \<noteq> LZSS_SIGNATURE))
            else ret False) (\<lambda>bad.
       if bad then ret (- 1, LZSS_FILE_NOT_A_LZSS_FILE) else ret (0, err))))"

text \<open>
  \<open>checksum\<close> is only compared in a debug build, which IMG3_defines.h switches off: a mismatch changes
  nothing. \<open>new_out\<close> is the indeterminate contents of the new buffer, \<open>junk\<close> that of the window.
\<close>

definition LzssDecompress ::
    "(nat \<Rightarrow> byte) \<Rightarrow> (int \<Rightarrow> byte) \<Rightarrow> lzss_error \<Rightarrow> byte list option \<Rightarrow> nat \<Rightarrow> bool \<Rightarrow> lzss_answer exec" where
  "LzssDecompress new_out junk err inbuff insize outs =
     (if inbuff = None \<or> \<not> outs then ret (lz_fail LZSS_INVALID_PARAMETER)
      else if insize < 384 then ret (lz_fail LZSS_INPUT_TOO_SMALL)
      else seq (IsFileCompressed inbuff err) (\<lambda>re.
        if fst re = - 1 then ret (lz_fail LZSS_FILE_IS_NOT_COMPRESSED)
        else
          seq (header_field (the inbuff) 3) (\<lambda>un. seq (header_field (the inbuff) 4) (\<lambda>co.
          seq (Decompress (unat un) junk (drop 384 (the inbuff)) (unat co)) (\<lambda>out.
          seq (blit (fresh new_out (unat un)) 0 out) (\<lambda>outbuff.
          seq (lzadler32 outbuff (sint un)) (\<lambda>sum.
          seq (header_field (the inbuff) 2) (\<lambda>expected.
            ret \<lparr>lz_return = 0, lz_error = snd re, lz_out = Some (outbuff, unat un)\<rparr>))))))))"

definition LzssCompress ::
    "(nat \<Rightarrow> byte) \<Rightarrow> encode_state \<Rightarrow> (int \<Rightarrow> byte) \<Rightarrow> lzss_error \<Rightarrow> byte list option \<Rightarrow> u64 \<Rightarrow> bool \<Rightarrow>
     lzss_answer exec" where
  "LzssCompress new_out new_sp junk err inbuff insize outs =
     (if inbuff = None \<or> \<not> outs then ret (lz_fail LZSS_INVALID_PARAMETER)
      else if insize < 384 then ret (lz_fail LZSS_INPUT_TOO_SMALL)
      else
        let outsize = insize * 2 + 384; outbuff = fresh new_out (unat outsize) in
        seq (Compress (unat outsize - 384) new_sp junk (unat (ucast outsize :: u32)) (the inbuff)
               (unat (ucast insize :: u32))) (\<lambda>res.
          case res of
            None \<Rightarrow> ret \<lparr>lz_return = - 1, lz_error = LZSS_COMPRESSION_FAILED, lz_out = Some (outbuff, unat outsize)\<rparr>
          | Some code \<Rightarrow>
              let used = 384 + length code;
                  size = (if used mod 16 \<noteq> 0 then used + (16 - used mod 16) else used) in
              seq (lzadler32 (the inbuff) (sint (ucast insize :: u32))) (\<lambda>sum.
              seq (blit outbuff 384 code) (\<lambda>outbuff.
              seq (blit outbuff 0 (header_bytes
                     \<lparr>signature = COMP_SIGNATURE, compression_type = LZSS_SIGNATURE, checksum = sum,
                      length_uncompressed = ucast insize, length_compressed = word_of_nat (length code)\<rparr>)) (\<lambda>outbuff.
                ret \<lparr>lz_return = 0, lz_error = err, lz_out = Some (outbuff, size)\<rparr>)))))"

subsection \<open>What the checksum is\<close>

text \<open>The two sums of Adler-32, over the integers: of the bytes, and of the partial sums.\<close>

definition adler_a :: "byte list \<Rightarrow> int" where
  "adler_a bs = 1 + (\<Sum>b \<leftarrow> bs. uint b)"

definition adler_b :: "byte list \<Rightarrow> int" where
  "adler_b bs = (\<Sum>i < length bs. adler_a (take (Suc i) bs))"

lemma uint_add_byte: "uint s < 65521 \<Longrightarrow> uint (s + ucast (b :: byte) :: u64) = uint s + uint b"
  using byte_range [of b] uint_ge_0 [of s]
  by (subst uint_plus_if') (auto simp: unsigned_ucast_eq take_bit_eq_mod)

lemma uint_add_sum: "uint s < 65521 \<Longrightarrow> uint t < 65521 \<Longrightarrow> uint (s + t :: u64) = uint s + uint t"
  using uint_ge_0 [of s] uint_ge_0 [of t] by (subst uint_plus_if') auto

lemma adler_loop_spec:
  assumes "uint s1 < 65521" "uint s2 < 65521" "adler_loop bs s1 s2 = (t1, t2)"
  shows "uint t1 = (uint s1 + (\<Sum>b \<leftarrow> bs. uint b)) mod 65521 \<and>
    uint t2 = (uint s2 + (\<Sum>i < length bs. uint s1 + (\<Sum>b \<leftarrow> take (Suc i) bs. uint b))) mod 65521"
  using assms
proof (induction bs arbitrary: s1 s2)
  case Nil
  then have "s1 = t1" "s2 = t2" by simp_all
  moreover have "uint t1 mod 65521 = uint t1" "uint t2 mod 65521 = uint t2"
    using Nil.prems \<open>s1 = t1\<close> \<open>s2 = t2\<close> by (simp_all only: mod_pos_pos_trivial uint_ge_0)
  ultimately show ?case by simp
next
  case (Cons b bs)
  let ?s1 = "(s1 + ucast b) mod 65521" and ?s2 = "(s2 + (s1 + ucast b) mod 65521) mod 65521"
  have u1: "uint ?s1 = (uint s1 + uint b) mod 65521"
    by (simp add: uint_mod uint_add_byte [OF Cons.prems(1)])
  then have l1: "uint ?s1 < 65521" by simp
  have u2: "uint ?s2 = (uint s2 + uint ?s1) mod 65521"
    by (simp add: uint_mod [of _ 65521] uint_add_sum [OF Cons.prems(2) l1])
  then have l2: "uint ?s2 < 65521" by simp
  have "adler_loop bs ?s1 ?s2 = (t1, t2)" using Cons.prems(3) by (simp add: Let_def)
  note IH = Cons.IH [OF l1 l2 this]
  let ?S = "\<lambda>i. \<Sum>b \<leftarrow> take (Suc i) bs. uint b"
  have a: "uint t1 = (uint s1 + uint b + (\<Sum>b \<leftarrow> bs. uint b)) mod 65521"
    using IH by (simp add: u1 mod_simps)
  have "uint t2 = (uint s2 + (uint s1 + uint b) + (\<Sum>i < length bs. uint ?s1 + ?S i)) mod 65521"
    using IH by (simp add: u2 u1 mod_simps)
  also have "\<dots> = (uint s2 + (uint s1 + uint b) + (\<Sum>i < length bs. (uint s1 + uint b) + ?S i)) mod 65521"
  proof -
    have "(\<Sum>i < length bs. uint ?s1 + ?S i) mod 65521 =
        (\<Sum>i < length bs. (uint s1 + uint b) + ?S i) mod 65521"
      by (subst (1 2) mod_sum_eq [symmetric]) (simp add: u1 mod_simps)
    then show ?thesis by (intro mod_add_cong refl)
  qed
  also have "(\<Sum>i < length bs. (uint s1 + uint b) + ?S i) =
      (\<Sum>i < length bs. uint s1 + (\<Sum>b \<leftarrow> take (Suc (Suc i)) (b # bs). uint b))"
    by (simp only: take_Suc_Cons list.map sum_list.Cons add.assoc)
  also have "uint s2 + (uint s1 + uint b) + \<dots> =
      uint s2 + (\<Sum>i < length (b # bs). uint s1 + (\<Sum>b \<leftarrow> take (Suc i) (b # bs). uint b))"
    by (simp add: sum.lessThan_Suc_shift del: sum.lessThan_Suc)
  finally show ?case using a by (simp add: add.assoc)
qed

lemma lzadler32_ok:
  assumes "0 \<le> len" "nat len \<le> length buf"
  shows "\<exists>w. lzadler32 buf len = ret w \<and>
    uint w = (adler_b (take (nat len) buf) mod 65521) * 65536 + adler_a (take (nat len) buf) mod 65521"
proof -
  let ?bs = "take (nat len) buf"
  obtain t1 t2 where l: "adler_loop ?bs 1 0 = (t1, t2)" by force
  from adler_loop_spec [OF _ _ l] have t: "uint t1 = adler_a ?bs mod 65521" "uint t2 = adler_b ?bs mod 65521"
    by (simp_all add: adler_a_def adler_b_def)
  then have r: "uint t1 < 65521" "uint t2 < 65521" by simp_all
  have "uint (push_bit 16 t2) = uint t2 * 65536"
    using r uint_ge_0 [of t2] by (simp add: push_bit_eq_mult uint_word_ariths take_bit_eq_mod mult.commute)
  moreover have "push_bit 16 t2 AND t1 = 0"
  proof (rule bit_eqI)
    fix n
    have "uint t1 < 2 ^ 16" using r by simp
    then have "take_bit 16 (uint t1) = uint t1" using uint_ge_0 [of t1] by (simp add: take_bit_eq_mod)
    then have "n < 16" if "bit t1 n" using that bit_imp_le_length [OF that] bit_take_bit_iff [of 16 "uint t1" n] by (simp add: bit_uint_iff)
    then show "bit (push_bit 16 t2 AND t1) n = bit 0 n" by (auto simp: bit_simps)
  qed
  then have "push_bit 16 t2 OR t1 = push_bit 16 t2 + t1" by (rule disjunctive_add_eq_or [symmetric])
  ultimately have u: "uint (push_bit 16 t2 OR t1) = uint t2 * 65536 + uint t1"
    using r by (simp add: uint_plus_if')
  have "uint (ucast (push_bit 16 t2 OR t1) :: u32) = uint t2 * 65536 + uint t1"
    using r uint_ge_0 [of t1] uint_ge_0 [of t2]
    by (subst unsigned_ucast_eq) (simp only: u take_bit_eq_mod, auto intro!: mod_pos_pos_trivial)
  with l t assms show ?thesis by (simp add: lzadler32_def slice_def)
qed

subsection \<open>Headers\<close>

lemma length_header_bytes [simp]: "length (header_bytes h) = 384"
  by (simp add: header_bytes_def)

lemma header_fields [simp]:
  "header_field (header_bytes h @ bs) 0 = ret (signature h)"
  "header_field (header_bytes h @ bs) (Suc 0) = ret (compression_type h)"
  "header_field (header_bytes h @ bs) 2 = ret (checksum h)"
  "header_field (header_bytes h @ bs) 3 = ret (length_uncompressed h)"
  "header_field (header_bytes h @ bs) 4 = ret (length_compressed h)"
  by (simp_all add: header_field_def slice_def header_bytes_def)

lemma header_field_ok: "4 * i + 4 \<le> length inb \<Longrightarrow> header_field inb i = ret (be32 (take 4 (drop (4 * i) inb)))"
  by (simp add: header_field_def slice_def)

lemma IsFileCompressed_ok:
  assumes "8 \<le> length inb"
  shows "IsFileCompressed (Some inb) err =
    ret (if be32 (take 4 inb) = COMP_SIGNATURE \<or> be32 (take 4 (drop 4 inb)) = LZSS_SIGNATURE
         then (0, err) else (- 1, LZSS_FILE_NOT_A_LZSS_FILE))"
  using assms by (simp add: IsFileCompressed_def header_field_ok)

subsection \<open>Compression\<close>

lemma code_bound_room: "384 \<le> n \<Longrightarrow> code_bound n \<le> 2 * n"
  unfolding code_bound_def by linarith

text \<open>For an input of at least 384 bytes and below 2 GiB the call succeeds.\<close>

lemma LzssCompress_ok:
  assumes x: "384 \<le> length x" "length x < 2 ^ 31 - 192"
  shows "\<exists>ts sum tail size. coded ts x (int (length x)) \<and> lzadler32 x (int (length x)) = ret sum \<and>
    LzssCompress new_out new_sp junk err (Some x) (word_of_nat (length x)) True =
    ret \<lparr>lz_return = 0, lz_error = err, lz_out = Some (header_bytes
        \<lparr>signature = COMP_SIGNATURE, compression_type = LZSS_SIGNATURE, checksum = sum,
         length_uncompressed = word_of_nat (length x), length_compressed = word_of_nat (length (encode_tokens ts))\<rparr>
        @ encode_tokens ts @ tail, size)\<rparr> \<and>
    length (encode_tokens ts) \<le> code_bound (length x) \<and>
    384 + length (encode_tokens ts) \<le> size \<and> size mod 16 = 0 \<and>
    size \<le> 384 + length (encode_tokens ts) + length tail \<and> 384 + length (encode_tokens ts) + length tail = 2 * length x + 384"
proof -
  let ?n = "length x" and ?w = "word_of_nat (length x) :: u64"
  have w: "unat ?w = ?n" using x by (simp add: unat_of_nat)
  have big: "\<not> ?w < 384" using x w by (simp add: word_less_nat_alt)
  have out: "unat (?w * 2 + 384) = 2 * ?n + 384"
  proof -
    have "?w * 2 + 384 = word_of_nat (2 * ?n + 384)" by (simp add: mult.commute)
    then show ?thesis using x by (simp only: unat_of_nat) simp
  qed
  have lim: "unat (ucast (?w * 2 + 384) :: u32) = 2 * ?n + 384"
    using x by (simp only: unsigned_ucast_eq out) (simp add: take_bit_eq_mod)
  have inl: "ucast ?w = (word_of_nat ?n :: u32)" "unat (word_of_nat ?n :: u32) = ?n" "sint (word_of_nat ?n :: u32) = int ?n"
  proof -
    show u: "unat (word_of_nat ?n :: u32) = ?n" using x by (simp add: unat_of_nat)
    show "ucast ?w = (word_of_nat ?n :: u32)"
      unfolding word_unat_eq_iff unsigned_ucast_eq w u using x by (simp add: take_bit_eq_mod)
    show "sint (word_of_nat ?n :: u32) = int ?n"
      using x by (simp add: sint_uint signed_take_bit_int_eq_self uint_nat u)
  qed
  have "x \<noteq> []" using x by auto
  with Compress_ok [of ?n x x "2 * ?n + 384" "2 * ?n" new_sp junk] x code_bound_room [of ?n]
  obtain ts where C: "Compress (2 * ?n) new_sp junk (2 * ?n + 384) x ?n = ret (Some (encode_tokens ts))"
    and ts: "coded ts x (int ?n)" by auto
  let ?code = "encode_tokens ts"
  have len: "length ?code \<le> code_bound ?n" using coded_size [OF ts] .
  from lzadler32_ok [of "int ?n" x] obtain sum where sum: "lzadler32 x (int ?n) = ret sum" by auto
  let ?h = "header_bytes \<lparr>signature = COMP_SIGNATURE, compression_type = LZSS_SIGNATURE, checksum = sum,
         length_uncompressed = word_of_nat ?n, length_compressed = word_of_nat (length ?code)\<rparr>"
  let ?buf = "fresh new_out (2 * ?n + 384)"
  let ?tail = "drop (384 + length ?code) ?buf"
  define size where "size = (let u = 384 + length ?code in if u mod 16 \<noteq> 0 then u + (16 - u mod 16) else u)"
  have room: "384 + length ?code \<le> 2 * ?n + 384" using len code_bound_room [OF x(1)] by simp
  have L: "LzssCompress new_out new_sp junk err (Some x) ?w True =
    ret \<lparr>lz_return = 0, lz_error = err, lz_out = Some (?h @ ?code @ ?tail, size)\<rparr>"
    using big room
    by (simp add: LzssCompress_def Let_def out lim inl C sum size_def blit_def)
  have size: "384 + length ?code \<le> size" "size mod 16 = 0" "size \<le> 384 + length ?code + length ?tail"
  proof -
    let ?u = "384 + length ?code"
    have up: "(u + (16 - u mod 16)) mod 16 = 0" for u :: nat
    proof -
      have "u + (16 - u mod 16) = 16 * (u div 16) + u mod 16 + (16 - u mod 16)" by simp
      also have "\<dots> = 16 * (u div 16) + 16" using mod_less_divisor [of 16 u] by linarith
      finally show ?thesis by simp
    qed
    have "size \<le> ?u + (16 - ?u mod 16)" unfolding size_def Let_def by simp
    then have "size \<le> ?u + 16" by linarith
    moreover have "length ?code + 16 \<le> 2 * ?n" using len x(1) by (simp add: code_bound_def)
    moreover have "length ?tail = 2 * ?n + 384 - ?u" by simp
    ultimately show "size \<le> ?u + length ?tail" by simp
    show "?u \<le> size" unfolding size_def Let_def by (split if_split) linarith
    show "size mod 16 = 0" using up [of ?u] by (simp add: size_def Let_def)
  qed
  show ?thesis using ts sum L len size room by (intro exI [of _ ts] exI [of _ sum] exI [of _ ?tail] exI [of _ size]) simp
qed

subsection \<open>Decompression\<close>

text \<open>
  A file with a recognised header and tokens that expand to what the header announces is decompressed
  to that expansion; the checksum of the header plays no part.
\<close>

lemma LzssDecompress_ok:
  assumes h: "signature h = COMP_SIGNATURE \<or> compression_type h = LZSS_SIGNATURE"
    and n: "384 \<le> insize" "unat (length_compressed h) \<le> length code"
    and ts: "expand [] (parse_tokens 0 0 (take (unat (length_compressed h)) code)) = Some res"
    and len: "length res = unat (length_uncompressed h)"
  shows "LzssDecompress new_out junk err (Some (header_bytes h @ code)) insize True =
    ret \<lparr>lz_return = 0, lz_error = err, lz_out = Some (res, length res)\<rparr>"
proof -
  have d: "Decompress (unat (length_uncompressed h)) junk code (unat (length_compressed h)) = ret res"
    using n(2) ts len by (intro Decompress_expand) auto
  have "nat (sint (length_uncompressed h)) \<le> length res"
  proof -
    have "sint (length_uncompressed h) \<le> uint (length_uncompressed h)"
      unfolding sint_uint signed_take_bit_int_less_eq_self_iff by (rule order_trans [OF _ uint_ge_0]) simp
    then have "nat (sint (length_uncompressed h)) \<le> nat (uint (length_uncompressed h))" by (rule nat_mono)
    then show ?thesis by (simp add: len)
  qed
  then have "\<exists>w. lzadler32 res (sint (length_uncompressed h)) = ret w"
    by (auto simp: lzadler32_def slice_def split: prod.splits)
  with h n(1) d len show ?thesis
    by (auto simp: LzssDecompress_def IsFileCompressed_def blit_def header_fields [unfolded One_nat_def])
qed

lemma LzssDecompress_small:
  "insize < 384 \<Longrightarrow> LzssDecompress new_out junk err (Some inb) insize True = ret (lz_fail LZSS_INPUT_TOO_SMALL)"
  by (simp add: LzssDecompress_def)

lemma LzssDecompress_foreign:
  assumes "384 \<le> insize" "8 \<le> length inb"
    and "be32 (take 4 inb) \<noteq> COMP_SIGNATURE" "be32 (take 4 (drop 4 inb)) \<noteq> LZSS_SIGNATURE"
  shows "LzssDecompress new_out junk err (Some inb) insize True = ret (lz_fail LZSS_FILE_IS_NOT_COMPRESSED)"
  using assms by (simp add: LzssDecompress_def IsFileCompressed_ok)

text \<open>A header that announces less than the tokens yield: the decoder writes past the new buffer.\<close>

lemma LzssDecompress_overflow:
  assumes h: "signature h = COMP_SIGNATURE \<or> compression_type h = LZSS_SIGNATURE"
    and n: "384 \<le> insize" "unat (length_compressed h) \<le> length code"
    and ts: "expand [] (parse_tokens 0 0 (take (unat (length_compressed h)) code)) = Some res"
    and len: "unat (length_uncompressed h) < length res"
  shows "LzssDecompress new_out junk err (Some (header_bytes h @ code)) insize True = crash OutOfBounds"
proof -
  have "Decompress (unat (length_uncompressed h)) junk code (unat (length_compressed h)) = crash OutOfBounds"
    using n(2) ts len by (intro Decompress_overflow)
  with h n(1) show ?thesis by (auto simp: LzssDecompress_def IsFileCompressed_def)
qed

subsection \<open>Round trip\<close>

text \<open>What \<open>LzssCompress\<close> gives is read back wherever it stands in front of other bytes.\<close>

lemma LzssCompress_readable:
  assumes "384 \<le> length x" "length x < 2 ^ 31 - 192"
  shows "\<exists>buf size. LzssCompress new_out new_sp junk err (Some x) (word_of_nat (length x)) True =
      ret \<lparr>lz_return = 0, lz_error = err, lz_out = Some (buf, size)\<rparr> \<and>
    384 \<le> size \<and> size mod 16 = 0 \<and> size \<le> length buf \<and> size \<le> 2 * length x + 384 \<and> be32 (take 4 buf) = COMP_SIGNATURE \<and>
    (\<forall>new_out' junk' err' rest n. 384 \<le> n \<longrightarrow> LzssDecompress new_out' junk' err' (Some (take size buf @ rest)) n True =
      ret \<lparr>lz_return = 0, lz_error = err', lz_out = Some (x, length x)\<rparr>)"
proof -
  from LzssCompress_ok [OF assms, of new_out new_sp junk err] obtain ts sum tail size where
    ts: "coded ts x (int (length x))" and
    L: "LzssCompress new_out new_sp junk err (Some x) (word_of_nat (length x)) True =
      ret \<lparr>lz_return = 0, lz_error = err, lz_out = Some (header_bytes
        \<lparr>signature = COMP_SIGNATURE, compression_type = LZSS_SIGNATURE, checksum = sum,
         length_uncompressed = word_of_nat (length x), length_compressed = word_of_nat (length (encode_tokens ts))\<rparr>
        @ encode_tokens ts @ tail, size)\<rparr>" (is "_ = ret \<lparr>lz_return = 0, lz_error = err, lz_out = Some (header_bytes ?h @ _, size)\<rparr>")
    and len: "length (encode_tokens ts) \<le> code_bound (length x)" "384 + length (encode_tokens ts) \<le> size" "size mod 16 = 0"
      "size \<le> 384 + length (encode_tokens ts) + length tail" "384 + length (encode_tokens ts) + length tail = 2 * length x + 384"
    by (elim exE conjE) (rule that; assumption)
  have small: "code_bound (length x) < 2 ^ 32" using assms code_bound_room [OF assms(1)] by simp
  have c: "unat (length_compressed ?h) = length (encode_tokens ts)"
    using len(1) small by (simp add: unat_of_nat)
  have u: "unat (length_uncompressed ?h) = length x" using assms by (simp add: unat_of_nat)
  have t: "take size (header_bytes ?h @ encode_tokens ts @ tail) @ rest =
      header_bytes ?h @ encode_tokens ts @ take (size - 384 - length (encode_tokens ts)) tail @ rest" for rest
    using len(2) by simp
  have e: "expand [] (parse_tokens 0 0 (encode_tokens ts)) = Some x"
    using ts parse_encode [of ts 0] by (auto simp: coded_def)
  have D: "LzssDecompress new_out' junk' err' (Some (header_bytes ?h @ encode_tokens ts @ rest)) n True =
      ret \<lparr>lz_return = 0, lz_error = err', lz_out = Some (x, length x)\<rparr>" if "384 \<le> n" for new_out' junk' err' rest n
    using that e c u by (intro LzssDecompress_ok) simp_all
  have "be32 (take 4 (header_bytes ?h @ encode_tokens ts @ tail)) = COMP_SIGNATURE"
    by (simp add: header_bytes_def)
  with L D len show ?thesis
    by (intro exI [of _ "header_bytes ?h @ encode_tokens ts @ tail"] exI [of _ size]) (simp add: t)
qed

text \<open>C1: what \<open>LzssCompress\<close> writes, \<open>LzssDecompress\<close> turns back into the input, for inputs of at least 384 bytes
  (the size of the header) whose lengths fit the header fields.\<close>

theorem Lzss_roundtrip:
  assumes "384 \<le> length x" "length x < 2 ^ 31 - 192"
  shows "\<exists>buf size. LzssCompress new_out new_sp junk err (Some x) (word_of_nat (length x)) True =
      ret \<lparr>lz_return = 0, lz_error = err, lz_out = Some (buf, size)\<rparr> \<and>
    LzssDecompress new_out' junk' err' (Some (take size buf)) size True =
      ret \<lparr>lz_return = 0, lz_error = err', lz_out = Some (x, length x)\<rparr>"
  using LzssCompress_readable [OF assms, of new_out new_sp junk err] by (metis append_Nil2)

theorem Lzss_roundtrip_witness:
  "\<exists>buf size. LzssCompress (\<lambda>n. 0) blank_state (\<lambda>i. 0) LZSS_NONE (Some (replicate 400 7)) 400 True =
      ret \<lparr>lz_return = 0, lz_error = LZSS_NONE, lz_out = Some (buf, size)\<rparr> \<and>
    LzssDecompress (\<lambda>n. 0) (\<lambda>i. 0) LZSS_NONE (Some (take size buf)) size True =
      ret \<lparr>lz_return = 0, lz_error = LZSS_NONE, lz_out = Some (replicate 400 7, 400)\<rparr>"
  using Lzss_roundtrip [of "replicate 400 7" "\<lambda>n. 0" blank_state "\<lambda>i. 0" LZSS_NONE "\<lambda>n. 0"
    "\<lambda>i. 0" LZSS_NONE] by simp

text \<open>C21: \<open>lzadler32\<close> computes the Adler-32 checksum: the two sums modulo 65521, in the halves of a 32-bit word,
  without reading outside the buffer and without the sums wrapping.\<close>

theorem lzadler32_spec:
  assumes "0 \<le> len" "nat len \<le> length buf"
  shows "\<exists>w. lzadler32 buf len = ret w \<and>
    uint w = (adler_b (take (nat len) buf) mod 65521) * 65536 + adler_a (take (nat len) buf) mod 65521"
  by (rule lzadler32_ok [OF assms])

theorem lzadler32_spec_witness:
  "\<exists>w. lzadler32 [87, 105, 107, 105] 4 = ret w \<and> uint w = 0x03DA0195"
proof -
  have "adler_a [87, 105, 107, 105] = 405" "adler_b [87, 105, 107, 105] = 986"
    by code_simp+
  then show ?thesis using lzadler32_spec [of 4 "[87, 105, 107, 105]"] by simp
qed

text \<open>C36: a file is taken for a compressed one as soon as one of its first two words is right, not both; any
  other file is reported as not compressed by \<open>LzssDecompress\<close>, and a file shorter than the header as too small.\<close>

theorem LzssDecompress_rejects:
  assumes "8 \<le> length inb"
  shows "(insize < 384 \<longrightarrow> LzssDecompress new_out junk err (Some inb) insize True = ret (lz_fail LZSS_INPUT_TOO_SMALL)) \<and>
    (384 \<le> insize \<longrightarrow> be32 (take 4 inb) \<noteq> COMP_SIGNATURE \<longrightarrow> be32 (take 4 (drop 4 inb)) \<noteq> LZSS_SIGNATURE \<longrightarrow>
      LzssDecompress new_out junk err (Some inb) insize True = ret (lz_fail LZSS_FILE_IS_NOT_COMPRESSED)) \<and>
    (IsFileCompressed (Some inb) err = ret (0, err) \<longleftrightarrow>
      be32 (take 4 inb) = COMP_SIGNATURE \<or> be32 (take 4 (drop 4 inb)) = LZSS_SIGNATURE)"
  using assms LzssDecompress_small [of insize new_out junk err inb] LzssDecompress_foreign [of insize inb new_out junk err]
  by (simp add: IsFileCompressed_ok)

theorem LzssDecompress_rejects_witness:
  "LzssDecompress (\<lambda>n. 0) (\<lambda>i. 0) LZSS_NONE (Some (replicate 400 0)) 400 True = ret (lz_fail LZSS_FILE_IS_NOT_COMPRESSED)"
proof -
  have "be32 (replicate 4 0) \<noteq> COMP_SIGNATURE" "be32 (replicate 4 0) \<noteq> LZSS_SIGNATURE" by code_simp+
  then show ?thesis
    using LzssDecompress_rejects [of "replicate 400 0" 400 "\<lambda>n. 0" "\<lambda>i. 0" LZSS_NONE]
    by simp
qed

end
