(* ===== verification/File_Section.thy ===== *)
theory File_Section imports Prelude begin

text \<open>
  \<open>IMG3_FileSection\<close> (src/src/sections/IMG3_FileSection.cpp and include/IMG3_FileSection.h): one section
  of an img3 file, its header and a copy of its data.
\<close>

subsection \<open>Magic numbers and section types\<close>

abbreviation IMG3_MAGIC :: u32 where "IMG3_MAGIC \<equiv> 0x496D6733"
abbreviation IMG3_DATA_MAGIC :: u32 where "IMG3_DATA_MAGIC \<equiv> 0x44415441"
abbreviation IMG3_VERS_MAGIC :: u32 where "IMG3_VERS_MAGIC \<equiv> 0x56455253"
abbreviation IMG3_SEPO_MAGIC :: u32 where "IMG3_SEPO_MAGIC \<equiv> 0x5345504F"
abbreviation IMG3_SCEP_MAGIC :: u32 where "IMG3_SCEP_MAGIC \<equiv> 0x53434550"
abbreviation IMG3_BORD_MAGIC :: u32 where "IMG3_BORD_MAGIC \<equiv> 0x424F5244"
abbreviation IMG3_BDID_MAGIC :: u32 where "IMG3_BDID_MAGIC \<equiv> 0x42444944"
abbreviation IMG3_SHSH_MAGIC :: u32 where "IMG3_SHSH_MAGIC \<equiv> 0x53485348"
abbreviation IMG3_CERT_MAGIC :: u32 where "IMG3_CERT_MAGIC \<equiv> 0x43455254"
abbreviation IMG3_KBAG_MAGIC :: u32 where "IMG3_KBAG_MAGIC \<equiv> 0x4B424147"
abbreviation IMG3_TYPE_MAGIC :: u32 where "IMG3_TYPE_MAGIC \<equiv> 0x54595045"
abbreviation IMG3_SDOM_MAGIC :: u32 where "IMG3_SDOM_MAGIC \<equiv> 0x53444F4D"
abbreviation IMG3_PROD_MAGIC :: u32 where "IMG3_PROD_MAGIC \<equiv> 0x50524F44"
abbreviation IMG3_CHIP_MAGIC :: u32 where "IMG3_CHIP_MAGIC \<equiv> 0x43484950"
abbreviation IMG3_ECID_MAGIC :: u32 where "IMG3_ECID_MAGIC \<equiv> 0x45434944"

datatype IMG3_SectionType =
    IMG3_BASE | IMG3_CERT | IMG3_DATA | IMG3_KBAG | IMG3_SEPO | IMG3_SHSH | IMG3_TYPE | IMG3_SDOM
  | IMG3_PROD | IMG3_CHIP | IMG3_ECID | IMG3_VERS | IMG3_SCEP | IMG3_BORD | IMG3_BDID | IMG3_UNKNOWN

text \<open>The case labels that \<open>ParseSection\<close> and \<open>ParseFile\<close> share, those with a data portion.\<close>

definition plain_magics :: "u32 list" where
  "plain_magics = [IMG3_VERS_MAGIC, IMG3_SEPO_MAGIC, IMG3_SCEP_MAGIC, IMG3_BORD_MAGIC, IMG3_BDID_MAGIC,
     IMG3_SHSH_MAGIC, IMG3_CERT_MAGIC, IMG3_KBAG_MAGIC, IMG3_TYPE_MAGIC, IMG3_SDOM_MAGIC, IMG3_PROD_MAGIC,
     IMG3_CHIP_MAGIC, IMG3_ECID_MAGIC]"

definition section_type :: "u32 \<Rightarrow> IMG3_SectionType" where
  "section_type m =
     (if m = IMG3_MAGIC then IMG3_BASE
      else if m = IMG3_DATA_MAGIC then IMG3_DATA
      else if m = IMG3_VERS_MAGIC then IMG3_VERS
      else if m = IMG3_SEPO_MAGIC then IMG3_SEPO
      else if m = IMG3_SCEP_MAGIC then IMG3_SCEP
      else if m = IMG3_BORD_MAGIC then IMG3_BORD
      else if m = IMG3_BDID_MAGIC then IMG3_BDID
      else if m = IMG3_SHSH_MAGIC then IMG3_SHSH
      else if m = IMG3_CERT_MAGIC then IMG3_CERT
      else if m = IMG3_KBAG_MAGIC then IMG3_KBAG
      else if m = IMG3_TYPE_MAGIC then IMG3_TYPE
      else if m = IMG3_SDOM_MAGIC then IMG3_SDOM
      else if m = IMG3_PROD_MAGIC then IMG3_PROD
      else if m = IMG3_CHIP_MAGIC then IMG3_CHIP
      else if m = IMG3_ECID_MAGIC then IMG3_ECID
      else IMG3_UNKNOWN)"

subsection \<open>The object\<close>

text \<open>\<open>original\<close> points into the file and \<open>data\<close> to a copy of the data portion, or is null.\<close>

record file_section =
  magic :: u32
  totalLength :: u32
  dataLength :: u32
  data :: "byte list option"
  original :: "nat option"

definition new_section :: file_section where
  "new_section = \<lparr>magic = 0, totalLength = 0, dataLength = 0, data = None, original = None\<rparr>"

definition GetSectionType :: "file_section \<Rightarrow> IMG3_SectionType" where
  "GetSectionType sec = section_type (magic sec)"

definition GetSectionTotalLength :: "file_section \<Rightarrow> u32" where
  "GetSectionTotalLength sec = totalLength sec"

definition GetSectionHeaderLength :: "file_section \<Rightarrow> u32" where
  "GetSectionHeaderLength sec = totalLength sec - dataLength sec"

definition GetSectionDataLength :: "file_section \<Rightarrow> u32" where
  "GetSectionDataLength sec = dataLength sec"

definition GetSectionData :: "file_section \<Rightarrow> byte list option" where
  "GetSectionData sec = data sec"

subsection \<open>Operations\<close>

definition word_at :: "byte list \<Rightarrow> nat \<Rightarrow> u32 exec" where
  "word_at mem i = seq (slice mem i 4) (\<lambda>bs. ret (le32 bs))"

text \<open>
  \<open>mem\<close> is the readable memory of the mapped file, \<open>at\<close> the offset of \<open>section\<close> in it. \<open>malloc_ok\<close> is
  whether an allocation of that size succeeds.
\<close>

definition copy_data :: "(nat \<Rightarrow> bool) \<Rightarrow> byte list \<Rightarrow> nat \<Rightarrow> u32 \<Rightarrow> file_section \<Rightarrow> (int \<times> file_section) exec" where
  "copy_data malloc_ok mem at dataOffset sec =
     (if dataLength sec \<noteq> 0 then
        (if malloc_ok (unat (dataLength sec)) then
           seq (slice mem (at + unat dataOffset) (unat (dataLength sec))) (\<lambda>bs. ret (0, sec\<lparr>data := Some bs\<rparr>))
         else ret (- 1, sec\<lparr>data := None\<rparr>))
      else ret (0, sec\<lparr>data := None\<rparr>))"

definition ParseSection :: "(nat \<Rightarrow> bool) \<Rightarrow> byte list \<Rightarrow> nat \<Rightarrow> file_section \<Rightarrow> (int \<times> file_section) exec" where
  "ParseSection malloc_ok mem at sec =
     seq (word_at mem at) (\<lambda>m.
       if m \<in> set (IMG3_MAGIC # IMG3_DATA_MAGIC # plain_magics) then
         seq (word_at mem (at + 4)) (\<lambda>total. seq (word_at mem (at + 8)) (\<lambda>len.
           let sec = sec\<lparr>magic := m, totalLength := total, dataLength := len, original := Some at\<rparr> in
           if m = IMG3_MAGIC then ret (0, sec\<lparr>data := None\<rparr>)
           else if m = IMG3_DATA_MAGIC then copy_data malloc_ok mem at 12 sec
           else copy_data malloc_ok mem at (total - len) sec))
       else ret (- 1, sec\<lparr>data := None\<rparr>))"

text \<open>
  The argument \<open>newData\<close>: a null pointer, a buffer of its own, or a pointer to the data of the section itself, as \<open>GetSectionData\<close> gives
  it when there are any (for a section without data it gives a null pointer). The old data is freed before the new is allocated and copied.
\<close>

datatype source = NullSource | Separate "byte list" | OwnData

definition source_of :: "byte list option \<Rightarrow> source" where
  "source_of dat = (case dat of None \<Rightarrow> NullSource | Some bs \<Rightarrow> Separate bs)"

definition WriteData :: "(nat \<Rightarrow> bool) \<Rightarrow> file_section \<Rightarrow> source \<Rightarrow> nat \<Rightarrow> (int \<times> file_section) exec" where
  "WriteData malloc_ok sec newData len =
     (if newData = NullSource \<or> len = 0 then ret (- 1, sec)
      else if malloc_ok len then
        seq (case newData of NullSource \<Rightarrow> crash NullDeref | Separate bs \<Rightarrow> slice bs 0 len | OwnData \<Rightarrow> crash Dangling) (\<lambda>copy.
          ret (0, sec\<lparr>data := Some copy\<rparr>))
      else ret (- 1, sec\<lparr>data := None\<rparr>))"

subsection \<open>Faults\<close>

text \<open>Parsing a section faults only by reading outside the memory.\<close>

lemma word_at_faults: "word_at mem i = crash f \<Longrightarrow> f = OutOfBounds"
  by (auto simp: word_at_def slice_def split: if_splits)

lemma copy_data_faults: "copy_data malloc_ok mem at d sec = crash f \<Longrightarrow> f = OutOfBounds"
  by (auto simp: copy_data_def slice_def split: if_splits)

lemma ParseSection_faults: "ParseSection malloc_ok mem at sec = crash f \<Longrightarrow> f = OutOfBounds"
  unfolding ParseSection_def by (auto simp: seq_eq_crash Let_def dest: word_at_faults copy_data_faults split: if_splits)

lemma WriteData_faults: "WriteData malloc_ok sec dat len = crash f \<Longrightarrow> f = (if dat = OwnData then Dangling else OutOfBounds)"
  by (auto simp: WriteData_def slice_def split: source.splits if_splits)

text \<open>The data of the section itself has been freed when it is copied.\<close>

lemma WriteData_own: "0 < len \<Longrightarrow> malloc_ok len \<Longrightarrow> WriteData malloc_ok sec OwnData len = crash Dangling"
  by (simp add: WriteData_def)

lemma source_of_simps [simp]: "source_of None = NullSource" "source_of (Some bs) = Separate bs" "source_of dat \<noteq> OwnData"
  "source_of dat = NullSource \<longleftrightarrow> dat = None"
  by (auto simp: source_of_def split: option.split)

subsection \<open>The serialised form\<close>

text \<open>
  A section as the code reads it: the data of a DATA section follows the twelve bytes of the header, that
  of any other section ends where the section ends.
\<close>

definition header_of :: "u32 \<Rightarrow> nat \<Rightarrow> nat \<Rightarrow> byte list" where
  "header_of m tot len = le32_bytes m @ le32_bytes (word_of_nat tot) @ le32_bytes (word_of_nat len)"

definition section_bytes :: "u32 \<Rightarrow> byte list \<Rightarrow> byte list \<Rightarrow> byte list" where
  "section_bytes m dat fill = header_of m (12 + length dat + length fill) (length dat) @
     (if m = IMG3_DATA_MAGIC then dat @ fill else fill @ dat)"

definition parsed_section :: "u32 \<Rightarrow> byte list \<Rightarrow> byte list \<Rightarrow> nat \<Rightarrow> file_section" where
  "parsed_section m dat fill at = \<lparr>magic = m, totalLength = word_of_nat (12 + length dat + length fill),
     dataLength = word_of_nat (length dat), data = (if dat = [] then None else Some dat), original = Some at\<rparr>"

lemma length_section_bytes [simp]: "length (section_bytes m dat fill) = 12 + length dat + length fill"
  by (simp add: section_bytes_def header_of_def)

lemma word_at_append [simp]:
  "word_at (pre @ le32_bytes w @ post) (length pre) = ret w"
  by (simp add: word_at_def slice_def)

lemma word_at_header:
  "word_at (pre @ header_of m tot len @ post) (length pre) = ret m"
  "word_at (pre @ header_of m tot len @ post) (length pre + 4) = ret (word_of_nat tot)"
  "word_at (pre @ header_of m tot len @ post) (length pre + 8) = ret (word_of_nat len)"
  by (simp_all add: word_at_def slice_def header_of_def)

lemma section_magics_distinct:
  "IMG3_MAGIC \<notin> set (IMG3_DATA_MAGIC # plain_magics)" "IMG3_DATA_MAGIC \<notin> set plain_magics"
  by (simp_all add: plain_magics_def)

lemma ParseSection_ok:
  assumes m: "m \<in> set (IMG3_DATA_MAGIC # plain_magics)" and len: "12 + length dat + length fill < 2 ^ 32"
    and malloc: "malloc_ok (length dat)"
  shows "ParseSection malloc_ok (pre @ section_bytes m dat fill @ post) (length pre) sec =
    ret (0, parsed_section m dat fill (length pre))"
proof -
  let ?total = "12 + length dat + length fill"
  let ?body = "if m = IMG3_DATA_MAGIC then dat @ fill else fill @ dat"
  let ?mem = "pre @ section_bytes m dat fill @ post"
  have mem: "?mem = pre @ header_of m ?total (length dat) @ ?body @ post" by (simp add: section_bytes_def)
  have l: "unat (word_of_nat (length dat) :: u32) = length dat" using len by (simp add: unat_of_nat)
  have "(word_of_nat ?total :: u32) - word_of_nat (length dat) = word_of_nat (12 + length fill)" by simp
  then have o: "unat ((word_of_nat ?total :: u32) - word_of_nat (length dat)) = 12 + length fill"
    using len by (simp only: unat_of_nat) simp
  have z: "(word_of_nat (length dat) :: u32) = 0 \<longleftrightarrow> dat = []" using l by (simp add: word_unat_eq_iff)
  define mm where "mm = pre @ section_bytes m dat fill @ post"
  have d: "slice mm (length pre + 12) (length dat) = ret dat" if "m = IMG3_DATA_MAGIC"
    using that by (simp add: mm_def slice_def section_bytes_def header_of_def)
  have p: "slice mm (length pre + (12 + length fill)) (length dat) = ret dat" if "m \<noteq> IMG3_DATA_MAGIC"
    using that by (simp add: mm_def slice_def section_bytes_def header_of_def)
  have w: "word_at mm (length pre) = ret m" "word_at mm (length pre + 4) = ret (word_of_nat ?total)"
    "word_at mm (length pre + 8) = ret (word_of_nat (length dat))"
    unfolding mm_def mem by (rule word_at_header)+
  have nm: "m \<noteq> IMG3_MAGIC" "m \<in> set (IMG3_MAGIC # IMG3_DATA_MAGIC # plain_magics)"
    using m section_magics_distinct by auto
  have "ParseSection malloc_ok mm (length pre) sec = ret (0, parsed_section m dat fill (length pre))"
  proof (cases "m = IMG3_DATA_MAGIC")
    case True
    then show ?thesis
      using nm d malloc by (simp add: ParseSection_def w copy_data_def l z parsed_section_def del: of_nat_add)
  next
    case False
    then show ?thesis
      using nm p malloc by (simp add: ParseSection_def w copy_data_def l o z parsed_section_def del: of_nat_add)
  qed
  then show ?thesis by (simp add: mm_def)
qed

lemma ParseSection_base:
  "ParseSection malloc_ok (pre @ header_of IMG3_MAGIC tot len @ post) (length pre) sec =
    ret (0, \<lparr>magic = IMG3_MAGIC, totalLength = word_of_nat tot, dataLength = word_of_nat len, data = None,
      original = Some (length pre)\<rparr>)"
  by (simp add: ParseSection_def word_at_header)

end
