(* ===== verification/Heap.thy ===== *)
theory Heap imports Prelude begin

text \<open>
  Objects behind pointers: \<open>new\<close>, access and \<open>delete\<close>, with a fault for a null or released pointer. The
  classes that keep lists of pointers (IMG3_FileInterface, IMG3_ZipInterface, IMG3_HtmlParser) share it. The
  locale \<open>object_store\<close> is what they rely on; the lemmas on lists of pointers are proved in it.
\<close>

record 'a heap =
  h_next :: nat
  h_obj :: "nat \<Rightarrow> 'a option"

definition empty_heap :: "'a heap" where
  "empty_heap = \<lparr>h_next = 1, h_obj = (\<lambda>p. None)\<rparr>"

definition h_new :: "'a heap \<Rightarrow> 'a \<Rightarrow> nat \<times> 'a heap" where
  "h_new h x = (h_next h, h\<lparr>h_next := h_next h + 1, h_obj := (h_obj h)(h_next h := Some x)\<rparr>)"

definition h_get :: "'a heap \<Rightarrow> nat \<Rightarrow> 'a exec" where
  "h_get h p = (if p = 0 then crash NullDeref else
     case h_obj h p of None \<Rightarrow> crash Dangling | Some x \<Rightarrow> ret x)"

definition h_put :: "'a heap \<Rightarrow> nat \<Rightarrow> 'a \<Rightarrow> 'a heap exec" where
  "h_put h p x = seq (h_get h p) (\<lambda>old. ret (h\<lparr>h_obj := (h_obj h)(p := Some x)\<rparr>))"

text \<open>\<open>if (p != NULL) delete(p);\<close>\<close>

definition h_delete :: "'a heap \<Rightarrow> nat \<Rightarrow> 'a heap exec" where
  "h_delete h p = (if p = 0 then ret h else
     seq (h_get h p) (\<lambda>old. ret (h\<lparr>h_obj := (h_obj h)(p := None)\<rparr>)))"

fun h_delete_all :: "'a heap \<Rightarrow> nat list \<Rightarrow> 'a heap exec" where
  "h_delete_all h [] = ret h"
| "h_delete_all h (p # ps) = seq (h_delete h p) (\<lambda>h. h_delete_all h ps)"

definition heap_ok :: "'a heap \<Rightarrow> bool" where
  "heap_ok h \<longleftrightarrow> 0 < h_next h \<and> (\<forall>p. h_obj h p \<noteq> None \<longrightarrow> 0 < p \<and> p < h_next h)"

definition live :: "'a heap \<Rightarrow> nat set" where
  "live h = {p. h_obj h p \<noteq> None}"

subsection \<open>The interface\<close>

locale object_store =
  fixes new :: "'h \<Rightarrow> 'a \<Rightarrow> nat \<times> 'h"
    and get :: "'h \<Rightarrow> nat \<Rightarrow> 'a exec"
    and put :: "'h \<Rightarrow> nat \<Rightarrow> 'a \<Rightarrow> 'h exec"
    and del :: "'h \<Rightarrow> nat \<Rightarrow> 'h exec"
    and alive :: "'h \<Rightarrow> nat set"
    and good :: "'h \<Rightarrow> bool"
  assumes new: "good h \<Longrightarrow> new h x = (p, h') \<Longrightarrow>
      good h' \<and> p \<notin> alive h \<and> p \<noteq> 0 \<and> alive h' = insert p (alive h) \<and> get h' p = ret x \<and>
      (\<forall>q. q \<noteq> p \<longrightarrow> get h' q = get h q)"
    and get_alive: "good h \<Longrightarrow> p \<in> alive h \<Longrightarrow> \<exists>x. get h p = ret x"
    and put: "good h \<Longrightarrow> p \<in> alive h \<Longrightarrow> \<exists>h'. put h p x = ret h' \<and> good h' \<and> alive h' = alive h \<and>
      get h' p = ret x \<and> (\<forall>q. q \<noteq> p \<longrightarrow> get h' q = get h q)"
    and del: "good h \<Longrightarrow> p \<in> alive h \<Longrightarrow> \<exists>h'. del h p = ret h' \<and> good h' \<and> alive h' = alive h - {p} \<and>
      (\<forall>q. q \<noteq> p \<longrightarrow> get h' q = get h q)"
begin

fun del_list :: "'h \<Rightarrow> nat list \<Rightarrow> 'h exec" where
  "del_list h [] = ret h"
| "del_list h (p # ps) = seq (del h p) (\<lambda>h. del_list h ps)"

text \<open>Deleting distinct live objects succeeds and leaves the others alone.\<close>

lemma del_list_ok:
  assumes "good h" "distinct ps" "set ps \<subseteq> alive h"
  shows "\<exists>h'. del_list h ps = ret h' \<and> good h' \<and> alive h' = alive h - set ps \<and>
    (\<forall>q. q \<notin> set ps \<longrightarrow> get h' q = get h q)"
  using assms
proof (induction ps arbitrary: h)
  case (Cons p ps)
  then have "p \<in> alive h" by simp
  from del [OF Cons.prems(1) this] obtain h1 where h1: "del h p = ret h1" "good h1" "alive h1 = alive h - {p}"
    "\<forall>q. q \<noteq> p \<longrightarrow> get h1 q = get h q" by blast
  then have "set ps \<subseteq> alive h1" using Cons.prems(2,3) by auto
  with Cons.IH [OF h1(2)] Cons.prems(2) obtain h2 where h2: "del_list h1 ps = ret h2" "good h2"
    "alive h2 = alive h1 - set ps" "\<forall>q. q \<notin> set ps \<longrightarrow> get h2 q = get h1 q" by auto
  have "alive h2 = alive h - set (p # ps)" using h1(3) h2(3) by auto
  with h1 h2 show ?case by auto
qed simp

text \<open>Deleting the same object twice does not.\<close>

lemma new_get_other: "good h \<Longrightarrow> new h x = (p, h') \<Longrightarrow> q \<in> alive h \<Longrightarrow> get h' q = get h q"
  using new [of h x p h'] by auto

end

lemma live_get: "heap_ok h \<Longrightarrow> p \<in> live h \<longleftrightarrow> (\<exists>x. h_get h p = ret x)"
  by (auto simp: live_def h_get_def heap_ok_def split: option.splits)

interpretation heap: object_store h_new h_get h_put h_delete live heap_ok
proof (unfold_locales, goal_cases)
  case (1 h x p h')
  then show ?case by (fastforce simp: h_new_def heap_ok_def live_def h_get_def less_Suc_eq split: if_splits)
next
  case (2 h p)
  then show ?case by (simp add: live_get)
next
  case (3 h p x)
  then show ?case by (auto simp: h_put_def h_get_def live_def heap_ok_def)
next
  case (4 h p)
  then show ?case by (auto simp: h_delete_def h_get_def live_def heap_ok_def)
qed

lemma h_delete_all_del_list: "h_delete_all h ps = heap.del_list h ps"
  by (induction ps arbitrary: h) simp_all

lemma h_delete_all_ok:
  assumes "heap_ok h" "distinct ps" "set ps \<subseteq> live h"
  shows "\<exists>h'. h_delete_all h ps = ret h' \<and> heap_ok h' \<and> live h' = live h - set ps \<and>
    (\<forall>q. q \<notin> set ps \<longrightarrow> h_get h' q = h_get h q)"
  unfolding h_delete_all_del_list by (rule heap.del_list_ok [OF assms])

lemma h_delete_twice: "p \<noteq> 0 \<Longrightarrow> h_delete_all h [p, p] = crash Dangling"
  by (auto simp: h_delete_def h_get_def split: option.splits)

lemma heap_ok_empty [simp]: "heap_ok empty_heap" "live empty_heap = {}"
  by (simp_all add: heap_ok_def empty_heap_def live_def)

end
