(* ===== verification/File_Interface.thy ===== *)
theory File_Interface imports File_Section Heap History begin

text \<open>
  \<open>IMG3_FileInterface\<close> (src/src/sections/IMG3_FileInterface.cpp): the list of the sections of an img3 file,
  as pointers to \<open>IMG3_FileSection\<close> objects. \<open>ParseFile\<close> fills it; the other methods look sections up and
  replace their data.
\<close>

subsection \<open>State\<close>

datatype file_error = FILE_NONE | FILE_INVALID_DATA | FILE_INVALID_FORMAT | FILE_LENGTHS_DIFFER

record file_iface =
  fi_heap :: "file_section heap"
  sections :: "nat list"
  fi_error :: file_error

definition new_file_iface :: file_iface where
  "new_file_iface = \<lparr>fi_heap = empty_heap, sections = [], fi_error = FILE_NONE\<rparr>"

subsection \<open>Operations\<close>

definition delete_sections :: "file_iface \<Rightarrow> file_iface exec" where
  "delete_sections fi = seq (h_delete_all (fi_heap fi) (sections fi)) (\<lambda>h.
     ret (fi\<lparr>fi_heap := h, sections := []\<rparr>))"

definition alloc_section :: "file_iface \<Rightarrow> nat \<times> file_iface" where
  "alloc_section fi = (case h_new (fi_heap fi) new_section of (p, h) \<Rightarrow> (p, fi\<lparr>fi_heap := h\<rparr>))"

text \<open>\<open>newSection->ParseSection(fileData + at)\<close> on the object behind \<open>p\<close>.\<close>

definition parse_into :: "(nat \<Rightarrow> bool) \<Rightarrow> byte list \<Rightarrow> nat \<Rightarrow> nat \<Rightarrow> file_iface \<Rightarrow> (int \<times> file_section \<times> file_iface) exec" where
  "parse_into malloc_ok mem at p fi =
     seq (h_get (fi_heap fi) p) (\<lambda>sec. seq (ParseSection malloc_ok mem at sec) (\<lambda>rs.
     seq (h_put (fi_heap fi) p (snd rs)) (\<lambda>h. ret (fst rs, snd rs, fi\<lparr>fi_heap := h\<rparr>))))"

definition is_tag :: "u32 \<Rightarrow> bool" where
  "is_tag m \<longleftrightarrow> m \<in> set (IMG3_DATA_MAGIC # plain_magics)"

text \<open>The \<open>while\<close> loop of \<open>ParseFile\<close>, with the 32-bit offset \<open>currOffset\<close>.\<close>

partial_function (option) parse_loop ::
    "(nat \<Rightarrow> bool) \<Rightarrow> byte list \<Rightarrow> u32 \<Rightarrow> u32 \<Rightarrow> file_iface \<Rightarrow> (int \<times> file_iface) exec" where
  "parse_loop malloc_ok mem totalImg3Length currOffset fi =
     (if currOffset < totalImg3Length then
        seq (word_at mem (unat currOffset)) (\<lambda>magicNumber.
          if is_tag magicNumber then
            seq (parse_into malloc_ok mem (unat currOffset) (fst (alloc_section fi)) (snd (alloc_section fi))) (\<lambda>r.
              if fst r \<noteq> 0 then ret (- 1, snd (snd r))
              else parse_loop malloc_ok mem totalImg3Length (currOffset + GetSectionTotalLength (fst (snd r)))
                     ((snd (snd r))\<lparr>sections := sections (snd (snd r)) @ [fst (alloc_section fi)]\<rparr>))
          else parse_loop malloc_ok mem totalImg3Length (currOffset + 1) fi)
      else ret (0, fi))"

text \<open>The label \<open>PARSEFILE_PARSE_ERROR\<close>.\<close>

definition parse_error :: "nat \<Rightarrow> file_error \<Rightarrow> file_iface \<Rightarrow> (int \<times> file_iface) exec" where
  "parse_error p e fi = seq (h_delete (fi_heap fi) p) (\<lambda>h. ret (- 1, fi\<lparr>fi_heap := h, fi_error := e\<rparr>))"

definition ParseFile :: "(nat \<Rightarrow> bool) \<Rightarrow> byte list option \<Rightarrow> u32 \<Rightarrow> file_iface \<Rightarrow> (int \<times> file_iface) exec" where
  "ParseFile malloc_ok fileData fileLength fi0 = (case fileData of None \<Rightarrow> ret (- 1, fi0)
     | Some mem \<Rightarrow>
       if fileLength = 0 then ret (- 1, fi0)
       else
         seq (delete_sections fi0) (\<lambda>fi1. let p = fst (alloc_section fi1) in
         seq (parse_into malloc_ok mem 0 p (snd (alloc_section fi1))) (\<lambda>r. case r of (rc, sec, fi) \<Rightarrow>
           if rc \<noteq> 0 then parse_error p FILE_INVALID_DATA fi
           else if GetSectionType sec \<noteq> IMG3_BASE then parse_error p FILE_INVALID_FORMAT fi
           else if GetSectionTotalLength sec \<noteq> fileLength then parse_error p FILE_LENGTHS_DIFFER fi
           else parse_loop malloc_ok mem (GetSectionTotalLength sec) (GetSectionHeaderLength sec)
                  (fi\<lparr>sections := sections fi @ [p]\<rparr>))))"

fun find_sections :: "file_section heap \<Rightarrow> IMG3_SectionType \<Rightarrow> nat list \<Rightarrow> nat list exec" where
  "find_sections h k [] = ret []"
| "find_sections h k (p # ps) = seq (h_get h p) (\<lambda>sec. seq (find_sections h k ps) (\<lambda>qs.
     ret (if GetSectionType sec = k then p # qs else qs)))"

definition GetSection :: "file_iface \<Rightarrow> IMG3_SectionType \<Rightarrow> nat list exec" where
  "GetSection fi k = find_sections (fi_heap fi) k (sections fi)"

fun first_section :: "file_section heap \<Rightarrow> IMG3_SectionType \<Rightarrow> nat list \<Rightarrow> file_section option exec" where
  "first_section h k [] = ret None"
| "first_section h k (p # ps) = seq (h_get h p) (\<lambda>sec.
     if GetSectionType sec = k then ret (Some sec) else first_section h k ps)"

text \<open>The two methods of the same names as those of a section take the type as argument.\<close>

definition FileGetSectionData :: "file_iface \<Rightarrow> IMG3_SectionType \<Rightarrow> byte list option exec" where
  "FileGetSectionData fi k = seq (first_section (fi_heap fi) k (sections fi)) (\<lambda>s.
     ret (case s of None \<Rightarrow> None | Some sec \<Rightarrow> File_Section.GetSectionData sec))"

definition FileGetSectionDataLength :: "file_iface \<Rightarrow> IMG3_SectionType \<Rightarrow> u32 exec" where
  "FileGetSectionDataLength fi k = seq (first_section (fi_heap fi) k (sections fi)) (\<lambda>s.
     ret (case s of None \<Rightarrow> 0 | Some sec \<Rightarrow> File_Section.GetSectionDataLength sec))"

definition WriteSectionData ::
    "(nat \<Rightarrow> bool) \<Rightarrow> file_iface \<Rightarrow> nat \<Rightarrow> source \<Rightarrow> nat \<Rightarrow> (int \<times> file_iface) exec" where
  "WriteSectionData malloc_ok fi section dat len =
     (if dat = NullSource \<or> len = 0 then ret (- 1, fi)
      else if section \<notin> set (sections fi) then ret (- 1, fi)
      else seq (h_get (fi_heap fi) section) (\<lambda>sec. seq (WriteData malloc_ok sec dat len) (\<lambda>rs.
           seq (h_put (fi_heap fi) section (snd rs)) (\<lambda>h. ret (0, fi\<lparr>fi_heap := h\<rparr>)))))"

text \<open>\<open>PrintSections\<close>: the lines it prints.\<close>

definition section_name :: "IMG3_SectionType \<Rightarrow> string" where
  "section_name k = (case k of IMG3_BASE \<Rightarrow> ''BASE'' | IMG3_CERT \<Rightarrow> ''CERT'' | IMG3_DATA \<Rightarrow> ''DATA''
     | IMG3_KBAG \<Rightarrow> ''KBAG'' | IMG3_SEPO \<Rightarrow> ''SEPO'' | IMG3_SHSH \<Rightarrow> ''SHSH'' | IMG3_TYPE \<Rightarrow> ''TYPE''
     | IMG3_SDOM \<Rightarrow> ''SDOM'' | IMG3_PROD \<Rightarrow> ''PROD'' | IMG3_CHIP \<Rightarrow> ''CHIP'' | IMG3_ECID \<Rightarrow> ''ECID''
     | IMG3_VERS \<Rightarrow> ''VERS'' | IMG3_SCEP \<Rightarrow> ''SCEP'' | IMG3_BORD \<Rightarrow> ''BORD'' | IMG3_BDID \<Rightarrow> ''BDID''
     | IMG3_UNKNOWN \<Rightarrow> ''UNKNOWN'')"

fun section_lines :: "file_section heap \<Rightarrow> nat list \<Rightarrow> string list exec" where
  "section_lines h [] = ret []"
| "section_lines h (p # ps) = seq (h_get h p) (\<lambda>sec. seq (section_lines h ps) (\<lambda>ls.
     ret ((''Found '' @ section_name (GetSectionType sec) @ '' section.'') # ls)))"

definition PrintSections :: "file_iface \<Rightarrow> string list exec" where
  "PrintSections fi = (if sections fi = [] then ret [''The sections listing for this file is empty.'']
     else section_lines (fi_heap fi) (sections fi))"

subsection \<open>Invariant\<close>

text \<open>The listed sections are live objects, each listed once.\<close>

definition fi_ok :: "file_iface \<Rightarrow> bool" where
  "fi_ok fi \<longleftrightarrow> heap_ok (fi_heap fi) \<and> distinct (sections fi) \<and> set (sections fi) \<subseteq> live (fi_heap fi)"

definition contents :: "file_iface \<Rightarrow> file_section list" where
  "contents fi = map (\<lambda>p. the (h_obj (fi_heap fi) p)) (sections fi)"

text \<open>The live objects that are not in the list.\<close>

definition spare :: "file_iface \<Rightarrow> nat set" where
  "spare fi = live (fi_heap fi) - set (sections fi)"

lemma new_file_iface_ok: "fi_ok new_file_iface" "contents new_file_iface = []"
  by (simp_all add: fi_ok_def new_file_iface_def contents_def)

lemma delete_sections_ok:
  assumes "fi_ok fi"
  shows "\<exists>fi'. delete_sections fi = ret fi' \<and> fi_ok fi' \<and> sections fi' = [] \<and>
    live (fi_heap fi') = live (fi_heap fi) - set (sections fi)"
proof -
  from assms h_delete_all_ok [of "fi_heap fi" "sections fi"] obtain h where
    "h_delete_all (fi_heap fi) (sections fi) = ret h" "heap_ok h" "live h = live (fi_heap fi) - set (sections fi)"
    by (auto simp: fi_ok_def)
  then show ?thesis by (auto simp: delete_sections_def fi_ok_def)
qed

text \<open>A new object with the contents \<open>sec\<close>, not yet or already in the list.\<close>

definition with_object :: "file_iface \<Rightarrow> file_section \<Rightarrow> file_iface" where
  "with_object fi sec = fi\<lparr>fi_heap := snd (h_new (fi_heap fi) sec)\<rparr>"

definition push_section :: "file_iface \<Rightarrow> file_section \<Rightarrow> file_iface" where
  "push_section fi sec = (with_object fi sec)\<lparr>sections := sections fi @ [h_next (fi_heap fi)]\<rparr>"

lemma alloc_fst: "fst (alloc_section fi) = h_next (fi_heap fi)"
  by (simp add: alloc_section_def h_new_def)

lemma next_not_live: "heap_ok h \<Longrightarrow> h_next h \<notin> live h"
  by (auto simp: heap_ok_def live_def)

lemma parse_into_alloc:
  assumes "heap_ok (fi_heap fi)"
  shows "parse_into malloc_ok mem at (fst (alloc_section fi)) (snd (alloc_section fi)) =
    seq (ParseSection malloc_ok mem at new_section) (\<lambda>rs. ret (fst rs, snd rs, with_object fi (snd rs)))"
proof -
  have "h_next (fi_heap fi) \<noteq> 0" using assms by (simp add: heap_ok_def)
  then show ?thesis
    by (simp add: parse_into_def alloc_section_def h_new_def h_get_def h_put_def with_object_def)
qed

lemma with_object_ok:
  assumes "fi_ok fi"
  shows "fi_ok (with_object fi sec)" "live (fi_heap (with_object fi sec)) = insert (h_next (fi_heap fi)) (live (fi_heap fi))"
    "contents (with_object fi sec) = contents fi"
proof -
  have h: "heap_ok (fi_heap fi)" using assms by (simp add: fi_ok_def)
  then have n: "h_new (fi_heap fi) sec = (h_next (fi_heap fi), snd (h_new (fi_heap fi) sec))"
    by (simp add: h_new_def)
  note new = heap.new [OF h n]
  show live: "live (fi_heap (with_object fi sec)) = insert (h_next (fi_heap fi)) (live (fi_heap fi))"
    using new by (simp add: with_object_def)
  show "fi_ok (with_object fi sec)" using new assms by (auto simp: fi_ok_def with_object_def)
  have "h_next (fi_heap fi) \<notin> set (sections fi)" using assms next_not_live [OF h] by (auto simp: fi_ok_def)
  then show "contents (with_object fi sec) = contents fi"
    by (auto simp: contents_def with_object_def h_new_def)
qed

lemma push_section_ok:
  assumes "fi_ok fi"
  shows "fi_ok (push_section fi sec)" "contents (push_section fi sec) = contents fi @ [sec]" "spare (push_section fi sec) = spare fi"
proof -
  have h: "heap_ok (fi_heap fi)" using assms by (simp add: fi_ok_def)
  have n: "h_next (fi_heap fi) \<notin> set (sections fi)" using assms next_not_live [OF h] by (auto simp: fi_ok_def)
  show "fi_ok (push_section fi sec)"
    using with_object_ok [OF assms, of sec] n by (simp add: fi_ok_def push_section_def with_object_def)
  have "contents (push_section fi sec) = contents (with_object fi sec) @ [sec]"
    by (simp add: contents_def push_section_def with_object_def h_new_def)
  then show "contents (push_section fi sec) = contents fi @ [sec]" by (simp add: with_object_ok [OF assms])
  have "live (fi_heap (push_section fi sec)) = insert (h_next (fi_heap fi)) (live (fi_heap fi))"
    using with_object_ok(2) [OF assms, of sec] by (simp add: push_section_def)
  moreover have "sections (push_section fi sec) = sections fi @ [h_next (fi_heap fi)]" by (simp add: push_section_def)
  ultimately show "spare (push_section fi sec) = spare fi" using next_not_live [OF h] by (auto simp: spare_def)
qed

subsection \<open>The loop of ParseFile\<close>

lemma parse_loop_end: "\<not> off < tot \<Longrightarrow> parse_loop malloc_ok mem tot off fi = ret (0, fi)"
  by (subst parse_loop.simps) simp

lemma parse_loop_skip:
  "off < tot \<Longrightarrow> word_at mem (unat off) = ret m \<Longrightarrow> \<not> is_tag m \<Longrightarrow>
    parse_loop malloc_ok mem tot off fi = parse_loop malloc_ok mem tot (off + 1) fi"
  by (subst parse_loop.simps) simp

lemma parse_loop_tag:
  assumes "fi_ok fi" "off < tot" "word_at mem (unat off) = ret m" "is_tag m"
  shows "parse_loop malloc_ok mem tot off fi =
    seq (ParseSection malloc_ok mem (unat off) new_section) (\<lambda>rs.
      if fst rs \<noteq> 0 then ret (- 1, with_object fi (snd rs))
      else parse_loop malloc_ok mem tot (off + totalLength (snd rs)) (push_section fi (snd rs)))"
proof -
  have h: "heap_ok (fi_heap fi)" using assms(1) by (simp add: fi_ok_def)
  note p = parse_into_alloc [OF h, unfolded alloc_fst]
  show ?thesis
    using assms(2-4)
    by (subst parse_loop.simps)
      (simp add: p seq_seq alloc_fst GetSectionTotalLength_def push_section_def with_object_def
        cong: if_cong)
qed

text \<open>Every outcome of the loop: it keeps the invariant and the sections found before, or it has read outside the file.\<close>

definition loop_outcome :: "file_iface \<Rightarrow> fault + int \<times> file_iface \<Rightarrow> bool" where
  "loop_outcome fi y = (case y of Inl f \<Rightarrow> f = OutOfBounds
     | Inr (rc, fi') \<Rightarrow> fi_ok fi' \<and> (rc = 0 \<or> rc = - 1) \<and> (\<exists>secs. contents fi' = contents fi @ secs))"

lemma loop_outcome_simps [simp]:
  "loop_outcome fi (Inl f) \<longleftrightarrow> f = OutOfBounds"
  "loop_outcome fi (Inr (rc, fi')) \<longleftrightarrow> fi_ok fi' \<and> (rc = 0 \<or> rc = - 1) \<and> (\<exists>secs. contents fi' = contents fi @ secs)"
  by (simp_all add: loop_outcome_def)

lemma loop_outcome_push:
  assumes "fi_ok fi" "loop_outcome (push_section fi sec) y"
  shows "loop_outcome fi y"
  using assms push_section_ok(2) [of fi sec] by (cases y) auto

lemma parse_loop_outcome:
  assumes "parse_loop malloc_ok mem tot off fi = Some y"
  shows "fi_ok fi \<longrightarrow> loop_outcome fi y"
  using assms
proof (rule parse_loop.raw_induct [where P = "\<lambda>malloc_ok mem tot off fi y. fi_ok fi \<longrightarrow> loop_outcome fi y", rotated])
  fix loop malloc_ok mem tot off fi y
  assume IH: "\<And>malloc_ok mem tot off fi y. loop malloc_ok mem tot off fi = Some y \<Longrightarrow> fi_ok fi \<longrightarrow> loop_outcome fi y"
    and body: "(if off < tot then seq (word_at mem (unat off)) (\<lambda>magicNumber.
          if is_tag magicNumber then
            seq (parse_into malloc_ok mem (unat off) (fst (alloc_section fi)) (snd (alloc_section fi))) (\<lambda>r.
              if fst r \<noteq> 0 then ret (- 1, snd (snd r))
              else loop malloc_ok mem tot (off + GetSectionTotalLength (fst (snd r)))
                     ((snd (snd r))\<lparr>sections := sections (snd (snd r)) @ [fst (alloc_section fi)]\<rparr>))
          else loop malloc_ok mem tot (off + 1) fi)
      else ret (0, fi)) = Some y"
  show "fi_ok fi \<longrightarrow> loop_outcome fi y"
  proof
    assume fi: "fi_ok fi"
    then have h: "heap_ok (fi_heap fi)" by (simp add: fi_ok_def)
    note p = parse_into_alloc [OF h, of malloc_ok mem "unat off", unfolded alloc_fst]
    have skip: "loop_outcome fi y" if "loop malloc_ok mem tot (off + 1) fi = Some y"
      using IH [OF that] fi by blast
    have tag: "loop_outcome fi y"
      if "seq (ParseSection malloc_ok mem (unat off) new_section) (\<lambda>rs. if fst rs \<noteq> 0 then ret (- 1, with_object fi (snd rs))
        else loop malloc_ok mem tot (off + totalLength (snd rs)) (push_section fi (snd rs))) = Some y"
    proof (cases "ParseSection malloc_ok mem (unat off) new_section" rule: exec_cases)
      case (ret rs)
      with that IH [of malloc_ok mem tot "off + totalLength (snd rs)" "push_section fi (snd rs)" y] with_object_ok [OF fi]
        push_section_ok(1) [OF fi] show ?thesis
        by (auto simp: ret_eq_Some intro: loop_outcome_push [OF fi] split: if_splits)
    qed (use that in \<open>auto simp: crash_eq_Some dest: ParseSection_faults\<close>)
    show "loop_outcome fi y"
    proof (cases "off < tot")
      case False
      with body fi show ?thesis by (simp add: ret_eq_Some)
    next
      case True
      with body skip tag show ?thesis
        by (cases "word_at mem (unat off)" rule: exec_cases)
          (auto simp: p seq_seq crash_eq_Some alloc_fst GetSectionTotalLength_def push_section_def with_object_def
            dest: word_at_faults cong: if_cong split: if_splits)
    qed
  qed
qed

text \<open>The loop on a serialised list of sections.\<close>

type_synonym entry = "u32 \<times> byte list \<times> byte list"

definition entry_bytes :: "entry \<Rightarrow> byte list" where
  "entry_bytes e = (case e of (m, dat, fill) \<Rightarrow> section_bytes m dat fill)"

definition entries_bytes :: "entry list \<Rightarrow> byte list" where
  "entries_bytes es = concat (map entry_bytes es)"

fun parsed_entries :: "entry list \<Rightarrow> nat \<Rightarrow> file_section list" where
  "parsed_entries [] at = []"
| "parsed_entries ((m, dat, fill) # es) at =
     parsed_section m dat fill at # parsed_entries es (at + 12 + length dat + length fill)"

lemma parse_loop_entries:
  assumes "fi_ok fi" "\<forall>e \<in> set es. is_tag (fst e)" "length pre + length (entries_bytes es) < 2 ^ 32"
    and "\<And>n. malloc_ok n"
  shows "\<exists>fi'. parse_loop malloc_ok (pre @ entries_bytes es @ post)
      (word_of_nat (length pre + length (entries_bytes es))) (word_of_nat (length pre)) fi = ret (0, fi') \<and>
    fi_ok fi' \<and> contents fi' = contents fi @ parsed_entries es (length pre) \<and> spare fi' = spare fi"
  using assms(1-3)
proof (induction es arbitrary: pre fi)
  case Nil
  then show ?case by (auto simp: entries_bytes_def parse_loop_end)
next
  case (Cons e es)
  obtain m dat fill where e: "e = (m, dat, fill)" by (cases e)
  have eb: "entries_bytes (e # es) = section_bytes m dat fill @ entries_bytes es"
    by (simp add: entries_bytes_def entry_bytes_def e)
  let ?n = "12 + length dat + length fill" and ?mem = "pre @ entries_bytes (e # es) @ post"
  let ?tot = "word_of_nat (length pre + length (entries_bytes (e # es))) :: u32"
  have sz: "length pre + ?n + length (entries_bytes es) < 2 ^ 32" using Cons.prems(3) by (simp add: eb add.assoc)
  have u: "unat (word_of_nat (length pre) :: u32) = length pre" using sz by (simp add: unat_of_nat)
  have lt: "(word_of_nat (length pre) :: u32) < ?tot"
    using sz by (simp add: word_less_nat_alt unat_of_nat eb del: of_nat_add)
  have tag: "m \<in> set (IMG3_DATA_MAGIC # plain_magics)" "is_tag m" using Cons.prems(2) by (auto simp: e is_tag_def)
  have mem: "?mem = pre @ section_bytes m dat fill @ entries_bytes es @ post" by (simp add: eb)
  have w: "word_at ?mem (length pre) = ret m"
    unfolding mem section_bytes_def by (simp add: word_at_header)
  have ps: "ParseSection malloc_ok ?mem (length pre) new_section = ret (0, parsed_section m dat fill (length pre))"
    unfolding mem using tag sz assms(4) by (intro ParseSection_ok) auto
  let ?sec = "parsed_section m dat fill (length pre)"
  define pre2 where "pre2 = pre @ section_bytes m dat fill"
  have len: "length pre2 = length pre + ?n" by (simp add: pre2_def)
  have mem2: "?mem = pre2 @ entries_bytes es @ post" by (simp add: mem pre2_def)
  have tot2: "length pre + length (entries_bytes (e # es)) = length pre2 + length (entries_bytes es)"
    by (simp add: eb len)
  have off: "word_of_nat (length pre) + totalLength ?sec = (word_of_nat (length pre2) :: u32)"
    by (simp only: len of_nat_add parsed_section_def file_section.simps)
  have step: "parse_loop malloc_ok ?mem ?tot (word_of_nat (length pre)) fi =
    parse_loop malloc_ok ?mem ?tot (word_of_nat (length pre2)) (push_section fi ?sec)"
    by (subst parse_loop_tag [OF Cons.prems(1) lt _ tag(2)])
      (simp_all only: u w ps seq_ret fst_conv snd_conv off simp_thms if_False not_True_eq_False refl)
  have "\<forall>e \<in> set es. is_tag (fst e)" "length pre2 + length (entries_bytes es) < 2 ^ 32"
    using Cons.prems(2) sz by (simp_all add: len add.assoc)
  from Cons.IH [OF push_section_ok(1) [OF Cons.prems(1)] this]
  obtain fi' where "parse_loop malloc_ok (pre2 @ entries_bytes es @ post)
      (word_of_nat (length pre2 + length (entries_bytes es))) (word_of_nat (length pre2)) (push_section fi ?sec) = ret (0, fi')"
    "fi_ok fi'" "contents fi' = contents (push_section fi ?sec) @ parsed_entries es (length pre2)" "spare fi' = spare (push_section fi ?sec)"
    by blast
  then show ?case
    unfolding step unfolding mem2 tot2 push_section_ok(2,3) [OF Cons.prems(1)]
    by (intro exI [of _ fi']) (simp add: e len add.assoc)
qed

text \<open>
  The loop returns when every tag it can meet announces a length that is not zero and does not wrap
  the 32-bit offset.
\<close>

definition lengths_advance :: "byte list \<Rightarrow> u32 \<Rightarrow> bool" where
  "lengths_advance mem tot \<longleftrightarrow> (\<forall>i < unat tot. \<forall>m w. word_at mem i = ret m \<longrightarrow> is_tag m \<longrightarrow>
     word_at mem (i + 4) = ret w \<longrightarrow> 0 < unat w \<and> i + unat w < 2 ^ 32)"

lemma word_at_cases:
  "word_at mem i = (if i + 4 \<le> length mem then ret (le32 (take 4 (drop i mem))) else crash OutOfBounds)"
  by (simp add: word_at_def slice_def)

lemma copy_data_cases:
  "copy_data malloc_ok mem at o' sec = crash OutOfBounds \<or>
   (\<exists>rc d. copy_data malloc_ok mem at o' sec = ret (rc, sec\<lparr>data := d\<rparr>))"
  by (auto simp: copy_data_def slice_def)

lemma ParseSection_cases:
  "ParseSection malloc_ok mem at sec = crash OutOfBounds \<or>
   (\<exists>sec'. ParseSection malloc_ok mem at sec = ret (- 1, sec')) \<or>
   (\<exists>rc sec'. ParseSection malloc_ok mem at sec = ret (rc, sec') \<and> word_at mem (at + 4) = ret (totalLength sec'))"
proof (cases "at + 12 \<le> length mem \<and> le32 (take 4 (drop at mem)) \<in> set (IMG3_MAGIC # IMG3_DATA_MAGIC # plain_magics)")
  case False
  then have "ParseSection malloc_ok mem at sec = crash OutOfBounds \<or>
     (\<exists>sec'. ParseSection malloc_ok mem at sec = ret (- 1, sec'))"
    unfolding ParseSection_def word_at_cases by auto
  then show ?thesis by blast
next
  case True
  let ?m = "le32 (take 4 (drop at mem))" and ?t = "le32 (take 4 (drop (at + 4) mem))"
  let ?sec = "sec\<lparr>magic := ?m, totalLength := ?t, dataLength := le32 (take 4 (drop (at + 8) mem)), original := Some at\<rparr>"
  from True have w: "word_at mem at = ret ?m" "word_at mem (at + 4) = ret ?t"
    "word_at mem (at + 8) = ret (le32 (take 4 (drop (at + 8) mem)))" by (simp_all add: word_at_cases)
  have "ParseSection malloc_ok mem at sec = (if ?m = IMG3_MAGIC then ret (0, ?sec\<lparr>data := None\<rparr>)
      else copy_data malloc_ok mem at (if ?m = IMG3_DATA_MAGIC then 12 else totalLength ?sec - dataLength ?sec) ?sec)"
    using True by (simp only: ParseSection_def w seq_ret if_True Let_def) simp
  then show ?thesis
    using copy_data_cases [of malloc_ok mem at "if ?m = IMG3_DATA_MAGIC then 12 else totalLength ?sec - dataLength ?sec" ?sec] w(2)
    by (cases "?m = IMG3_MAGIC") auto
qed

lemma ParseSection_length:
  assumes "ParseSection malloc_ok mem at sec = ret (0, sec')"
  shows "word_at mem (at + 4) = ret (totalLength sec')"
  using ParseSection_cases [of malloc_ok mem at sec] assms by auto

lemma ParseSection_returns: "ParseSection malloc_ok mem at sec \<noteq> None"
  using ParseSection_cases [of malloc_ok mem at sec] by (elim disjE exE conjE) (simp_all del: not_None_eq)

lemma unat_plus_less: "unat (a :: u32) + unat b < 2 ^ 32 \<Longrightarrow> unat (a + b) = unat a + unat b"
  by (subst unat_add_lem [THEN iffD1]) simp_all

lemma parse_loop_returns:
  assumes "lengths_advance mem tot" "fi_ok fi"
  shows "parse_loop malloc_ok mem tot off fi \<noteq> None"
  using assms(2)
proof (induction "unat tot - unat off" arbitrary: off fi rule: less_induct)
  case less
  show ?case
  proof (cases "off < tot")
    case False
    then show ?thesis by (simp add: parse_loop_end)
  next
    case True
    then have lt: "unat off < unat tot" by (simp add: word_less_nat_alt)
    have u32: "unat tot < 2 ^ LENGTH(32)" by (rule unsigned_less)
    show ?thesis
    proof (cases "\<exists>m. word_at mem (unat off) = ret m")
      case False
      then have "word_at mem (unat off) = crash OutOfBounds" by (auto simp: word_at_def slice_def split: if_splits)
      with True show ?thesis by (subst parse_loop.simps) simp
    next
      case m: True
      then obtain m where m: "word_at mem (unat off) = ret m" by blast
      show ?thesis
      proof (cases "is_tag m")
        case False
        have "unat (off + 1) = unat off + 1" using lt u32 by (subst unat_plus_less) simp_all
        then show ?thesis
          using less.hyps [of "off + 1" fi] less.prems lt by (simp add: parse_loop_skip [OF True m False])
      next
        case tag: True
        note p = parse_loop_tag [OF less.prems True m tag, of malloc_ok]
        have "parse_loop malloc_ok mem tot (off + totalLength sec) (push_section fi sec) \<noteq> None"
          if "ParseSection malloc_ok mem (unat off) new_section = ret (0, sec)" for sec
        proof -
          note len = ParseSection_length [OF that]
          with assms(1) lt m tag have "0 < unat (totalLength sec)" "unat off + unat (totalLength sec) < 2 ^ 32"
            by (auto simp: lengths_advance_def)
          then have "unat tot - unat (off + totalLength sec) < unat tot - unat off"
            using lt by (simp add: unat_plus_less)
          with less.hyps push_section_ok(1) [OF less.prems] show ?thesis by blast
        qed
        then show ?thesis using ParseSection_returns [of malloc_ok mem "unat off" new_section]
          unfolding p seq_eq_None by (auto simp del: not_None_eq split: if_splits)
      qed
    qed
  qed
qed

text \<open>A tag with a total length of zero is found again and again: the loop does not return.\<close>

definition stuck_at :: "byte list \<Rightarrow> u32 \<Rightarrow> u32 \<Rightarrow> bool" where
  "stuck_at mem tot off \<longleftrightarrow> off < tot \<and> (\<exists>m. is_tag m \<and> word_at mem (unat off) = ret m) \<and>
     word_at mem (unat off + 4) = ret 0 \<and> word_at mem (unat off + 8) = ret 0"

lemma stuck_section:
  assumes "stuck_at mem tot off"
  shows "\<exists>sec. ParseSection malloc_ok mem (unat off) new_section = ret (0, sec) \<and> totalLength sec = 0"
proof -
  from assms obtain m where m: "is_tag m" "word_at mem (unat off) = ret m" "word_at mem (unat off + 4) = ret 0"
    "word_at mem (unat off + 8) = ret 0" by (auto simp: stuck_at_def)
  have "m \<noteq> IMG3_MAGIC" "m \<in> set (IMG3_MAGIC # IMG3_DATA_MAGIC # plain_magics)"
    using m(1) section_magics_distinct by (auto simp: is_tag_def)
  with m(2-4) show ?thesis by (simp add: ParseSection_def copy_data_def new_section_def Let_def)
qed

lemma parse_loop_stuck:
  assumes "stuck_at mem tot off" "fi_ok fi" shows "parse_loop malloc_ok mem tot off fi = None"
proof -
  have "stuck_at mem tot off \<longrightarrow> fi_ok fi \<longrightarrow> False"
    if "parse_loop malloc_ok mem tot off fi = Some y" for malloc_ok mem tot off fi y
    using that
  proof (rule parse_loop.raw_induct [where P = "\<lambda>malloc_ok mem tot off fi y. stuck_at mem tot off \<longrightarrow> fi_ok fi \<longrightarrow> False",
        rotated])
    fix loop malloc_ok mem tot off fi y
    assume IH: "\<And>malloc_ok mem tot off fi y. loop malloc_ok mem tot off fi = Some y \<Longrightarrow>
        stuck_at mem tot off \<longrightarrow> fi_ok fi \<longrightarrow> False"
      and body: "(if off < tot then seq (word_at mem (unat off)) (\<lambda>magicNumber.
          if is_tag magicNumber then
            seq (parse_into malloc_ok mem (unat off) (fst (alloc_section fi)) (snd (alloc_section fi))) (\<lambda>r.
              if fst r \<noteq> 0 then ret (- 1, snd (snd r))
              else loop malloc_ok mem tot (off + GetSectionTotalLength (fst (snd r)))
                     ((snd (snd r))\<lparr>sections := sections (snd (snd r)) @ [fst (alloc_section fi)]\<rparr>))
          else loop malloc_ok mem tot (off + 1) fi)
      else ret (0, fi)) = Some y"
    show "stuck_at mem tot off \<longrightarrow> fi_ok fi \<longrightarrow> False"
    proof (intro impI)
      assume st: "stuck_at mem tot off" and fi: "fi_ok fi"
      then have h: "heap_ok (fi_heap fi)" by (simp add: fi_ok_def)
      note p = parse_into_alloc [OF h, of malloc_ok mem "unat off", unfolded alloc_fst]
      from stuck_section [OF st] obtain sec where
        sec: "ParseSection malloc_ok mem (unat off) new_section = ret (0, sec)" "totalLength sec = 0" by blast
      from st body have "loop malloc_ok mem tot off (push_section fi sec) = Some y"
        by (auto simp: stuck_at_def p sec alloc_fst GetSectionTotalLength_def push_section_def with_object_def)
      from IH [OF this] st push_section_ok(1) [OF fi] show False by blast
    qed
  qed
  with assms show ?thesis by (cases "parse_loop malloc_ok mem tot off fi") auto
qed

subsection \<open>ParseFile\<close>

definition img3_bytes :: "u32 \<Rightarrow> u32 \<Rightarrow> entry list \<Rightarrow> byte list" where
  "img3_bytes shsh name es = header_of IMG3_MAGIC (20 + length (entries_bytes es)) (length (entries_bytes es)) @
     le32_bytes shsh @ le32_bytes name @ entries_bytes es"

definition base_section :: "entry list \<Rightarrow> file_section" where
  "base_section es = \<lparr>magic = IMG3_MAGIC, totalLength = word_of_nat (20 + length (entries_bytes es)),
     dataLength = word_of_nat (length (entries_bytes es)), data = None, original = Some 0\<rparr>"

lemma length_img3_bytes: "length (img3_bytes shsh name es) = 20 + length (entries_bytes es)"
  by (simp add: img3_bytes_def header_of_def)

lemma ParseFile_header:
  assumes "heap_ok (fi_heap fi1)" "delete_sections fi0 = ret fi1" "fileLength \<noteq> 0"
    and "ParseSection malloc_ok mem 0 new_section = ret (rc, sec)"
  shows "ParseFile malloc_ok (Some mem) fileLength fi0 =
    (if rc \<noteq> 0 then parse_error (h_next (fi_heap fi1)) FILE_INVALID_DATA (with_object fi1 sec)
     else if GetSectionType sec \<noteq> IMG3_BASE then parse_error (h_next (fi_heap fi1)) FILE_INVALID_FORMAT (with_object fi1 sec)
     else if totalLength sec \<noteq> fileLength then parse_error (h_next (fi_heap fi1)) FILE_LENGTHS_DIFFER (with_object fi1 sec)
     else parse_loop malloc_ok mem (totalLength sec) (GetSectionHeaderLength sec) (push_section fi1 sec))"
  using assms(2-4) parse_into_alloc [OF assms(1), of malloc_ok mem 0]
  by (simp add: ParseFile_def Let_def alloc_fst GetSectionTotalLength_def push_section_def with_object_def)

lemma ParseFile_entries:
  assumes fi: "fi_ok fi" and es: "\<forall>e \<in> set es. is_tag (fst e)" and size: "20 + length (entries_bytes es) < 2 ^ 32"
    and malloc: "\<And>n. malloc_ok n"
  shows "\<exists>fi'. ParseFile malloc_ok (Some (img3_bytes shsh name es @ post)) (word_of_nat (20 + length (entries_bytes es))) fi
      = ret (0, fi') \<and> fi_ok fi' \<and> contents fi' = base_section es # parsed_entries es 20 \<and>
    live (fi_heap fi') = (live (fi_heap fi) - set (sections fi)) \<union> set (sections fi')"
proof -
  let ?body = "entries_bytes es"
  let ?mem = "img3_bytes shsh name es @ post"
  from delete_sections_ok [OF fi] obtain fi1 where d: "delete_sections fi = ret fi1" "fi_ok fi1" "sections fi1 = []"
    "live (fi_heap fi1) = live (fi_heap fi) - set (sections fi)" by blast
  then have c: "contents fi1 = []" "spare fi1 = live (fi_heap fi) - set (sections fi)" by (simp_all add: contents_def spare_def)
  have nz: "(word_of_nat (20 + length ?body) :: u32) \<noteq> 0"
    using size unat_of_nat [where 'a = 32, of "20 + length ?body"] by (auto simp: word_unat_eq_iff simp del: of_nat_add)
  have ps: "ParseSection malloc_ok ?mem 0 new_section = ret (0, base_section es)"
    using ParseSection_base [of malloc_ok "[]" "20 + length ?body" "length ?body" "le32_bytes shsh @ le32_bytes name @ ?body @ post"]
    by (simp add: img3_bytes_def base_section_def del: of_nat_add)
  have h: "heap_ok (fi_heap fi1)" using d(2) by (simp add: fi_ok_def)
  have hl: "GetSectionHeaderLength (base_section es) = word_of_nat 20"
    by (simp add: GetSectionHeaderLength_def base_section_def)
  have ty: "GetSectionType (base_section es) = IMG3_BASE" by (simp add: GetSectionType_def section_type_def base_section_def)
  have p: "ParseFile malloc_ok (Some ?mem) (word_of_nat (20 + length ?body)) fi =
      parse_loop malloc_ok ?mem (word_of_nat (20 + length ?body)) (word_of_nat 20) (push_section fi1 (base_section es))"
    by (subst ParseFile_header [OF h d(1) nz ps]) (simp only: hl ty, simp add: base_section_def)
  define pre where "pre = header_of IMG3_MAGIC (20 + length ?body) (length ?body) @ le32_bytes shsh @ le32_bytes name"
  have pre: "?mem = pre @ ?body @ post" "length pre = 20" by (simp_all add: pre_def img3_bytes_def header_of_def)
  have "length pre + length ?body < 2 ^ 32" using size pre(2) by simp
  from parse_loop_entries [OF push_section_ok(1) [OF d(2), of "base_section es"] es this, of malloc_ok post] malloc
  obtain fi' where fi': "parse_loop malloc_ok (pre @ ?body @ post) (word_of_nat (length pre + length ?body)) (word_of_nat (length pre))
      (push_section fi1 (base_section es)) = ret (0, fi')" "fi_ok fi'"
    "contents fi' = base_section es # parsed_entries es 20" "spare fi' = live (fi_heap fi) - set (sections fi)"
    unfolding push_section_ok(2,3) [OF d(2)] c pre(2) by auto
  then have "live (fi_heap fi') = (live (fi_heap fi) - set (sections fi)) \<union> set (sections fi')" by (auto simp: spare_def fi_ok_def)
  with fi'(1-3) show ?thesis unfolding p unfolding pre(1) by (simp only: pre(2)) blast
qed

text \<open>C6: a serialised file is parsed into the sections it was made of, in a fresh list; of the objects that were live before, just
  those of the old list are released, and the sections of the new list are the only ones added.\<close>

theorem ParseFile_roundtrip:
  assumes fi: "fi_ok fi" and es: "\<forall>e \<in> set es. is_tag (fst e)" and size: "20 + length (entries_bytes es) < 2 ^ 32"
    and malloc: "\<And>n. malloc_ok n"
  shows "\<exists>fi'. ParseFile malloc_ok (Some (img3_bytes shsh name es @ post)) (word_of_nat (20 + length (entries_bytes es))) fi
      = ret (0, fi') \<and> fi_ok fi' \<and> contents fi' = base_section es # parsed_entries es 20 \<and>
    live (fi_heap fi') = (live (fi_heap fi) - set (sections fi)) \<union> set (sections fi')"
  by (rule ParseFile_entries [OF assms])

theorem ParseFile_roundtrip_witness:
  "\<exists>fi'. ParseFile (\<lambda>n. True)
      (Some (img3_bytes 0 0x6C6C6220 [(IMG3_TYPE_MAGIC, [0x20, 0x62, 0x6C, 0x6C], []), (IMG3_DATA_MAGIC, [1, 2, 3], [0])] @ [])) 52
      (push_section new_file_iface new_section) = ret (0, fi') \<and> fi_ok fi' \<and>
    contents fi' = base_section [(IMG3_TYPE_MAGIC, [0x20, 0x62, 0x6C, 0x6C], []), (IMG3_DATA_MAGIC, [1, 2, 3], [0])] #
      [parsed_section IMG3_TYPE_MAGIC [0x20, 0x62, 0x6C, 0x6C] [] 20, parsed_section IMG3_DATA_MAGIC [1, 2, 3] [0] 36] \<and>
    live (fi_heap fi') = set (sections fi')"
proof -
  have "live (fi_heap (push_section new_file_iface new_section)) = {1}" "sections (push_section new_file_iface new_section) = [1]"
    by (auto simp: push_section_def with_object_def new_file_iface_def empty_heap_def h_new_def live_def)
  then show ?thesis
    using ParseFile_roundtrip [OF push_section_ok(1) [OF new_file_iface_ok(1), of new_section],
        of "[(IMG3_TYPE_MAGIC, [0x20, 0x62, 0x6C, 0x6C], []), (IMG3_DATA_MAGIC, [1, 2, 3], [0])]" "\<lambda>n. True" 0 "0x6C6C6220" "[]"]
    by (simp add: is_tag_def plain_magics_def entries_bytes_def entry_bytes_def)
qed

lemma parse_error_ok:
  assumes "fi_ok fi"
  shows "\<exists>fi'. parse_error (h_next (fi_heap fi)) e (with_object fi sec) = ret (- 1, fi') \<and> fi_ok fi'"
proof -
  have h: "heap_ok (fi_heap fi)" using assms by (simp add: fi_ok_def)
  have ok: "heap_ok (fi_heap (with_object fi sec))" "h_next (fi_heap fi) \<in> live (fi_heap (with_object fi sec))"
    using with_object_ok [OF assms, of sec] by (auto simp: fi_ok_def)
  from heap.del [OF this] obtain hh where hh: "h_delete (fi_heap (with_object fi sec)) (h_next (fi_heap fi)) = ret hh"
    "heap_ok hh" "live hh = live (fi_heap (with_object fi sec)) - {h_next (fi_heap fi)}" by blast
  have "h_next (fi_heap fi) \<notin> set (sections fi)" using assms next_not_live [OF h] by (auto simp: fi_ok_def)
  with hh with_object_ok [OF assms, of sec] assms show ?thesis
    by (auto simp: parse_error_def fi_ok_def with_object_def)
qed

lemma ParseFile_outcome:
  assumes "fi_ok fi" "ParseFile malloc_ok dat len fi = Some y"
  shows "(\<forall>rc fi'. y = Inr (rc, fi') \<longrightarrow> fi_ok fi' \<and> (rc = 0 \<or> rc = - 1)) \<and> (\<forall>f. y = Inl f \<longrightarrow> f = OutOfBounds)"
proof (cases "dat = None \<or> len = 0")
  case True
  with assms show ?thesis by (auto simp: ParseFile_def ret_eq_Some split: option.splits)
next
  case False
  then obtain mem where dat: "dat = Some mem" and len: "len \<noteq> 0" by auto
  from delete_sections_ok [OF assms(1)] obtain fi1 where d: "delete_sections fi = ret fi1" "fi_ok fi1" by blast
  then have h: "heap_ok (fi_heap fi1)" by (simp add: fi_ok_def)
  show ?thesis
  proof (cases "ParseSection malloc_ok mem 0 new_section" rule: exec_cases)
    case (ret rs)
    obtain rc sec where rs: "rs = (rc, sec)" by (cases rs)
    have loop: "(\<forall>rc fi'. y = Inr (rc, fi') \<longrightarrow> fi_ok fi' \<and> (rc = 0 \<or> rc = - 1)) \<and> (\<forall>f. y = Inl f \<longrightarrow> f = OutOfBounds)"
      if "parse_loop malloc_ok mem t off (push_section fi1 sec) = Some y" for t off
      using parse_loop_outcome [OF that] push_section_ok(1) [OF d(2), of sec] by (auto simp: loop_outcome_def)
    show ?thesis
      using assms(2) loop parse_error_ok [OF d(2), of FILE_INVALID_DATA sec] parse_error_ok [OF d(2), of FILE_INVALID_FORMAT sec]
        parse_error_ok [OF d(2), of FILE_LENGTHS_DIFFER sec]
      by (auto simp: dat ParseFile_header [OF h d(1) len ret [unfolded rs]] ret_def split: if_splits)
  next
    case (crash f)
    with assms(2) d(1) len show ?thesis
      by (auto simp: dat ParseFile_def Let_def parse_into_alloc [OF h] crash_eq_Some dest: ParseSection_faults)
  next
    case None
    with assms(2) d(1) len show ?thesis by (simp add: dat ParseFile_def Let_def parse_into_alloc [OF h])
  qed
qed

lemma ParseFile_keeps: "ParseFile malloc_ok dat len fi = ret (rc, fi') \<Longrightarrow> fi_ok fi \<Longrightarrow> fi_ok fi' \<and> (rc = 0 \<or> rc = - 1)"
  using ParseFile_outcome [of fi malloc_ok dat len "Inr (rc, fi')"] by (simp add: ret_def)

lemma ParseFile_faults: "ParseFile malloc_ok dat len fi = crash f \<Longrightarrow> fi_ok fi \<Longrightarrow> f = OutOfBounds"
  using ParseFile_outcome [of fi malloc_ok dat len "Inl f"] by (simp add: crash_def)

text \<open>Whatever bytes are parsed, a run of \<open>ParseFile\<close> that returns leaves a well-formed object (its sections are
  distinct live objects) and returns 0 or -1.\<close>

theorem ParseFile_invariant:
  assumes "fi_ok fi" "ParseFile malloc_ok dat len fi = ret (rc, fi')"
  shows "fi_ok fi' \<and> (rc = 0 \<or> rc = - 1)"
  by (rule ParseFile_keeps [OF assms(2,1)])

theorem ParseFile_invariant_witness:
  "\<exists>rc fi'. ParseFile (\<lambda>n. True) (Some (header_of IMG3_DATA_MAGIC 14 2 @ [5, 6])) 14 new_file_iface = ret (rc, fi') \<and>
    fi_ok fi' \<and> (rc = 0 \<or> rc = - 1)"
proof -
  have e: "header_of IMG3_DATA_MAGIC 14 2 @ [5, 6] = section_bytes IMG3_DATA_MAGIC [5, 6] []"
    by (simp add: section_bytes_def numeral_2_eq_2)
  have "ParseSection (\<lambda>n. True) (header_of IMG3_DATA_MAGIC 14 2 @ [5, 6]) 0 new_section =
      ret (0, parsed_section IMG3_DATA_MAGIC [5, 6] [] 0)"
    using ParseSection_ok [of IMG3_DATA_MAGIC "[5, 6]" "[]" "\<lambda>n. True" "[]" "[]" new_section] unfolding e by simp
  then have "\<exists>rc fi'. ParseFile (\<lambda>n. True) (Some (header_of IMG3_DATA_MAGIC 14 2 @ [5, 6])) 14 new_file_iface = ret (rc, fi')"
    by (simp add: ParseFile_def new_file_iface_def delete_sections_def alloc_section_def h_new_def empty_heap_def parse_into_def
      h_get_def h_put_def GetSectionType_def section_type_def parsed_section_def parse_error_def h_delete_def)
  then show ?thesis using ParseFile_invariant [OF new_file_iface_ok(1)] by blast
qed

subsection \<open>Writing section data\<close>

text \<open>\<open>WriteSectionData\<close> replaces the data of that section and changes no other; the lengths of the header
  are not brought up to date.\<close>

theorem WriteSectionData_ok:
  assumes fi: "fi_ok fi" and p: "p \<in> set (sections fi)" and bs: "0 < len" "len \<le> length bs" "malloc_ok len"
    and sec: "h_get (fi_heap fi) p = ret sec"
  shows "\<exists>fi'. WriteSectionData malloc_ok fi p (Separate bs) len = ret (0, fi') \<and> fi_ok fi' \<and> sections fi' = sections fi \<and>
    h_get (fi_heap fi') p = ret (sec\<lparr>data := Some (take len bs)\<rparr>) \<and>
    (\<forall>q. q \<noteq> p \<longrightarrow> h_get (fi_heap fi') q = h_get (fi_heap fi) q)"
proof -
  have h: "heap_ok (fi_heap fi)" "p \<in> live (fi_heap fi)" using fi p by (auto simp: fi_ok_def)
  let ?sec = "sec\<lparr>data := Some (take len bs)\<rparr>"
  from heap.put [OF h, of ?sec] obtain hh where hh: "h_put (fi_heap fi) p ?sec = ret hh" "heap_ok hh"
    "live hh = live (fi_heap fi)" "h_get hh p = ret ?sec" "\<forall>q. q \<noteq> p \<longrightarrow> h_get hh q = h_get (fi_heap fi) q" by blast
  have w: "WriteData malloc_ok sec (Separate bs) len = ret (0, ?sec)" using bs by (simp add: WriteData_def)
  have "WriteSectionData malloc_ok fi p (Separate bs) len = ret (0, fi\<lparr>fi_heap := hh\<rparr>)"
    using p bs by (simp add: WriteSectionData_def sec w hh(1))
  with hh fi show ?thesis by (auto simp: fi_ok_def)
qed

theorem WriteSectionData_ok_witness:
  "\<exists>fi'. WriteSectionData (\<lambda>n. True) (push_section new_file_iface new_section) 1 (Separate [7, 8, 9]) 2 = ret (0, fi') \<and> fi_ok fi' \<and>
    h_get (fi_heap fi') 1 = ret (new_section\<lparr>data := Some [7, 8]\<rparr>)"
  using WriteSectionData_ok [OF push_section_ok(1) [OF new_file_iface_ok(1)], of 1 new_section 2 "[7, 8, 9]" "\<lambda>n. True" new_section]
  by (auto simp: push_section_def new_file_iface_def empty_heap_def h_get_def h_new_def with_object_def)

text \<open>The failure of the write below is not reported: the call answers 0 and the data is gone.\<close>

lemma WriteSectionData_no_memory:
  assumes fi: "fi_ok fi" and p: "p \<in> set (sections fi)" and bs: "0 < len" "\<not> malloc_ok len"
    and sec: "h_get (fi_heap fi) p = ret sec"
  shows "\<exists>fi'. WriteSectionData malloc_ok fi p (Separate bs) len = ret (0, fi') \<and>
    h_get (fi_heap fi') p = ret (sec\<lparr>data := None\<rparr>)"
proof -
  have h: "heap_ok (fi_heap fi)" "p \<in> live (fi_heap fi)" using fi p by (auto simp: fi_ok_def)
  let ?sec = "sec\<lparr>data := None\<rparr>"
  from heap.put [OF h, of ?sec] obtain hh where hh: "h_put (fi_heap fi) p ?sec = ret hh" "h_get hh p = ret ?sec" by blast
  have "WriteSectionData malloc_ok fi p (Separate bs) len = ret (0, fi\<lparr>fi_heap := hh\<rparr>)"
    using p bs by (simp add: WriteSectionData_def WriteData_def sec hh(1))
  with hh show ?thesis by auto
qed

text \<open>Data that \<open>GetSectionData\<close> gave is read after it has been freed when it is written back to its section.\<close>

lemma WriteSectionData_own:
  assumes "fi_ok fi" "p \<in> set (sections fi)" "0 < len" "malloc_ok len"
  shows "WriteSectionData malloc_ok fi p OwnData len = crash Dangling"
proof -
  have "heap_ok (fi_heap fi)" "p \<in> live (fi_heap fi)" using assms by (auto simp: fi_ok_def)
  from heap.get_alive [OF this] assms show ?thesis by (auto simp: WriteSectionData_def WriteData_own)
qed

subsection \<open>Looking sections up\<close>

lemma find_sections_ok:
  assumes "heap_ok h" "set ps \<subseteq> live h"
  shows "find_sections h k ps = ret (filter (\<lambda>p. GetSectionType (the (h_obj h p)) = k) ps)"
  using assms(2)
proof (induction ps)
  case (Cons p ps)
  then obtain x where "h_obj h p = Some x" by (auto simp: live_def)
  moreover from this assms(1) have "p \<noteq> 0" by (auto simp: heap_ok_def)
  ultimately show ?case using Cons by (simp add: h_get_def)
qed simp

lemma first_section_ok:
  assumes "heap_ok h" "set ps \<subseteq> live h"
  shows "first_section h k ps = ret (List.find (\<lambda>s. GetSectionType s = k) (map (\<lambda>p. the (h_obj h p)) ps))"
  using assms(2)
proof (induction ps)
  case (Cons p ps)
  then obtain x where "h_obj h p = Some x" by (auto simp: live_def)
  moreover from this assms(1) have "p \<noteq> 0" by (auto simp: heap_ok_def)
  ultimately show ?case using Cons by (simp add: h_get_def)
qed simp

lemma lookup_sections:
  assumes "fi_ok fi"
  shows "FileGetSectionData fi k = ret (case List.find (\<lambda>s. GetSectionType s = k) (contents fi) of
      None \<Rightarrow> None | Some s \<Rightarrow> data s) \<and>
    FileGetSectionDataLength fi k = ret (case List.find (\<lambda>s. GetSectionType s = k) (contents fi) of
      None \<Rightarrow> 0 | Some s \<Rightarrow> dataLength s)"
  using assms first_section_ok [of "fi_heap fi" "sections fi" k]
  by (simp add: FileGetSectionData_def FileGetSectionDataLength_def fi_ok_def contents_def
      File_Section.GetSectionData_def File_Section.GetSectionDataLength_def split: option.split)

text \<open>C24: \<open>ParseFile\<close> returns on every file in which each tag the loop can meet announces a total length that is not
  zero and does not wrap the 32-bit offset.\<close>

theorem ParseFile_terminates:
  assumes "fi_ok fi" "lengths_advance mem len"
  shows "ParseFile malloc_ok (Some mem) len fi \<noteq> None"
proof (cases "len = 0")
  case True
  then show ?thesis by (simp add: ParseFile_def)
next
  case len: False
  from delete_sections_ok [OF assms(1)] obtain fi1 where d: "delete_sections fi = ret fi1" "fi_ok fi1" by blast
  then have h: "heap_ok (fi_heap fi1)" by (simp add: fi_ok_def)
  have del: "parse_error p e fi2 \<noteq> None" for p e fi2
    by (simp add: parse_error_def h_delete_def h_get_def split: option.split)
  show ?thesis
  proof (cases "\<exists>rc sec. ParseSection malloc_ok mem 0 new_section = ret (rc, sec)")
    case True
    then obtain rc sec where ps: "ParseSection malloc_ok mem 0 new_section = ret (rc, sec)" by blast
    have "parse_loop malloc_ok mem len off (push_section fi1 sec) \<noteq> None" for off
      by (rule parse_loop_returns [OF assms(2) push_section_ok(1) [OF d(2)]])
    then show ?thesis using del by (simp add: ParseFile_header [OF h d(1) len ps] del: not_None_eq)
  next
    case False
    then obtain f where "ParseSection malloc_ok mem 0 new_section = crash f"
      using ParseSection_cases [of malloc_ok mem 0 new_section] by blast
    then show ?thesis using d(1) len parse_into_alloc [OF h, of malloc_ok mem 0] by (simp add: ParseFile_def Let_def)
  qed
qed

theorem ParseFile_terminates_witness:
  "ParseFile (\<lambda>n. True) (Some (img3_bytes 0 0 [(IMG3_KBAG_MAGIC, [1], [])])) 33 new_file_iface \<noteq> None"
proof -
  let ?mem = "[0x33, 0x67, 0x6D, 0x49, 0x21, 0, 0, 0, 0xD, 0, 0, 0, 0, 0, 0, 0, 0, 0, 0, 0, 0x47, 0x41, 0x42, 0x4B, 0xD, 0, 0, 0, 1, 0, 0, 0, 1] :: byte list"
  have mem: "img3_bytes 0 0 [(IMG3_KBAG_MAGIC, [1], [])] = ?mem"
    by (simp add: img3_bytes_def header_of_def entries_bytes_def entry_bytes_def section_bytes_def le32_bytes_def be32_bytes_def)
  have upto: "(\<forall>i < 33. P i) \<longleftrightarrow> list_all P [0, 1, 2, 3, 4, 5, 6, 7, 8, 9, 10, 11, 12, 13, 14, 15, 16, 17, 18, 19, 20, 21, 22, 23, 24, 25, 26, 27, 28, 29, 30, 31, 32]" for P :: "nat \<Rightarrow> bool"
  proof -
    have "[0..<33] = [0, 1, 2, 3, 4, 5, 6, 7, 8, 9, 10, 11, 12, 13, 14, 15, 16, 17, 18, 19, 20, 21, 22, 23, 24, 25, 26, 27, 28, 29, 30, 31, 32]" by code_simp
    moreover have "(\<forall>i < 33. P i) \<longleftrightarrow> list_all P [0..<33]" by (auto simp: list_all_iff)
    ultimately show ?thesis by simp
  qed
  have "\<forall>i < 33. \<forall>m w. word_at ?mem i = ret m \<longrightarrow> is_tag m \<longrightarrow> word_at ?mem (i + 4) = ret w \<longrightarrow> 0 < unat w \<and> i + unat w < 2 ^ 32"
    by (simp add: upto word_at_cases le32_def be32_def is_tag_def plain_magics_def)
  then have "lengths_advance (img3_bytes 0 0 [(IMG3_KBAG_MAGIC, [1], [])]) 33" by (simp add: lengths_advance_def mem)
  from ParseFile_terminates [OF new_file_iface_ok(1) this] show ?thesis .
qed

lemma section_type_data: "section_type m = IMG3_DATA \<longleftrightarrow> m = IMG3_DATA_MAGIC"
  by (simp add: section_type_def)

lemma find_data_section:
  assumes "List.find (\<lambda>e. fst e = IMG3_DATA_MAGIC) es = Some (m, dat, fill)"
  shows "\<exists>i. List.find (\<lambda>s. GetSectionType s = IMG3_DATA) (parsed_entries es at) = Some (parsed_section IMG3_DATA_MAGIC dat fill i)"
  using assms
proof (induction es at rule: parsed_entries.induct)
  case (2 m' dat' fill' es at)
  then show ?case
    by (cases "m' = IMG3_DATA_MAGIC") (auto simp: GetSectionType_def parsed_section_def section_type_data)
qed simp

text \<open>What a parsed file answers for the data section.\<close>

lemma data_section_lookup:
  assumes "fi_ok fi" "contents fi = base_section es # parsed_entries es 20"
    and "List.find (\<lambda>e. fst e = IMG3_DATA_MAGIC) es = Some (m, dat, fill)" "dat \<noteq> []"
  shows "FileGetSectionData fi IMG3_DATA = ret (Some dat)"
    "FileGetSectionDataLength fi IMG3_DATA = ret (word_of_nat (length dat))"
proof -
  have "GetSectionType (base_section es) \<noteq> IMG3_DATA" by (simp add: GetSectionType_def base_section_def section_type_data)
  then show "FileGetSectionData fi IMG3_DATA = ret (Some dat)" "FileGetSectionDataLength fi IMG3_DATA = ret (word_of_nat (length dat))"
    using lookup_sections [OF assms(1), of IMG3_DATA] find_data_section [OF assms(3), of 20] assms(2,4)
    by (auto simp: parsed_section_def)
qed

text \<open>Looking a section up by type gives the data and the length of the first section of that type, null and 0
  when there is none.\<close>

theorem lookup_contents:
  assumes "fi_ok fi"
  shows "FileGetSectionData fi k = ret (case List.find (\<lambda>s. GetSectionType s = k) (contents fi) of
      None \<Rightarrow> None | Some s \<Rightarrow> data s) \<and>
    FileGetSectionDataLength fi k = ret (case List.find (\<lambda>s. GetSectionType s = k) (contents fi) of
      None \<Rightarrow> 0 | Some s \<Rightarrow> dataLength s)"
  by (rule lookup_sections [OF assms])

theorem lookup_contents_witness:
  "FileGetSectionData (push_section new_file_iface (parsed_section IMG3_DATA_MAGIC [1, 2] [] 20)) IMG3_DATA = ret (Some [1, 2]) \<and>
   FileGetSectionDataLength (push_section new_file_iface (parsed_section IMG3_DATA_MAGIC [1, 2] [] 20)) IMG3_KBAG = ret 0"
  using lookup_contents [OF push_section_ok(1) [OF new_file_iface_ok(1)], of "parsed_section IMG3_DATA_MAGIC [1, 2] [] 20"]
  by (simp add: push_section_ok(2) new_file_iface_ok parsed_section_def GetSectionType_def section_type_def)

text \<open>C28: on a well-formed file whose first section announces a total length of zero, \<open>ParseFile\<close> never returns: the
  offset stays where it is, and one section after another is allocated.\<close>

theorem ParseFile_diverges:
  assumes fi: "fi_ok fi" and m: "is_tag m" and a: "length a = 8" and tot: "20 < tot" "tot < 2 ^ 32"
  shows "ParseFile malloc_ok (Some (header_of IMG3_MAGIC tot (tot - 20) @ a @ header_of m 0 0 @ rest)) (word_of_nat tot) fi = None"
proof -
  let ?mem = "header_of IMG3_MAGIC tot (tot - 20) @ a @ header_of m 0 0 @ rest"
  from delete_sections_ok [OF fi] obtain fi1 where d: "delete_sections fi = ret fi1" "fi_ok fi1" by blast
  then have h: "heap_ok (fi_heap fi1)" by (simp add: fi_ok_def)
  have u: "unat (word_of_nat tot :: u32) = tot" using tot by (simp add: unat_small)
  then have nz: "(word_of_nat tot :: u32) \<noteq> 0" using tot(1) by (metis not_less_zero unat_0)
  define sec where "sec = \<lparr>magic = IMG3_MAGIC, totalLength = word_of_nat tot, dataLength = word_of_nat (tot - 20), data = None,
     original = Some 0\<rparr>"
  have ps: "ParseSection malloc_ok ?mem 0 new_section = ret (0, sec)"
    using ParseSection_base [of malloc_ok "[]" tot "tot - 20" "a @ header_of m 0 0 @ rest"] by (simp add: sec_def)
  have hl: "GetSectionHeaderLength sec = 20" "GetSectionType sec = IMG3_BASE" "totalLength sec = word_of_nat tot"
    using tot by (simp_all add: GetSectionHeaderLength_def sec_def of_nat_diff GetSectionType_def section_type_def)
  have p: "?mem = (header_of IMG3_MAGIC tot (tot - 20) @ a) @ header_of m 0 0 @ rest"
    "length (header_of IMG3_MAGIC tot (tot - 20) @ a) = 20" using a by (simp_all add: header_of_def)
  have "word_at ?mem 20 = ret m" "word_at ?mem 24 = ret 0" "word_at ?mem 28 = ret 0"
    using word_at_header [of "header_of IMG3_MAGIC tot (tot - 20) @ a" m 0 0 rest] unfolding p(2) by simp_all
  then have "stuck_at ?mem (word_of_nat tot) 20" using m tot u by (auto simp: stuck_at_def word_less_nat_alt)
  then show ?thesis
    using parse_loop_stuck [of ?mem "word_of_nat tot" 20 "push_section fi1 sec" malloc_ok] push_section_ok(1) [OF d(2)]
    by (simp add: ParseFile_header [OF h d(1) nz ps] hl)
qed

theorem ParseFile_diverges_witness:
  "ParseFile (\<lambda>n. True) (Some (header_of IMG3_MAGIC 32 12 @ [0, 0, 0, 0, 0x20, 0x62, 0x6C, 0x6C] @ header_of IMG3_KBAG_MAGIC 0 0 @ []))
    32 new_file_iface = None"
  using ParseFile_diverges [OF new_file_iface_ok(1), of IMG3_KBAG_MAGIC "[0, 0, 0, 0, 0x20, 0x62, 0x6C, 0x6C]" 32 "\<lambda>n. True" "[]"]
  by (simp add: is_tag_def plain_magics_def)

subsection \<open>Histories of an object\<close>

text \<open>The public methods, with their arguments and what the caller sees of them. The data that is written is in a buffer of its own.\<close>

datatype file_call =
    ParseFile_call "nat \<Rightarrow> bool" "byte list option" u32
  | WriteSectionData_call "nat \<Rightarrow> bool" nat "byte list option" nat
  | GetSection_call IMG3_SectionType
  | GetSectionData_call IMG3_SectionType
  | GetSectionDataLength_call IMG3_SectionType
  | PrintSections_call

datatype file_result = Code int | Pointers "nat list" | Bytes "byte list option" | Length u32 | Lines "string list"

fun file_run :: "file_call \<Rightarrow> file_iface \<Rightarrow> (file_result \<times> file_iface) exec" where
  "file_run (ParseFile_call malloc_ok dat len) fi = seq (ParseFile malloc_ok dat len fi) (\<lambda>(rc, fi). ret (Code rc, fi))"
| "file_run (WriteSectionData_call malloc_ok p dat len) fi =
     seq (WriteSectionData malloc_ok fi p (source_of dat) len) (\<lambda>(rc, fi). ret (Code rc, fi))"
| "file_run (GetSection_call k) fi = seq (GetSection fi k) (\<lambda>ps. ret (Pointers ps, fi))"
| "file_run (GetSectionData_call k) fi = seq (FileGetSectionData fi k) (\<lambda>d. ret (Bytes d, fi))"
| "file_run (GetSectionDataLength_call k) fi = seq (FileGetSectionDataLength fi k) (\<lambda>n. ret (Length n, fi))"
| "file_run PrintSections_call fi = seq (PrintSections fi) (\<lambda>ls. ret (Lines ls, fi))"

lemma section_lines_ok:
  assumes "heap_ok h" "set ps \<subseteq> live h"
  shows "section_lines h ps =
    ret (map (\<lambda>s. ''Found '' @ section_name (GetSectionType s) @ '' section.'') (map (\<lambda>p. the (h_obj h p)) ps))"
  using assms(2)
proof (induction ps)
  case (Cons p ps)
  then obtain x where "h_obj h p = Some x" by (auto simp: live_def)
  moreover from this assms(1) have "p \<noteq> 0" by (auto simp: heap_ok_def)
  ultimately show ?case using Cons by (simp add: h_get_def)
qed simp

lemma lookups_return:
  assumes "fi_ok fi"
  shows "\<exists>ps. GetSection fi k = ret ps" "\<exists>d. FileGetSectionData fi k = ret d" "\<exists>n. FileGetSectionDataLength fi k = ret n"
    "\<exists>ls. PrintSections fi = ret ls"
  using assms find_sections_ok [of "fi_heap fi" "sections fi" k] section_lines_ok [of "fi_heap fi" "sections fi"] lookup_sections [OF assms, of k]
  by (simp_all add: GetSection_def PrintSections_def fi_ok_def)

lemma lookups_no_fault:
  assumes "fi_ok fi"
  shows "GetSection fi k \<noteq> crash f" "FileGetSectionData fi k \<noteq> crash f" "FileGetSectionDataLength fi k \<noteq> crash f"
    "PrintSections fi \<noteq> crash f"
  using lookups_return(1-3) [OF assms, of k] lookups_return(4) [OF assms] by auto

lemma WriteSectionData_outcome:
  assumes "fi_ok fi"
  shows "WriteSectionData malloc_ok fi p (source_of dat) len = ret (rc, fi') \<Longrightarrow> fi_ok fi'"
    and "WriteSectionData malloc_ok fi p (source_of dat) len = crash f \<Longrightarrow> f = OutOfBounds"
proof -
  consider "WriteSectionData malloc_ok fi p (source_of dat) len = ret (- 1, fi)"
    | "p \<in> set (sections fi)" "WriteSectionData malloc_ok fi p (source_of dat) len = seq (h_get (fi_heap fi) p) (\<lambda>sec.
        seq (WriteData malloc_ok sec (source_of dat) len) (\<lambda>rs. seq (h_put (fi_heap fi) p (snd rs)) (\<lambda>h. ret (0, fi\<lparr>fi_heap := h\<rparr>))))"
    by (cases "dat = None \<or> len = 0"; cases "p \<in> set (sections fi)") (auto simp: WriteSectionData_def)
  then have "(WriteSectionData malloc_ok fi p (source_of dat) len = ret (rc, fi') \<longrightarrow> fi_ok fi') \<and>
    (WriteSectionData malloc_ok fi p (source_of dat) len = crash f \<longrightarrow> f = OutOfBounds)"
  proof cases
    case 1
    with assms show ?thesis by auto
  next
    case 2
    have h: "heap_ok (fi_heap fi)" "p \<in> live (fi_heap fi)" using assms 2(1) by (auto simp: fi_ok_def)
    from heap.get_alive [OF h] obtain sec where sec: "h_get (fi_heap fi) p = ret sec" by blast
    have put: "\<exists>h'. h_put (fi_heap fi) p x = ret h' \<and> fi_ok (fi\<lparr>fi_heap := h'\<rparr>)" for x
      using heap.put [OF h, of x] assms by (auto simp: fi_ok_def)
    show ?thesis
    proof (cases "WriteData malloc_ok sec (source_of dat) len" rule: exec_cases)
      case (ret rs)
      with put [of "snd rs"] show ?thesis by (auto simp: 2(2) sec)
    qed (auto simp: 2(2) sec dest: WriteData_faults)
  qed
  then show "WriteSectionData malloc_ok fi p (source_of dat) len = ret (rc, fi') \<Longrightarrow> fi_ok fi'"
    "WriteSectionData malloc_ok fi p (source_of dat) len = crash f \<Longrightarrow> f = OutOfBounds" by blast+
qed

interpretation file_class: owning_class file_run fi_ok delete_sections
proof (unfold_locales, goal_cases)
  case (1 fi c r fi')
  then show ?case
    by (cases c) (auto simp: seq_eq_ret dest: ParseFile_keeps WriteSectionData_outcome(1))
next
  case (2 fi c f)
  then show ?case
    using lookups_no_fault [OF 2(1)]
    by (cases c) (auto simp: seq_eq_crash split: prod.splits dest: ParseFile_faults WriteSectionData_outcome(2))
next
  case (3 fi)
  then show ?case using delete_sections_ok by blast
qed

text \<open>C19: after any sequence of calls on a new object, with any arguments, the sections it lists are live and distinct, its destructor
  succeeds, and no method touches a released or null section: a method can fault only by reading outside the data it is given.\<close>

theorem file_histories_safe:
  assumes "history file_run new_file_iface tr fi"
  shows "fi_ok fi \<and> (\<exists>fi'. delete_sections fi = ret fi') \<and> (\<forall>c f. file_run c fi = crash f \<longrightarrow> f = OutOfBounds)"
  by (rule file_class.history_safe [OF new_file_iface_ok(1) assms])

theorem file_histories_safe_witness:
  "\<exists>r fi. history file_run new_file_iface
      [(ParseFile_call (\<lambda>n. True) (Some (header_of IMG3_DATA_MAGIC 14 2 @ [5, 6])) 14, Code (- 1)),
       (WriteSectionData_call (\<lambda>n. True) 1 (Some [7]) 1, Code (- 1)), (GetSectionData_call IMG3_DATA, Bytes None)] fi \<and>
    delete_sections fi = ret r"
proof -
  have e: "header_of IMG3_DATA_MAGIC 14 2 @ [5, 6] = section_bytes IMG3_DATA_MAGIC [5, 6] []"
    by (simp add: section_bytes_def numeral_2_eq_2)
  have "ParseSection (\<lambda>n. True) (header_of IMG3_DATA_MAGIC 14 2 @ [5, 6]) 0 new_section =
      ret (0, parsed_section IMG3_DATA_MAGIC [5, 6] [] 0)"
    using ParseSection_ok [of IMG3_DATA_MAGIC "[5, 6]" "[]" "\<lambda>n. True" "[]" "[]" new_section] unfolding e by simp
  then have "\<exists>fi. history file_run new_file_iface
      [(ParseFile_call (\<lambda>n. True) (Some (header_of IMG3_DATA_MAGIC 14 2 @ [5, 6])) 14, Code (- 1)),
       (WriteSectionData_call (\<lambda>n. True) 1 (Some [7]) 1, Code (- 1)), (GetSectionData_call IMG3_DATA, Bytes None)] fi"
    by (simp add: ParseFile_def new_file_iface_def delete_sections_def alloc_section_def h_new_def empty_heap_def parse_into_def
      h_get_def h_put_def GetSectionType_def section_type_def parsed_section_def parse_error_def h_delete_def
      WriteSectionData_def FileGetSectionData_def)
  then show ?thesis using file_histories_safe by blast
qed

end
