(* ===== verification/Zip.thy ===== *)
theory Zip imports Cstring Heap History begin

text \<open>
  \<open>IMG3_ZipInterface\<close> (src/src/compression/IMG3_ZipInterface.cpp): finding the end record of an archive,
  listing its central directory, extracting files with an external program. The debug printers
  are compiled out and not modelled.
\<close>

subsection \<open>State\<close>

datatype zip_error =
    ZIP_NONE | ZIP_SYSTEM | ZIP_MALFORMED_LIST | ZIP_INDEX_GREATER_THAN_SIZE | ZIP_NO_CENTRAL_DIRECTORY_FOUND
  | ZIP_EXTRACTING_FAILED | ZIP_NOT_A_ZIP_FILE | ZIP_INVALID_PARAMETER

text \<open>The pointer \<open>fd\<close>: null, an open stream, or a stream that has been closed.\<close>

datatype handle = NoHandle | OpenHandle | ClosedHandle

definition fclose :: "handle \<Rightarrow> handle exec" where
  "fclose h = (case h of NoHandle \<Rightarrow> crash NullDeref | OpenHandle \<Rightarrow> ret ClosedHandle | ClosedHandle \<Rightarrow> crash Dangling)"

record zip_node =
  startingDisk :: u16
  offset :: u32
  compressedSize :: u32
  uncompressedSize :: u32
  fileName :: nat

text \<open>\<open>nodes\<close> and \<open>files\<close> hold pointers into the two heaps, of nodes and of name buffers.\<close>

record zip =
  z_fd :: handle
  z_nodes :: "nat list"
  z_files :: "nat list"
  z_error :: zip_error
  z_node_heap :: "zip_node heap"
  z_names :: "string heap"

definition new_zip :: zip where
  "new_zip = \<lparr>z_fd = NoHandle, z_nodes = [], z_files = [], z_error = ZIP_NONE,
     z_node_heap = empty_heap, z_names = empty_heap\<rparr>"

text \<open>The fields of the two records that the code uses, at their offsets in the packed structures.\<close>

abbreviation CENTRAL_DIRECTORY_HEADER_MARKER :: u32 where "CENTRAL_DIRECTORY_HEADER_MARKER \<equiv> 0x02014b50"
abbreviation CENTRAL_DIRECTORY_END_MARKER :: u32 where "CENTRAL_DIRECTORY_END_MARKER \<equiv> 0x06054b50"

record dir_header =
  dh_sig :: u32
  dh_compressedSize :: u32
  dh_uncompressedSize :: u32
  dh_fileNameLength :: u16
  dh_extraFieldLength :: u16
  dh_fileCommentLength :: u16
  dh_startDiskNumber :: u16
  dh_fileHeaderOffset :: u32

definition read_header :: "byte list \<Rightarrow> dir_header" where
  "read_header bs = \<lparr>dh_sig = le32 (take 4 bs), dh_compressedSize = le32 (take 4 (drop 20 bs)),
     dh_uncompressedSize = le32 (take 4 (drop 24 bs)), dh_fileNameLength = le16 (take 2 (drop 28 bs)),
     dh_extraFieldLength = le16 (take 2 (drop 30 bs)), dh_fileCommentLength = le16 (take 2 (drop 32 bs)),
     dh_startDiskNumber = le16 (take 2 (drop 34 bs)), dh_fileHeaderOffset = le32 (take 4 (drop 42 bs))\<rparr>"

record dir_end =
  de_totalNum :: u16
  de_size :: u32
  de_offset :: u32

definition read_end :: "byte list \<Rightarrow> dir_end" where
  "read_end bs = \<lparr>de_totalNum = le16 (take 2 (drop 10 bs)), de_size = le32 (take 4 (drop 12 bs)),
     de_offset = le32 (take 4 (drop 16 bs))\<rparr>"

subsection \<open>Operations\<close>

definition ResetData :: "zip \<Rightarrow> zip exec" where
  "ResetData z =
     seq (h_delete_all (z_names z) (z_files z)) (\<lambda>names.
     seq (if z_fd z \<noteq> NoHandle then fclose (z_fd z) else ret (z_fd z)) (\<lambda>fd.
       ret (z\<lparr>z_nodes := [], z_files := [], z_names := names, z_fd := fd, z_error := ZIP_NONE\<rparr>)))"

text \<open>The destructor calls \<open>ResetData\<close>.\<close>

definition destroy_zip :: "zip \<Rightarrow> zip exec" where
  "destroy_zip z = ResetData z"

text \<open>The scan for the end marker over the bytes read, \<open>index < bytesToRead - 3\<close>.\<close>

function find_marker :: "byte list \<Rightarrow> nat \<Rightarrow> nat option" where
  "find_marker buffer index =
     (if index + 3 < length buffer then
        (if le32 (take 4 (drop index buffer)) = CENTRAL_DIRECTORY_END_MARKER then Some index
         else find_marker buffer (index + 1))
      else None)"
  by pat_completeness auto
termination by (relation "measure (\<lambda>(buffer, index). length buffer - index)") auto

declare find_marker.simps [simp del]

definition last_bytes :: "byte list \<Rightarrow> byte list" where
  "last_bytes contents = drop (length contents - min 1024 (length contents)) contents"

definition FindCentralDirectoryEnd :: "byte list \<Rightarrow> zip \<Rightarrow> byte list option \<times> zip" where
  "FindCentralDirectoryEnd contents z =
     (if contents = [] then (None, z\<lparr>z_error := ZIP_INVALID_PARAMETER\<rparr>)
      else case find_marker (last_bytes contents) 0 of
        Some index \<Rightarrow> (Some (drop index (last_bytes contents)), z\<lparr>z_error := ZIP_NONE\<rparr>)
      | None \<Rightarrow> (None, z\<lparr>z_error := ZIP_NOT_A_ZIP_FILE\<rparr>))"

text \<open>
  \<open>traversal_error\<close>: the local variable \<open>node\<close> is not initialised before the first record has been
  accepted (\<open>None\<close>).
\<close>

definition traversal_error :: "nat option \<Rightarrow> zip \<Rightarrow> (int \<times> zip) exec" where
  "traversal_error node z = (case node of None \<Rightarrow> crash Indeterminate
     | Some q \<Rightarrow> seq (h_delete (z_node_heap z) q) (\<lambda>h. ret (- 1, z\<lparr>z_nodes := [], z_node_heap := h\<rparr>)))"

text \<open>
  The buffer of a file name: \<open>strncpy\<close> of exactly the length of the name, the last byte is not written
  (\<open>junk\<close>). For an empty name the pointer is not set (\<open>wild\<close>).
\<close>

definition copy_name :: "char \<Rightarrow> nat \<Rightarrow> byte list \<Rightarrow> nat \<Rightarrow> nat \<Rightarrow> zip \<Rightarrow> (nat \<times> zip) exec" where
  "copy_name junk wild records at len z =
     (if len \<noteq> 0 then
        seq (slice records at len) (\<lambda>bs.
          case h_new (z_names z) (strncpy (takeWhile (\<lambda>c. c \<noteq> NUL) (string_of_bytes bs)) len @ [junk]) of
            (p, names) \<Rightarrow> ret (p, z\<lparr>z_names := names\<rparr>))
      else ret (wild, z))"

definition add_node :: "dir_header \<Rightarrow> nat \<Rightarrow> zip \<Rightarrow> nat \<times> zip" where
  "add_node dh p z = (case h_new (z_node_heap z)
       \<lparr>startingDisk = dh_startDiskNumber dh, offset = dh_fileHeaderOffset dh,
        compressedSize = dh_compressedSize dh, uncompressedSize = dh_uncompressedSize dh, fileName = p\<rparr> of
     (q, h) \<Rightarrow> (q, z\<lparr>z_node_heap := h, z_nodes := z_nodes z @ [q], z_files := z_files z @ [p]\<rparr>))"

definition record_size :: "dir_header \<Rightarrow> u32" where
  "record_size dh = 46 + ucast (dh_fileNameLength dh) + ucast (dh_extraFieldLength dh) + ucast (dh_fileCommentLength dh)"

fun extract_records ::
    "char \<Rightarrow> nat \<Rightarrow> byte list \<Rightarrow> u32 \<Rightarrow> nat \<Rightarrow> u32 \<Rightarrow> nat option \<Rightarrow> zip \<Rightarrow> (int \<times> zip) exec" where
  "extract_records junk wild records sz 0 currOffset node z = ret (0, z)"
| "extract_records junk wild records sz (Suc left) currOffset node z =
     seq (slice records (unat currOffset) 46) (\<lambda>bs. let dh = read_header bs in
       if dh_sig dh \<noteq> CENTRAL_DIRECTORY_HEADER_MARKER then traversal_error node z
       else
         seq (copy_name junk wild records (unat currOffset + 46) (unat (dh_fileNameLength dh)) z) (\<lambda>pz.
           case add_node dh (fst pz) (snd pz) of (q, z) \<Rightarrow>
             if currOffset + record_size dh > sz then traversal_error (Some q) z
             else extract_records junk wild records sz left (currOffset + record_size dh) (Some q) z))"

text \<open>\<open>fread\<close> of one item of \<open>n\<close> bytes at an offset: nothing when \<open>n\<close> is 0 or the file is too short.\<close>

definition read_item :: "byte list \<Rightarrow> nat \<Rightarrow> nat \<Rightarrow> byte list option" where
  "read_item contents at n = (if n = 0 \<or> length contents < at + n then None else Some (take n (drop at contents)))"

definition ExtractCentralDirectoryListings :: "char \<Rightarrow> nat \<Rightarrow> byte list \<Rightarrow> dir_end \<Rightarrow> zip \<Rightarrow> (int \<times> zip) exec" where
  "ExtractCentralDirectoryListings junk wild contents de z0 =
     (let z = z0\<lparr>z_error := ZIP_NONE\<rparr> in
      case read_item contents (unat (de_offset de)) (unat (de_size de)) of
        None \<Rightarrow> ret (- 1, z\<lparr>z_error := ZIP_SYSTEM\<rparr>)
      | Some records \<Rightarrow> extract_records junk wild records (de_size de) (unat (de_totalNum de)) 0 None z)"

text \<open>
  \<open>fs\<close> is what \<open>fopen\<close> finds. The result is whether \<open>&files\<close> (\<open>True\<close>) or a null pointer is returned, and
  the object.
\<close>

definition close_error :: "zip \<Rightarrow> zip_error \<Rightarrow> (bool \<times> zip) exec" where
  "close_error z e = seq (fclose (z_fd z)) (\<lambda>fd. ret (False, z\<lparr>z_fd := NoHandle, z_error := e\<rparr>))"

definition AnalyzeFile ::
    "(string \<Rightarrow> byte list option) \<Rightarrow> char \<Rightarrow> nat \<Rightarrow> string option \<Rightarrow> zip \<Rightarrow> (bool \<times> zip) exec" where
  "AnalyzeFile fs junk wild name z0 = (case name of
     None \<Rightarrow> ret (False, z0\<lparr>z_error := ZIP_INVALID_PARAMETER\<rparr>)
   | Some fn \<Rightarrow>
       seq (ResetData z0) (\<lambda>z1. case fs fn of
         None \<Rightarrow> ret (False, z1\<lparr>z_fd := NoHandle, z_error := ZIP_SYSTEM\<rparr>)
       | Some contents \<Rightarrow>
           (case FindCentralDirectoryEnd contents (z1\<lparr>z_fd := OpenHandle\<rparr>) of
              (None, z) \<Rightarrow> close_error z ZIP_NOT_A_ZIP_FILE
            | (Some ptr, z) \<Rightarrow>
                seq (slice ptr 0 22) (\<lambda>bs.
                seq (ExtractCentralDirectoryListings junk wild contents (read_end bs) z) (\<lambda>rz.
                  if fst rz \<noteq> 0 then close_error (snd rz) ZIP_NO_CENTRAL_DIRECTORY_FOUND
                  else seq (fclose (z_fd (snd rz))) (\<lambda>fd. ret (True, (snd rz)\<lparr>z_fd := fd\<rparr>)))))))"

text \<open>
  \<open>vfork\<close>, \<open>execlp\<close> of \<^verbatim>\<open>unzip\<close> and \<open>wait\<close>: what happens to a command is a parameter \<open>spawn\<close>; the
  commands that were run are recorded in order.
\<close>

datatype spawn_result = Spawned | WaitFailed | ForkFailed

type_synonym command = "string list"

definition unzip_one :: "string \<Rightarrow> string \<Rightarrow> command" where
  "unzip_one archive file = [''unzip'', ''-o'', ''-q'', archive, file]"

fun extract_matching ::
    "(command \<Rightarrow> spawn_result) \<Rightarrow> string \<Rightarrow> string \<Rightarrow> zip \<Rightarrow> nat list \<Rightarrow> nat list \<Rightarrow> command list \<Rightarrow>
     (nat list option \<times> command list) exec" where
  "extract_matching spawn archive sec z [] found cmds = ret (Some found, cmds)"
| "extract_matching spawn archive sec z (q # qs) found cmds =
     seq (h_get (z_node_heap z) q) (\<lambda>node.
     seq (h_get (z_names z) (fileName node)) (\<lambda>buf.
     seq (cstr buf 0) (\<lambda>name.
       if strcasestr name sec then
         (case spawn (unzip_one archive name) of
            Spawned \<Rightarrow> extract_matching spawn archive sec z qs (found @ [fileName node]) (cmds @ [unzip_one archive name])
          | WaitFailed \<Rightarrow> ret (None, cmds @ [unzip_one archive name])
          | ForkFailed \<Rightarrow> ret (None, cmds))
       else extract_matching spawn archive sec z qs found cmds)))"

definition ExtractFiles ::
    "(command \<Rightarrow> spawn_result) \<Rightarrow> string option \<Rightarrow> string option \<Rightarrow> zip \<Rightarrow> (nat list option \<times> command list \<times> zip) exec" where
  "ExtractFiles spawn archiveName sec z = (case (sec, archiveName) of
     (Some s, Some a) \<Rightarrow>
       seq (extract_matching spawn a s z (z_nodes z) [] []) (\<lambda>fc.
         ret (fst fc, snd fc, z\<lparr>z_error := (if fst fc = None then ZIP_SYSTEM else ZIP_NONE)\<rparr>))
   | _ \<Rightarrow> ret (None, [], z\<lparr>z_error := ZIP_INVALID_PARAMETER\<rparr>))"

definition ExtractAllFiles :: "(command \<Rightarrow> spawn_result) \<Rightarrow> string option \<Rightarrow> zip \<Rightarrow> int \<times> command list \<times> zip" where
  "ExtractAllFiles spawn archiveName z = (case archiveName of
     None \<Rightarrow> (- 1, [], z\<lparr>z_error := ZIP_INVALID_PARAMETER\<rparr>)
   | Some a \<Rightarrow> (let c = [''unzip'', ''-q'', a] in case spawn c of
       Spawned \<Rightarrow> (0, [c], z\<lparr>z_error := ZIP_NONE\<rparr>)
     | WaitFailed \<Rightarrow> (- 1, [c], z\<lparr>z_error := ZIP_SYSTEM\<rparr>)
     | ForkFailed \<Rightarrow> (- 1, [], z\<lparr>z_error := ZIP_SYSTEM\<rparr>)))"

subsection \<open>The scan for the end record\<close>

lemma find_marker_Some:
  assumes "find_marker buffer i = Some k"
  shows "i \<le> k \<and> k + 3 < length buffer \<and> le32 (take 4 (drop k buffer)) = CENTRAL_DIRECTORY_END_MARKER \<and>
    (\<forall>j. i \<le> j \<and> j < k \<longrightarrow> le32 (take 4 (drop j buffer)) \<noteq> CENTRAL_DIRECTORY_END_MARKER)"
  using assms
proof (induction buffer i rule: find_marker.induct)
  case (1 buffer i)
  note f = "1.prems" [unfolded find_marker.simps [of buffer i]]
  show ?case
  proof (cases "le32 (take 4 (drop i buffer)) = CENTRAL_DIRECTORY_END_MARKER")
    case True
    with f show ?thesis by (auto split: if_splits)
  next
    case False
    with f have l: "i + 3 < length buffer" "find_marker buffer (i + 1) = Some k" by (auto split: if_splits)
    from "1.IH" [OF l(1) False l(2)] have IH: "i + 1 \<le> k" "k + 3 < length buffer"
      "le32 (take 4 (drop k buffer)) = CENTRAL_DIRECTORY_END_MARKER"
      "\<forall>j. i + 1 \<le> j \<and> j < k \<longrightarrow> le32 (take 4 (drop j buffer)) \<noteq> CENTRAL_DIRECTORY_END_MARKER" by auto
    have "le32 (take 4 (drop j buffer)) \<noteq> CENTRAL_DIRECTORY_END_MARKER" if "i \<le> j" "j < k" for j
      using that IH(4) False by (cases "j = i") auto
    with IH show ?thesis by auto
  qed
qed

lemma find_marker_None:
  assumes "find_marker buffer i = None" "i \<le> j" "j + 3 < length buffer"
  shows "le32 (take 4 (drop j buffer)) \<noteq> CENTRAL_DIRECTORY_END_MARKER"
  using assms
proof (induction buffer i rule: find_marker.induct)
  case (1 buffer i)
  from "1.prems" have l: "i + 3 < length buffer" by simp
  with "1.prems"(1) have m: "le32 (take 4 (drop i buffer)) \<noteq> CENTRAL_DIRECTORY_END_MARKER" "find_marker buffer (i + 1) = None"
    by (auto simp: find_marker.simps [of buffer i] split: if_splits)
  show ?case
  proof (cases "j = i")
    case True
    with m show ?thesis by simp
  next
    case False
    with "1.IH" [OF l m(1) m(2)] "1.prems" show ?thesis by simp
  qed
qed

lemma find_marker_first:
  assumes "i \<le> k" "k + 3 < length buffer" "le32 (take 4 (drop k buffer)) = CENTRAL_DIRECTORY_END_MARKER"
    and "\<forall>j. i \<le> j \<and> j < k \<longrightarrow> le32 (take 4 (drop j buffer)) \<noteq> CENTRAL_DIRECTORY_END_MARKER"
  shows "find_marker buffer i = Some k"
proof (cases "find_marker buffer i")
  case None
  from find_marker_None [OF None assms(1,2)] assms(3) show ?thesis by simp
next
  case (Some l)
  from find_marker_Some [OF Some] assms have "l = k" by (metis linorder_neqE_nat)
  with Some show ?thesis by simp
qed

subsection \<open>Archives the code lists completely\<close>

record zip_entry =
  ze_name :: "byte list"
  ze_extra :: "byte list"
  ze_comment :: "byte list"
  ze_misc :: "byte list"
  ze_attr :: "byte list"
  ze_csize :: u32
  ze_usize :: u32
  ze_disk :: u16
  ze_offset :: u32

definition entry_header :: "zip_entry \<Rightarrow> byte list" where
  "entry_header e = le32_bytes CENTRAL_DIRECTORY_HEADER_MARKER @ ze_misc e @ le32_bytes (ze_csize e) @ le32_bytes (ze_usize e) @
     le16_bytes (word_of_nat (length (ze_name e))) @ le16_bytes (word_of_nat (length (ze_extra e))) @
     le16_bytes (word_of_nat (length (ze_comment e))) @ le16_bytes (ze_disk e) @ ze_attr e @ le32_bytes (ze_offset e)"

definition zip_record :: "zip_entry \<Rightarrow> byte list" where
  "zip_record e = entry_header e @ ze_name e @ ze_extra e @ ze_comment e"

definition zip_entry_ok :: "zip_entry \<Rightarrow> bool" where
  "zip_entry_ok e \<longleftrightarrow> length (ze_misc e) = 16 \<and> length (ze_attr e) = 6 \<and> ze_name e \<noteq> [] \<and>
     length (ze_name e) < 2 ^ 16 \<and> length (ze_extra e) < 2 ^ 16 \<and> length (ze_comment e) < 2 ^ 16"

definition directory :: "zip_entry list \<Rightarrow> byte list" where
  "directory es = concat (map zip_record es)"

text \<open>The end record: the directory starts at offset \<open>at\<close>.\<close>

definition end_record :: "byte list \<Rightarrow> zip_entry list \<Rightarrow> nat \<Rightarrow> byte list" where
  "end_record disks es at = le32_bytes CENTRAL_DIRECTORY_END_MARKER @ disks @ le16_bytes (word_of_nat (length es)) @
     le32_bytes (word_of_nat (length (directory es))) @ le32_bytes (word_of_nat at) @ [0, 0]"

definition name_buffer :: "char \<Rightarrow> zip_entry \<Rightarrow> string" where
  "name_buffer junk e = strncpy (takeWhile (\<lambda>c. c \<noteq> NUL) (string_of_bytes (ze_name e))) (length (ze_name e)) @ [junk]"

definition zip_ok :: "zip \<Rightarrow> bool" where
  "zip_ok z \<longleftrightarrow> heap_ok (z_names z) \<and> heap_ok (z_node_heap z) \<and> distinct (z_files z) \<and>
     set (z_files z) \<subseteq> live (z_names z) \<and> set (z_nodes z) \<subseteq> live (z_node_heap z)"

text \<open>The nodes hold the pointers of the list of names, in its order.\<close>

definition zip_linked :: "zip \<Rightarrow> bool" where
  "zip_linked z \<longleftrightarrow> map (\<lambda>q. fileName (the (h_obj (z_node_heap z) q))) (z_nodes z) = z_files z"

definition listed :: "zip \<Rightarrow> string list" where
  "listed z = map (\<lambda>p. the (h_obj (z_names z) p)) (z_files z)"

lemma name_buffer_terminated:
  assumes "terminated (string_of_bytes (ze_name e))"
  shows "name_buffer junk e = string_of_bytes (ze_name e) @ [junk]"
proof -
  have "takeWhile (\<lambda>c. c \<noteq> NUL) (string_of_bytes (ze_name e)) = string_of_bytes (ze_name e)"
    using assms by (auto simp: takeWhile_eq_all_conv terminated_def)
  moreover have "length (string_of_bytes (ze_name e)) = length (ze_name e)" by (simp add: string_of_bytes_def)
  ultimately show ?thesis using strncpy_exact [of "string_of_bytes (ze_name e)"] by (simp only: name_buffer_def)
qed

lemma length_entry_header: "zip_entry_ok e \<Longrightarrow> length (entry_header e) = 46"
  by (simp add: entry_header_def zip_entry_ok_def)

lemma read_entry_header:
  assumes "zip_entry_ok e"
  shows "read_header (entry_header e) = \<lparr>dh_sig = CENTRAL_DIRECTORY_HEADER_MARKER, dh_compressedSize = ze_csize e,
    dh_uncompressedSize = ze_usize e, dh_fileNameLength = word_of_nat (length (ze_name e)),
    dh_extraFieldLength = word_of_nat (length (ze_extra e)), dh_fileCommentLength = word_of_nat (length (ze_comment e)),
    dh_startDiskNumber = ze_disk e, dh_fileHeaderOffset = ze_offset e\<rparr>"
proof -
  have m: "length (ze_misc e) = 16" "length (ze_attr e) = 6" using assms by (simp_all add: zip_entry_ok_def)
  show ?thesis by (simp add: read_header_def entry_header_def m)
qed

lemma read_end_record:
  assumes "length disks = 6"
  shows "read_end (end_record disks es at) = \<lparr>de_totalNum = word_of_nat (length es),
    de_size = word_of_nat (length (directory es)), de_offset = word_of_nat at\<rparr>"
  using assms by (simp add: read_end_def end_record_def)

definition add_entry :: "dir_header \<Rightarrow> char \<Rightarrow> zip_entry \<Rightarrow> zip \<Rightarrow> nat \<times> zip" where
  "add_entry dh junk e z =
     add_node dh (h_next (z_names z)) (z\<lparr>z_names := snd (h_new (z_names z) (name_buffer junk e))\<rparr>)"

lemma add_name_ok:
  assumes z: "zip_ok z" and at: "slice records at (length (ze_name e)) = ret (ze_name e)" and e: "ze_name e \<noteq> []"
    and z'_def: "z' = snd (add_entry dh junk e z)"
  shows "copy_name junk wild records at (length (ze_name e)) z =
      ret (h_next (z_names z), z\<lparr>z_names := snd (h_new (z_names z) (name_buffer junk e))\<rparr>)"
    and "zip_ok z'" "listed z' = listed z @ [name_buffer junk e]" "z_fd z' = z_fd z" "z_error z' = z_error z"
    "zip_linked z \<Longrightarrow> zip_linked z'"
proof -
  show "copy_name junk wild records at (length (ze_name e)) z =
      ret (h_next (z_names z), z\<lparr>z_names := snd (h_new (z_names z) (name_buffer junk e))\<rparr>)"
    using e at by (simp add: copy_name_def name_buffer_def h_new_def)
  let ?h = "snd (h_new (z_names z) (name_buffer junk e))" and ?p = "h_next (z_names z)"
  have hz: "heap_ok (z_names z)" "heap_ok (z_node_heap z)" using z by (simp_all add: zip_ok_def)
  have n1: "h_new (z_names z) (name_buffer junk e) = (?p, ?h)" by (simp add: h_new_def)
  note names = heap.new [OF hz(1) n1]
  have new: "?p \<notin> set (z_files z)" using z names by (auto simp: zip_ok_def)
  obtain q hn where hn: "add_node dh ?p (z\<lparr>z_names := ?h\<rparr>) =
      (q, z\<lparr>z_names := ?h, z_node_heap := hn, z_nodes := z_nodes z @ [q], z_files := z_files z @ [?p]\<rparr>)"
    "heap_ok hn" "live hn = insert q (live (z_node_heap z))" "q \<notin> live (z_node_heap z)"
    "\<exists>node. fileName node = ?p \<and> h_obj hn = (h_obj (z_node_heap z))(q \<mapsto> node)"
  proof -
    let ?node = "\<lparr>startingDisk = dh_startDiskNumber dh, offset = dh_fileHeaderOffset dh,
        compressedSize = dh_compressedSize dh, uncompressedSize = dh_uncompressedSize dh, fileName = ?p\<rparr>"
    obtain q hn where n2: "h_new (z_node_heap z) ?node = (q, hn)" by (cases "h_new (z_node_heap z) ?node")
    then have "h_obj hn = (h_obj (z_node_heap z))(q \<mapsto> ?node)" by (auto simp: h_new_def)
    with heap.new [OF hz(2) n2] n2 show ?thesis by (intro that [of q hn] exI [of _ ?node]) (auto simp: add_node_def)
  qed
  then have z': "z' = z\<lparr>z_names := ?h, z_node_heap := hn, z_nodes := z_nodes z @ [q], z_files := z_files z @ [?p]\<rparr>"
    by (simp add: z'_def add_entry_def)
  show "zip_ok z'" using z names hn new unfolding z' by (auto simp: zip_ok_def)
  have "listed z' = map (\<lambda>p. the (h_obj ?h p)) (z_files z) @ [name_buffer junk e]"
    by (simp add: z' listed_def h_new_def)
  moreover have "map (\<lambda>p. the (h_obj ?h p)) (z_files z) = listed z"
    using new by (auto simp: listed_def h_new_def)
  ultimately show "listed z' = listed z @ [name_buffer junk e]" by simp
  show "z_fd z' = z_fd z" "z_error z' = z_error z" by (simp_all add: z')
  show "zip_linked z'" if l: "zip_linked z"
  proof -
    have "q \<notin> set (z_nodes z)" using z hn(4) by (auto simp: zip_ok_def)
    moreover have "h_obj hn = (h_obj (z_node_heap z))(q := h_obj hn q)" "fileName (the (h_obj hn q)) = ?p"
      using hn(5) by auto
    ultimately have "map (\<lambda>r. fileName (the (h_obj hn r))) (z_nodes z) = map (\<lambda>r. fileName (the (h_obj (z_node_heap z) r))) (z_nodes z)"
      by (intro map_cong refl) (metis fun_upd_other)
    with l \<open>fileName (the (h_obj hn q)) = ?p\<close> show ?thesis by (simp add: zip_linked_def z')
  qed
qed

lemma extract_records_ok:
  assumes "zip_ok z" "\<forall>e \<in> set es. zip_entry_ok e" "records = pre @ directory es" "length records < 2 ^ 32"
  shows "\<exists>z'. extract_records junk wild records (word_of_nat (length records)) (length es) (word_of_nat (length pre)) node z
      = ret (0, z') \<and> zip_ok z' \<and> listed z' = listed z @ map (name_buffer junk) es \<and> z_fd z' = z_fd z \<and> z_error z' = z_error z \<and>
        (zip_linked z \<longrightarrow> zip_linked z')"
  using assms
proof (induction es arbitrary: pre node z)
  case Nil
  then show ?case by simp
next
  case (Cons e es)
  have e: "zip_entry_ok e" using Cons.prems(2) by simp
  have lens: "length (ze_name e) < 2 ^ 16" "length (ze_extra e) < 2 ^ 16" "length (ze_comment e) < 2 ^ 16" "ze_name e \<noteq> []"
    using e by (simp_all add: zip_entry_ok_def)
  define pre' where "pre' = pre @ zip_record e"
  have rec: "records = pre @ entry_header e @ ze_name e @ ze_extra e @ ze_comment e @ directory es"
    "records = pre' @ directory es"
    using Cons.prems(3) by (simp_all add: directory_def zip_record_def pre'_def)
  have lp: "length pre < 2 ^ 32" "length pre' \<le> length records" using Cons.prems(4) rec by auto
  have off: "unat (word_of_nat (length pre) :: u32) = length pre" using lp by (simp add: unat_of_nat)
  let ?dh = "read_header (entry_header e)"
  note dh = read_entry_header [OF e]
  have hdr: "slice records (length pre) 46 = ret (entry_header e)"
    by (simp add: rec(1) slice_def length_entry_header [OF e])
  have nm: "slice records (length pre + 46) (length (ze_name e)) = ret (ze_name e)"
    by (simp add: rec(1) slice_def length_entry_header [OF e])
  have nl: "unat (dh_fileNameLength ?dh) = length (ze_name e)" using lens by (simp add: dh unat_of_nat)
  have uc: "(ucast (word_of_nat n :: u16) :: u32) = word_of_nat n" if "n < 2 ^ 16" for n
    unfolding word_unat_eq_iff unsigned_ucast_eq using that by (simp add: unat_of_nat take_bit_eq_mod)
  have rs: "record_size ?dh = word_of_nat (length (zip_record e))"
    by (simp add: record_size_def dh uc [OF lens(1)] uc [OF lens(2)] uc [OF lens(3)] zip_record_def length_entry_header [OF e])
  have nx: "(word_of_nat (length pre) :: u32) + record_size ?dh = word_of_nat (length pre')"
    by (simp add: rs pre'_def)
  have le: "\<not> (word_of_nat (length pre') :: u32) > word_of_nat (length records)"
    using lp Cons.prems(4) by (simp add: word_less_nat_alt unat_of_nat)
  obtain q z1 where q: "add_entry ?dh junk e z = (q, z1)" by (metis prod.collapse)
  then have "z1 = snd (add_entry ?dh junk e z)" by simp
  note a = add_name_ok [OF Cons.prems(1) nm lens(4) this]
  have "extract_records junk wild records (word_of_nat (length records)) (length (e # es)) (word_of_nat (length pre)) node z =
    extract_records junk wild records (word_of_nat (length records)) (length es) (word_of_nat (length pre')) (Some q) z1"
    using le q unfolding add_entry_def
    by (simp add: off hdr Let_def nl a(1) nx) (simp add: dh)
  moreover from a(2-5) obtain z' where
    "extract_records junk wild records (word_of_nat (length records)) (length es) (word_of_nat (length pre')) (Some q) z1 = ret (0, z')"
    "zip_ok z'" "listed z' = listed z1 @ map (name_buffer junk) es" "z_fd z' = z_fd z1" "z_error z' = z_error z1"
    "zip_linked z1 \<longrightarrow> zip_linked z'"
    using Cons.IH [of z1 pre' "Some q"] Cons.prems(2,4) rec(2) by auto
  moreover note a(2-6)
  ultimately show ?case by auto
qed

subsection \<open>AnalyzeFile\<close>

lemma ResetData_ok:
  assumes "zip_ok z" "z_fd z = NoHandle \<or> z_fd z = OpenHandle"
  shows "\<exists>z'. ResetData z = ret z' \<and> zip_ok z' \<and> z_files z' = [] \<and> z_nodes z' = [] \<and> z_error z' = ZIP_NONE"
proof -
  from assms h_delete_all_ok [of "z_names z" "z_files z"] obtain h where
    "h_delete_all (z_names z) (z_files z) = ret h" "heap_ok h" by (auto simp: zip_ok_def)
  with assms show ?thesis by (auto simp: ResetData_def zip_ok_def fclose_def)
qed

lemma AnalyzeFile_lists:
  assumes z: "zip_ok z" "z_fd z = NoHandle \<or> z_fd z = OpenHandle"
    and es: "es \<noteq> []" "\<forall>e \<in> set es. zip_entry_ok e" "length es < 2 ^ 16" "length disks = 6"
    and size: "length locals + length (directory es) < 2 ^ 32"
    and c: "contents = locals @ directory es @ end_record disks es (length locals)"
    and mark: "find_marker (last_bytes contents) 0 = Some (length (last_bytes contents) - 22)"
    and fs: "fs fn = Some contents"
  shows "\<exists>z'. AnalyzeFile fs junk wild (Some fn) z = ret (True, z') \<and> zip_ok z' \<and>
    listed z' = map (name_buffer junk) es \<and> z_fd z' = ClosedHandle \<and> z_error z' = ZIP_NONE \<and> zip_linked z'"
proof -
  from ResetData_ok [OF z] obtain z1 where r: "ResetData z = ret z1" "zip_ok z1" "z_files z1 = []" "z_nodes z1 = []" by blast
  let ?rec = "end_record disks es (length locals)"
  have le: "length ?rec = 22" by (simp add: end_record_def es(4))
  have ne: "contents \<noteq> []" by (simp add: c end_record_def le32_bytes_def be32_bytes_def)
  have lc: "22 \<le> length contents" by (simp add: c le)
  have tail: "drop (length (last_bytes contents) - 22) (last_bytes contents) = ?rec"
  proof -
    have "drop (length (last_bytes contents) - 22) (last_bytes contents) = drop (length contents - 22) contents"
      using lc by (auto simp: last_bytes_def)
    then show ?thesis by (simp add: c le)
  qed
  let ?z2 = "z1\<lparr>z_fd := OpenHandle, z_error := ZIP_NONE\<rparr>"
  have f: "FindCentralDirectoryEnd contents (z1\<lparr>z_fd := OpenHandle\<rparr>) = (Some ?rec, ?z2)"
    using ne by (simp add: FindCentralDirectoryEnd_def mark tail)
  have z2: "zip_ok ?z2" "listed ?z2 = []" "zip_linked ?z2" using r by (simp_all add: zip_ok_def listed_def zip_linked_def)
  have dn: "0 < length (directory es)"
    using es(1,2) by (cases es) (auto simp: directory_def zip_record_def zip_entry_ok_def)
  have u: "unat (word_of_nat (length locals) :: u32) = length locals"
    "unat (word_of_nat (length (directory es)) :: u32) = length (directory es)"
    "unat (word_of_nat (length es) :: u16) = length es" using size es(3) by (simp_all add: unat_of_nat)
  have item: "read_item contents (length locals) (length (directory es)) = Some (directory es)"
    using dn by (simp add: read_item_def c)
  from extract_records_ok [OF z2(1) es(2), of "directory es" "[]" junk wild None] size obtain z3 where
    z3: "extract_records junk wild (directory es) (word_of_nat (length (directory es))) (length es) 0 None ?z2 = ret (0, z3)"
      "zip_ok z3" "listed z3 = map (name_buffer junk) es" "z_fd z3 = OpenHandle" "z_error z3 = ZIP_NONE" "zip_linked z3"
    using z2(2,3) by auto
  have ex: "ExtractCentralDirectoryListings junk wild contents (read_end ?rec) ?z2 = ret (0, z3)"
    using z3(1) by (simp add: ExtractCentralDirectoryListings_def read_end_record es(4) u item)
  have "AnalyzeFile fs junk wild (Some fn) z = ret (True, z3\<lparr>z_fd := ClosedHandle\<rparr>)"
    using ex le by (simp add: AnalyzeFile_def r(1) fs f slice_def fclose_def z3(4))
  with z3 show ?thesis by (auto simp: zip_ok_def listed_def zip_linked_def)
qed

text \<open>\<open>fd\<close> still points to the closed stream: the next \<open>ResetData\<close>, in the destructor, closes it again.\<close>

lemma destroy_after_analyze:
  assumes "zip_ok z" "z_fd z = ClosedHandle"
  shows "destroy_zip z = crash Dangling"
proof -
  from assms h_delete_all_ok [of "z_names z" "z_files z"] obtain h where
    "h_delete_all (z_names z) (z_files z) = ret h" by (auto simp: zip_ok_def)
  with assms show ?thesis by (simp add: destroy_zip_def ResetData_def fclose_def)
qed

lemma AnalyzeFile_closes:
  assumes "AnalyzeFile fs junk wild name z = ret (True, z')" shows "z_fd z' = ClosedHandle"
proof -
  have fc: "fclose h = ret h' \<Longrightarrow> h' = ClosedHandle" for h h' by (simp add: fclose_def split: handle.splits)
  from assms obtain fn z1 contents where fn: "name = Some fn" "ResetData z = ret z1" "fs fn = Some contents"
    by (auto simp: AnalyzeFile_def seq_eq_ret split: option.splits)
  obtain p z2 where f: "FindCentralDirectoryEnd contents (z1\<lparr>z_fd := OpenHandle\<rparr>) = (p, z2)" by force
  from assms show ?thesis
    by (cases p) (auto simp: AnalyzeFile_def fn f close_error_def seq_eq_ret dest: fc split: if_splits)
qed

text \<open>A directory that does not begin with a record: the uninitialised pointer \<open>node\<close> is tested.\<close>

lemma extract_records_no_record:
  assumes "46 \<le> length records" "le32 (take 4 records) \<noteq> CENTRAL_DIRECTORY_HEADER_MARKER" "0 < n"
  shows "extract_records junk wild records sz n 0 None z = crash Indeterminate"
proof -
  obtain k where "n = Suc k" using assms(3) by (cases n) auto
  with assms show ?thesis by (simp add: slice_def read_header_def Let_def traversal_error_def)
qed

subsection \<open>Extraction\<close>

text \<open>The commands that are run: those before the first that fails, and that one too unless the process could not be forked.\<close>

definition commands_run :: "(command \<Rightarrow> spawn_result) \<Rightarrow> command list \<Rightarrow> command list" where
  "commands_run spawn cs = (let d = takeWhile (\<lambda>c. spawn c = Spawned) cs in
     d @ (if d \<noteq> cs \<and> spawn (cs ! length d) = WaitFailed then [cs ! length d] else []))"

lemma takeWhile_all_eq: "xs = takeWhile P xs \<longleftrightarrow> (\<forall>x \<in> set xs. P x)"
  by (metis takeWhile_eq_all_conv)

lemma commands_run_simps [simp]:
  "commands_run spawn [] = []"
  "commands_run spawn (c # cs) = (case spawn c of Spawned \<Rightarrow> c # commands_run spawn cs | WaitFailed \<Rightarrow> [c] | ForkFailed \<Rightarrow> [])"
  by (simp_all add: commands_run_def Let_def takeWhile_all_eq split: spawn_result.split)

lemma commands_run_all: "list_all (\<lambda>c. spawn c = Spawned) cs \<Longrightarrow> commands_run spawn cs = cs"
  by (induction cs) simp_all

text \<open>A node whose name can be read.\<close>

definition node_reads :: "zip \<Rightarrow> nat \<Rightarrow> nat \<Rightarrow> string \<Rightarrow> bool" where
  "node_reads z q p name \<longleftrightarrow> terminated name \<and> h_get (z_names z) p = ret (name @ [NUL]) \<and>
     (\<exists>node. h_get (z_node_heap z) q = ret node \<and> fileName node = p)"

lemma extract_matching_reads:
  assumes "\<forall>(q, p, n) \<in> set xs. node_reads z q p n"
  shows "extract_matching spawn archive sec z (map fst xs) found cmds =
    (let ys = filter (\<lambda>x. strcasestr (snd (snd x)) sec) xs; cs = map (\<lambda>x. unzip_one archive (snd (snd x))) ys in
     ret (if list_all (\<lambda>c. spawn c = Spawned) cs then Some (found @ map (fst \<circ> snd) ys) else None, cmds @ commands_run spawn cs))"
  using assms
proof (induction xs arbitrary: found cmds)
  case (Cons x xs)
  obtain q p n where x: "x = (q, p, n)" by (cases x)
  with Cons.prems obtain node where "h_get (z_node_heap z) q = ret node" "fileName node = p" "h_get (z_names z) p = ret (n @ [NUL])"
    "terminated n" by (auto simp: node_reads_def)
  moreover from Cons.prems have "\<forall>(q, p, n) \<in> set xs. node_reads z q p n" by simp
  note Cons.IH [OF this]
  ultimately show ?case by (simp add: x cstr_terminated Let_def split: spawn_result.split)
qed simp

text \<open>In an archive that has been listed, the nodes and the names go together.\<close>

lemma linked_nodes:
  assumes z: "zip_ok z" "zip_linked z" and i: "i < length (z_nodes z)"
  shows "length (z_nodes z) = length (z_files z)" "length (listed z) = length (z_files z)"
    "\<exists>node. h_get (z_node_heap z) (z_nodes z ! i) = ret node \<and> fileName node = z_files z ! i"
    "h_get (z_names z) (z_files z ! i) = ret (listed z ! i)"
proof -
  have l: "map (\<lambda>q. fileName (the (h_obj (z_node_heap z) q))) (z_nodes z) = z_files z" using z(2) by (simp add: zip_linked_def)
  then show len: "length (z_nodes z) = length (z_files z)" by (metis length_map)
  show "length (listed z) = length (z_files z)" by (simp add: listed_def)
  have "z_nodes z ! i \<in> live (z_node_heap z)" using z(1) nth_mem [OF i] by (auto simp: zip_ok_def)
  moreover have "fileName (the (h_obj (z_node_heap z) (z_nodes z ! i))) = z_files z ! i" using l i by (metis nth_map)
  ultimately show "\<exists>node. h_get (z_node_heap z) (z_nodes z ! i) = ret node \<and> fileName node = z_files z ! i"
    using z(1) by (auto simp: zip_ok_def heap_ok_def live_def h_get_def)
  have "z_files z ! i \<in> live (z_names z)" using z(1) i len nth_mem [of i "z_files z"] by (auto simp: zip_ok_def)
  then show "h_get (z_names z) (z_files z ! i) = ret (listed z ! i)"
    using z(1) i len by (auto simp: zip_ok_def heap_ok_def live_def h_get_def listed_def)
qed

lemma ExtractFiles_listed:
  assumes z: "zip_ok z" "zip_linked z" and l: "listed z = map (\<lambda>n. n @ [NUL]) names" and t: "\<forall>n \<in> set names. terminated n"
  shows "ExtractFiles spawn (Some archive) (Some sec) z =
    (let cs = map (unzip_one archive) (filter (\<lambda>n. strcasestr n sec) names) in
     if list_all (\<lambda>c. spawn c = Spawned) cs
     then ret (Some (map snd (filter (\<lambda>np. strcasestr (fst np) sec) (zip names (z_files z)))), commands_run spawn cs, z\<lparr>z_error := ZIP_NONE\<rparr>)
     else ret (None, commands_run spawn cs, z\<lparr>z_error := ZIP_SYSTEM\<rparr>))"
proof -
  define xs where "xs = zip (z_nodes z) (zip (z_files z) names)"
  have ln: "length names = length (z_files z)" "length (z_nodes z) = length (z_files z)"
    using l z(2) by (metis length_map listed_def, metis length_map zip_linked_def)
  have "node_reads z q p n" if "(q, p, n) \<in> set xs" for q p n
  proof -
    from that obtain i where i: "i < length (z_nodes z)" "q = z_nodes z ! i" "p = z_files z ! i" "n = names ! i"
      using ln by (auto simp: xs_def set_zip)
    have "listed z ! i = n @ [NUL]" "n \<in> set names" using l i ln by simp_all
    with linked_nodes [OF z i(1)] i t show ?thesis by (auto simp: node_reads_def)
  qed
  then have reads: "\<forall>(q, p, n) \<in> set xs. node_reads z q p n" by auto
  have "map snd xs = zip (z_files z) names" using ln by (simp add: xs_def)
  then have "map snd (map snd xs) = names" using ln by simp
  then have xs: "map fst xs = z_nodes z" "map (snd \<circ> snd) xs = names" using ln by (simp_all only: xs_def map_map) simp
  have names: "map (snd \<circ> snd) (filter (\<lambda>x. strcasestr (snd (snd x)) sec) xs) = filter (\<lambda>n. strcasestr n sec) names"
    unfolding xs(2) [symmetric] by (simp add: filter_map comp_def)
  have "zip names (z_files z) = map (\<lambda>x. (snd (snd x), fst (snd x))) xs"
    using ln by (intro nth_equalityI) (simp_all add: xs_def)
  then have files: "map (fst \<circ> snd) (filter (\<lambda>x. strcasestr (snd (snd x)) sec) xs) =
      map snd (filter (\<lambda>np. strcasestr (fst np) sec) (zip names (z_files z)))"
    by (simp add: filter_map comp_def)
  have cs: "map (\<lambda>x. unzip_one archive (snd (snd x))) (filter (\<lambda>x. strcasestr (snd (snd x)) sec) xs) =
      map (unzip_one archive) (filter (\<lambda>n. strcasestr n sec) names)"
    using arg_cong [OF names, of "map (unzip_one archive)"] by (simp add: comp_def)
  show ?thesis
    using extract_matching_reads [OF reads, of spawn archive sec "[]" "[]"]
    by (simp add: ExtractFiles_def xs(1) cs files Let_def)
qed

text \<open>Without the terminator the first name is read past the end of its buffer.\<close>

lemma ExtractFiles_overread:
  assumes z: "zip_ok z" "zip_linked z" and l: "listed z = (n @ [c]) # rest" and n: "terminated n" "c \<noteq> NUL"
  shows "ExtractFiles spawn (Some archive) (Some sec) z = crash OutOfBounds"
proof -
  have "length (z_nodes z) = length (listed z)" using z(2) by (metis length_map listed_def zip_linked_def)
  with l have i: "0 < length (z_nodes z)" by simp
  then obtain q qs where q: "z_nodes z = q # qs" by (cases "z_nodes z") auto
  from linked_nodes(3,4) [OF z i] l q obtain node where
    "h_get (z_node_heap z) q = ret node" "h_get (z_names z) (fileName node) = ret (n @ [c])" by auto
  then show ?thesis using q n by (simp add: ExtractFiles_def cstr_unterminated)
qed

definition sample_entry :: zip_entry where
  "sample_entry = \<lparr>ze_name = [97], ze_extra = [], ze_comment = [], ze_misc = replicate 16 0, ze_attr = replicate 6 0,
     ze_csize = 0, ze_usize = 0, ze_disk = 0, ze_offset = 0\<rparr>"

definition sample_zip :: "byte list" where
  "sample_zip = directory [sample_entry] @ end_record (replicate 6 0) [sample_entry] 0"

lemma sample_zip_facts:
  "zip_ok new_zip" "zip_entry_ok sample_entry" "name_buffer CHR ''!'' sample_entry = ''a!''"
  "length (directory [sample_entry]) < 2 ^ 32"
  "find_marker (last_bytes sample_zip) 0 = Some (length (last_bytes sample_zip) - 22)"
proof -
  show "zip_ok new_zip" by (simp add: zip_ok_def new_zip_def)
  show e: "zip_entry_ok sample_entry" by (simp add: zip_entry_ok_def sample_entry_def)
  have "char_of (of_char CHR ''a'' :: nat) = CHR ''a''" by (rule char_of_char)
  then have c: "char_of (97 :: nat) = CHR ''a''" by simp
  show "name_buffer CHR ''!'' sample_entry = ''a!''"
    by (simp add: c name_buffer_def sample_entry_def strncpy_def string_of_bytes_def)
  show "length (directory [sample_entry]) < 2 ^ 32"
    using length_entry_header [OF e] by (simp add: directory_def zip_record_def) (simp add: sample_entry_def)
  have z: "sample_zip = [80, 75, 1, 2] @ replicate 24 0 @ [1, 0] @ replicate 16 0 @ [97] @ [80, 75, 5, 6] @ replicate 6 0 @
    [1, 0, 47, 0, 0, 0, 0, 0, 0, 0, 0, 0]" by code_simp
  have m: "le32_bytes CENTRAL_DIRECTORY_END_MARKER = [80, 75, 5, 6]" by code_simp
  have r: "replicate 2 (0 :: byte) = [0, 0]" "replicate 3 (0 :: byte) = [0, 0, 0]" "replicate 4 (0 :: byte) = [0, 0, 0, 0]"
    by (simp_all add: eval_nat_numeral)
  show "find_marker (last_bytes sample_zip) 0 = Some (length (last_bytes sample_zip) - 22)"
    by (simp add: last_bytes_def z find_marker.simps le32_eq m r)
qed

text \<open>A stream that has been closed is closed again by the destructor, whatever else the object holds.\<close>

lemma destroy_closed: "z_fd z = ClosedHandle \<Longrightarrow> destroy_zip z \<noteq> ret z'"
  by (auto simp: destroy_zip_def ResetData_def seq_eq_ret fclose_def)

lemma AnalyzeFile_no_archive:
  assumes "fs fn = Some bs" "bs \<noteq> []" "find_marker (last_bytes bs) 0 = None"
  shows "AnalyzeFile fs junk wild (Some fn) new_zip = ret (False, new_zip\<lparr>z_error := ZIP_NOT_A_ZIP_FILE\<rparr>)"
  using assms by (simp add: AnalyzeFile_def ResetData_def new_zip_def FindCentralDirectoryEnd_def close_error_def fclose_def)

lemma destroy_new_zip: "destroy_zip (new_zip\<lparr>z_error := e\<rparr>) = ret new_zip"
  by (simp add: destroy_zip_def ResetData_def new_zip_def)

lemma sample_zip_analyzed:
  "\<exists>z'. AnalyzeFile (\<lambda>f. Some sample_zip) CHR ''!'' 0 (Some ''a.zip'') new_zip = ret (True, z') \<and> zip_ok z'"
  using AnalyzeFile_lists [of new_zip "[sample_entry]" "replicate 6 0" "[]" sample_zip "\<lambda>f. Some sample_zip" "''a.zip''"
    "CHR ''!''" 0] sample_zip_facts
  by (auto simp: sample_zip_def new_zip_def)

text \<open>C9: an archive whose first end marker in the last 1024 bytes is that of its end record is listed
  completely, in order: one buffer for each entry of the directory, which holds the characters of the name and, in the place of the
  terminator, one character that is not written. The stream has been closed, but the pointer to it is kept.\<close>

theorem AnalyzeFile_ok:
  assumes z: "zip_ok z" "z_fd z = NoHandle \<or> z_fd z = OpenHandle"
    and es: "es \<noteq> []" "\<forall>e \<in> set es. zip_entry_ok e" "length es < 2 ^ 16" "length disks = 6"
    and size: "length locals + length (directory es) < 2 ^ 32"
    and c: "contents = locals @ directory es @ end_record disks es (length locals)"
    and mark: "find_marker (last_bytes contents) 0 = Some (length (last_bytes contents) - 22)"
    and fs: "fs fn = Some contents"
  shows "\<exists>z'. AnalyzeFile fs junk wild (Some fn) z = ret (True, z') \<and> zip_ok z' \<and>
    listed z' = map (name_buffer junk) es \<and> z_fd z' = ClosedHandle \<and> z_error z' = ZIP_NONE"
  using AnalyzeFile_lists [where fs = fs and fn = fn, OF assms] by blast

theorem AnalyzeFile_ok_witness:
  "\<exists>z'. AnalyzeFile (\<lambda>f. Some sample_zip) CHR ''!'' 0 (Some ''a.zip'') new_zip = ret (True, z') \<and> zip_ok z' \<and>
    listed z' = [''a!''] \<and> z_fd z' = ClosedHandle \<and> z_error z' = ZIP_NONE"
  using AnalyzeFile_ok [of new_zip "[sample_entry]" "replicate 6 0" "[]" sample_zip "\<lambda>f. Some sample_zip" "''a.zip''"
    "CHR ''!''" 0] sample_zip_facts
  by (simp add: sample_zip_def new_zip_def)

text \<open>The search for the end record finds the first end marker in the last 1024 bytes of the file, and reports a
  file that is not an archive exactly when there is none.\<close>

theorem FindCentralDirectoryEnd_first:
  assumes "contents \<noteq> []"
  shows "(\<exists>k. FindCentralDirectoryEnd contents z = (Some (drop k (last_bytes contents)), z\<lparr>z_error := ZIP_NONE\<rparr>) \<and>
      k + 3 < length (last_bytes contents) \<and>
      le32 (take 4 (drop k (last_bytes contents))) = CENTRAL_DIRECTORY_END_MARKER \<and>
      (\<forall>j < k. le32 (take 4 (drop j (last_bytes contents))) \<noteq> CENTRAL_DIRECTORY_END_MARKER)) \<or>
    (FindCentralDirectoryEnd contents z = (None, z\<lparr>z_error := ZIP_NOT_A_ZIP_FILE\<rparr>) \<and>
      (\<forall>k. k + 3 < length (last_bytes contents) \<longrightarrow>
        le32 (take 4 (drop k (last_bytes contents))) \<noteq> CENTRAL_DIRECTORY_END_MARKER))"
proof (cases "find_marker (last_bytes contents) 0")
  case None
  from find_marker_None [OF None] assms None show ?thesis by (simp add: FindCentralDirectoryEnd_def)
next
  case (Some k)
  from find_marker_Some [OF Some] assms Some show ?thesis by (intro disjI1 exI [of _ k]) (simp add: FindCentralDirectoryEnd_def)
qed

theorem FindCentralDirectoryEnd_first_witness:
  "FindCentralDirectoryEnd [1, 2, 3] new_zip = (None, new_zip\<lparr>z_error := ZIP_NOT_A_ZIP_FILE\<rparr>)"
  using FindCentralDirectoryEnd_first [of "[1, 2, 3]" new_zip] by (simp add: last_bytes_def)

text \<open>After every successful \<open>AnalyzeFile\<close> the object holds a stream that has been closed, and its destructor
  closes it again.\<close>

theorem AnalyzeFile_double_close:
  assumes "AnalyzeFile fs junk wild name z = ret (True, z')" "zip_ok z'"
  shows "destroy_zip z' = crash Dangling"
  using destroy_after_analyze [OF assms(2) AnalyzeFile_closes [OF assms(1)]] .

theorem AnalyzeFile_double_close_witness:
  "\<exists>z'. AnalyzeFile (\<lambda>f. Some sample_zip) CHR ''!'' 0 (Some ''a.zip'') new_zip = ret (True, z') \<and>
    destroy_zip z' = crash Dangling"
  using sample_zip_analyzed AnalyzeFile_double_close by blast

text \<open>C30: given a well-formed archive with its section name, when the byte behind each name happens to be zero, \<open>ExtractFiles\<close> runs the extraction
  command for exactly the files whose names contain the section name, ignoring case, in their order, up to the first that fails;
  when none does it returns the pointers to their names, and a null pointer otherwise. When that byte is not zero, the first name has no
  terminator and is read past its end.\<close>

theorem ExtractFiles_selects:
  assumes z: "zip_ok z0" "z_fd z0 = NoHandle \<or> z_fd z0 = OpenHandle"
    and es: "es \<noteq> []" "\<forall>e \<in> set es. zip_entry_ok e \<and> terminated (string_of_bytes (ze_name e))" "length es < 2 ^ 16" "length disks = 6"
    and size: "length locals + length (directory es) < 2 ^ 32"
    and c: "contents = locals @ directory es @ end_record disks es (length locals)"
    and mark: "find_marker (last_bytes contents) 0 = Some (length (last_bytes contents) - 22)"
    and fs: "fs fn = Some contents"
  shows "\<exists>z. AnalyzeFile fs junk wild (Some fn) z0 = ret (True, z) \<and> ExtractFiles spawn (Some fn) (Some sec) z =
    (if junk = NUL then
       let names = map (\<lambda>e. string_of_bytes (ze_name e)) es; cs = map (unzip_one fn) (filter (\<lambda>n. strcasestr n sec) names) in
       if list_all (\<lambda>c. spawn c = Spawned) cs
       then ret (Some (map snd (filter (\<lambda>np. strcasestr (fst np) sec) (zip names (z_files z)))), cs, z\<lparr>z_error := ZIP_NONE\<rparr>)
       else ret (None, commands_run spawn cs, z\<lparr>z_error := ZIP_SYSTEM\<rparr>)
     else crash OutOfBounds)"
proof -
  have ok: "\<forall>e \<in> set es. zip_entry_ok e" using es(2) by blast
  from AnalyzeFile_lists [where fs = fs and fn = fn, OF z es(1) ok es(3,4) size c mark fs] obtain z1 where
    z1: "AnalyzeFile fs junk wild (Some fn) z0 = ret (True, z1)" "zip_ok z1" "zip_linked z1" "listed z1 = map (name_buffer junk) es" by blast
  have "name_buffer junk e = string_of_bytes (ze_name e) @ [junk]" if "e \<in> set es" for e
    using name_buffer_terminated es(2) that by blast
  then have l: "listed z1 = map (\<lambda>n. n @ [junk]) (map (\<lambda>e. string_of_bytes (ze_name e)) es)" using z1(4) by simp
  show ?thesis
  proof (cases "junk = NUL")
    case True
    with ExtractFiles_listed [OF z1(2,3), of "map (\<lambda>e. string_of_bytes (ze_name e)) es"] l es(2) z1(1) show ?thesis
      by (auto simp: Let_def commands_run_all)
  next
    case False
    obtain e es' where "es = e # es'" using es(1) by (cases es) auto
    with ExtractFiles_overread [OF z1(2,3), of "string_of_bytes (ze_name e)" junk] l es(2) False z1(1) show ?thesis by auto
  qed
qed

theorem ExtractFiles_selects_witness:
  "\<exists>z p. AnalyzeFile (\<lambda>f. Some sample_zip) NUL 0 (Some ''a.zip'') new_zip = ret (True, z) \<and> z_files z = [p] \<and>
    ExtractFiles (\<lambda>c. Spawned) (Some ''a.zip'') (Some ''A'') z =
      ret (Some [p], [[''unzip'', ''-o'', ''-q'', ''a.zip'', ''a'']], z\<lparr>z_error := ZIP_NONE\<rparr>)"
proof -
  have n: "string_of_bytes (ze_name sample_entry) = ''a''" "terminated ''a''"
    unfolding sample_entry_def by code_simp (simp add: terminated_def)
  have m: "strcasestr ''a'' ''A''" by code_simp
  have c: "sample_zip = [] @ directory [sample_entry] @ end_record (replicate 6 0) [sample_entry] (length ([] :: byte list))"
    by (simp only: sample_zip_def append_Nil list.size(3))
  have ok: "\<forall>e \<in> set [sample_entry]. zip_entry_ok e" "\<forall>e \<in> set [sample_entry]. zip_entry_ok e \<and> terminated (string_of_bytes (ze_name e))"
    using sample_zip_facts(2) n by simp_all
  have h: "z_fd new_zip = NoHandle \<or> z_fd new_zip = OpenHandle" "[sample_entry] \<noteq> []" "length [sample_entry] < 2 ^ 16"
    "length (replicate 6 (0 :: byte)) = 6" "length ([] :: byte list) + length (directory [sample_entry]) < 2 ^ 32"
    using sample_zip_facts(4) by (simp_all add: new_zip_def)
  from ExtractFiles_selects [where fs = "\<lambda>f. Some sample_zip" and fn = "''a.zip''",
      OF sample_zip_facts(1) h(1,2) ok(2) h(3-5) c sample_zip_facts(5) refl, of NUL 0 "\<lambda>c. Spawned" "''A''"]
  obtain z where z: "AnalyzeFile (\<lambda>f. Some sample_zip) NUL 0 (Some ''a.zip'') new_zip = ret (True, z)"
    "ExtractFiles (\<lambda>c. Spawned) (Some ''a.zip'') (Some ''A'') z =
      ret (Some (map snd (filter (\<lambda>np. strcasestr (fst np) ''A'') (zip [''a''] (z_files z)))), [unzip_one ''a.zip'' ''a''], z\<lparr>z_error := ZIP_NONE\<rparr>)"
    by (auto simp: n m)
  have "\<exists>z'. AnalyzeFile (\<lambda>f. Some sample_zip) NUL 0 (Some ''a.zip'') new_zip = ret (True, z') \<and>
      listed z' = map (name_buffer NUL) [sample_entry]"
    using AnalyzeFile_lists [where fs = "\<lambda>f. Some sample_zip" and fn = "''a.zip''",
      OF sample_zip_facts(1) h(1,2) ok(1) h(3-5) c sample_zip_facts(5) refl, of NUL 0]
    by blast
  with z(1) have "length (z_files z) = 1" by (auto simp: listed_def dest: arg_cong [where f = length])
  then obtain p where "z_files z = [p]" by (auto simp: length_Suc_conv)
  with z m show ?thesis by (auto simp: unzip_one_def)
qed

subsection \<open>Histories of an object\<close>

datatype zip_call =
    AnalyzeFile_call "string \<Rightarrow> byte list option" char nat "string option"
  | ExtractFiles_call "command \<Rightarrow> spawn_result" "string option" "string option"
  | ExtractAllFiles_call "command \<Rightarrow> spawn_result" "string option"

datatype zip_result = Analyzed bool | Extracted "nat list option" "command list" | AllExtracted int "command list"

fun zip_run :: "zip_call \<Rightarrow> zip \<Rightarrow> (zip_result \<times> zip) exec" where
  "zip_run (AnalyzeFile_call fs junk wild name) z = seq (AnalyzeFile fs junk wild name z) (\<lambda>(found, z). ret (Analyzed found, z))"
| "zip_run (ExtractFiles_call spawn a sec) z = seq (ExtractFiles spawn a sec z) (\<lambda>(fs, cmds, z). ret (Extracted fs cmds, z))"
| "zip_run (ExtractAllFiles_call spawn a) z = (case ExtractAllFiles spawn a z of (rc, cmds, z) \<Rightarrow> ret (AllExtracted rc cmds, z))"

text \<open>The stream of the object: \<open>False\<close> when the pointer is null, \<open>True\<close> when it points to a stream that has been closed.\<close>

fun opens :: "zip_call \<Rightarrow> bool" where
  "opens (AnalyzeFile_call fs junk wild name) = (name \<noteq> None)"
| "opens c = False"

fun stream_moves :: "bool \<Rightarrow> zip_call \<Rightarrow> zip_result \<Rightarrow> bool option" where
  "stream_moves False c r = Some (opens c \<and> r = Analyzed True)"
| "stream_moves True c r = (if opens c then None else Some True)"

lemma stream_moves_opens: "\<not> opens c \<Longrightarrow> stream_moves closed c r = Some closed"
  "opens c \<Longrightarrow> stream_moves closed c r = (if closed then None else Some (r = Analyzed True))"
  by (cases closed; simp)+

definition stream_ok :: "zip \<Rightarrow> bool" where
  "stream_ok z \<longleftrightarrow> z_fd z \<noteq> OpenHandle"

definition stream_closed :: "zip \<Rightarrow> bool" where
  "stream_closed z \<longleftrightarrow> z_fd z = ClosedHandle"

lemma ResetData_stream: "ResetData z = ret z' \<Longrightarrow> stream_ok z \<Longrightarrow> z_fd z = NoHandle"
  by (cases "z_fd z") (auto simp: ResetData_def seq_eq_ret fclose_def stream_ok_def split: if_splits)

lemma AnalyzeFile_fails:
  assumes "AnalyzeFile fs junk wild (Some fn) z = ret (False, z')" shows "z_fd z' = NoHandle"
proof -
  from assms obtain z1 where r: "ResetData z = ret z1" by (auto simp: AnalyzeFile_def seq_eq_ret)
  obtain p z2 where f: "FindCentralDirectoryEnd (the (fs fn)) (z1\<lparr>z_fd := OpenHandle\<rparr>) = (p, z2)" by force
  from assms f show ?thesis
    by (cases "fs fn"; cases p) (auto simp: AnalyzeFile_def r close_error_def seq_eq_ret split: if_splits)
qed

lemma AnalyzeFile_stream:
  assumes "stream_ok z" "AnalyzeFile fs junk wild (Some fn) z = ret (found, z')"
  shows "\<not> stream_closed z" "stream_ok z'" "stream_closed z' \<longleftrightarrow> found"
proof -
  from assms(2) obtain z1 where "ResetData z = ret z1" by (auto simp: AnalyzeFile_def seq_eq_ret)
  from ResetData_stream [OF this assms(1)] show "\<not> stream_closed z" by (simp add: stream_closed_def)
  show "stream_ok z'" "stream_closed z' \<longleftrightarrow> found"
    using assms(2) AnalyzeFile_closes [of fs junk wild "Some fn" z z'] AnalyzeFile_fails [of fs junk wild fn z z']
    by (cases found; simp add: stream_ok_def stream_closed_def)+
qed

lemma extraction_stream:
  "ExtractFiles spawn a sec z = ret (fs, cmds, z') \<Longrightarrow> z_fd z' = z_fd z"
  "ExtractAllFiles spawn a z = (rc, cmds, z') \<Longrightarrow> z_fd z' = z_fd z"
  by (auto simp: ExtractFiles_def ExtractAllFiles_def Let_def seq_eq_ret split: option.splits spawn_result.splits)

interpretation zip_class: automaton_class zip_run stream_ok stream_closed stream_moves
proof (unfold_locales, goal_cases)
  case (1 z c r z')
  then show ?case
  proof (cases c)
    case (AnalyzeFile_call fs junk wild name)
    with 1 show ?thesis
      by (cases name) (auto simp: seq_eq_ret AnalyzeFile_def [of _ _ _ None] stream_ok_def dest: AnalyzeFile_stream(2) [unfolded stream_ok_def])
  qed (auto simp: seq_eq_ret stream_ok_def dest: extraction_stream split: prod.splits)
next
  case (2 z c r z')
  show ?case
  proof (cases "opens c")
    case True
    then obtain fs junk wild fn where c: "c = AnalyzeFile_call fs junk wild (Some fn)" by (cases c) auto
    with 2 obtain found where "AnalyzeFile fs junk wild (Some fn) z = ret (found, z')" "r = Analyzed found" by (auto simp: seq_eq_ret)
    with AnalyzeFile_stream [OF 2(1) this(1)] c show ?thesis by (simp add: stream_moves_opens)
  next
    case False
    with 2 have "z_fd z' = z_fd z"
      by (cases c) (auto simp: seq_eq_ret AnalyzeFile_def [of _ _ _ None] dest: extraction_stream split: prod.splits)
    with False show ?thesis by (simp add: stream_moves_opens stream_closed_def)
  qed
qed

lemma new_zip_stream: "stream_ok new_zip" "\<not> stream_closed new_zip"
  by (simp_all add: stream_ok_def stream_closed_def new_zip_def)

text \<open>A run of the automaton has one successful analysis at most, and opens no file after it.\<close>

lemma stream_moves_closed: "moves_all stream_moves True tr = Some q \<Longrightarrow> q \<and> (\<forall>e \<in> set tr. \<not> opens (fst e))"
proof (induction tr)
  case (Cons e tr)
  then show ?case by (cases e) (auto simp: split: if_splits)
qed simp

definition analyzes :: "zip_call \<times> zip_result \<Rightarrow> bool" where
  "analyzes e \<longleftrightarrow> opens (fst e) \<and> snd e = Analyzed True"

lemma stream_moves_open: "moves_all stream_moves False tr = Some q \<Longrightarrow>
  if q then \<exists>pre e post. tr = pre @ e # post \<and> (\<forall>e' \<in> set pre. \<not> analyzes e') \<and> analyzes e \<and> (\<forall>e' \<in> set post. \<not> opens (fst e'))
  else \<forall>e' \<in> set tr. \<not> analyzes e'"
proof (induction tr)
  case (Cons e tr)
  obtain c r where e: "e = (c, r)" by (cases e)
  show ?case
  proof (cases "analyzes e")
    case True
    with Cons.prems have "moves_all stream_moves True tr = Some q" by (simp add: e analyzes_def)
    from stream_moves_closed [OF this] have q: "q" "\<forall>e' \<in> set tr. \<not> opens (fst e')" by simp_all
    have "\<exists>pre e' post. e # tr = pre @ e' # post \<and> (\<forall>x \<in> set pre. \<not> analyzes x) \<and> analyzes e' \<and> (\<forall>x \<in> set post. \<not> opens (fst x))"
      using True q(2) by (intro exI [of _ "[]"] exI [of _ e] exI [of _ tr]) simp
    with q(1) show ?thesis by simp
  next
    case False
    with Cons.prems have "moves_all stream_moves False tr = Some q" by (auto simp: e analyzes_def split: if_splits)
    from Cons.IH [OF this] False show ?thesis
    proof (cases q)
      case True
      with Cons.IH [OF \<open>moves_all stream_moves False tr = Some q\<close>] obtain pre e2 post where
        "tr = pre @ e2 # post" "\<forall>e' \<in> set pre. \<not> analyzes e'" "analyzes e2" "\<forall>e' \<in> set post. \<not> opens (fst e')" by auto
      with False have "\<exists>pre e' post. e # tr = pre @ e' # post \<and> (\<forall>x \<in> set pre. \<not> analyzes x) \<and> analyzes e' \<and>
          (\<forall>x \<in> set post. \<not> opens (fst x))"
        by (intro exI [of _ "e # pre"] exI [of _ e2] exI [of _ post]) simp
      with True show ?thesis by simp
    qed auto
  qed
qed simp

text \<open>C38: in every history of a new object, at most one analysis of a file succeeds, and no file is opened after it; the
  object then holds a closed stream, and its destructor does not return. Without such an analysis the pointer is null.\<close>

theorem zip_histories:
  assumes "history zip_run new_zip tr z"
  shows "(z_fd z = NoHandle \<and> (\<forall>e \<in> set tr. \<not> analyzes e)) \<or>
    (z_fd z = ClosedHandle \<and> (\<forall>z'. destroy_zip z \<noteq> ret z') \<and> (\<exists>pre e post. tr = pre @ e # post \<and>
      (\<forall>e' \<in> set pre. \<not> analyzes e') \<and> analyzes e \<and> (\<forall>e' \<in> set post. \<not> opens (fst e'))))"
proof -
  have m: "moves_all stream_moves False tr = Some (stream_closed z)" "stream_ok z"
    using zip_class.history_phase [OF assms new_zip_stream(1)] zip_class.history_inv [OF assms new_zip_stream(1)] new_zip_stream(2) by simp_all
  note tr = stream_moves_open [OF m(1)]
  show ?thesis
  proof (cases "stream_closed z")
    case True
    with tr destroy_closed [of z] show ?thesis by (simp add: stream_closed_def)
  next
    case False
    with tr m(2) show ?thesis by (cases "z_fd z") (auto simp: stream_closed_def stream_ok_def)
  qed
qed

theorem zip_histories_witness:
  "\<exists>z. history zip_run new_zip [(AnalyzeFile_call (\<lambda>f. Some sample_zip) CHR ''!'' 0 (Some ''a.zip''), Analyzed True)] z \<and>
    z_fd z = ClosedHandle \<and> (\<forall>z'. destroy_zip z \<noteq> ret z')"
proof -
  from sample_zip_analyzed obtain z where
    "history zip_run new_zip [(AnalyzeFile_call (\<lambda>f. Some sample_zip) CHR ''!'' 0 (Some ''a.zip''), Analyzed True)] z" by auto
  from zip_histories [OF this] this show ?thesis by (intro exI [of _ z]) (auto simp: analyzes_def)
qed

end
