(* ===== verification/Html_Tag.thy ===== *)
theory Html_Tag imports Cstring begin

text \<open>
  \<open>IMG3_HtmlTag\<close> (src/src/html/IMG3_HtmlTag.cpp): the value, attributes and data of one tag, copied out of the
  page. The page is one block of characters \<open>mem\<close>, a pointer into it an offset. The buffers a tag owns are kept as
  blocks, terminator and indeterminate rest included.
\<close>

datatype TagType = OPENING_TAG | CLOSING_TAG | COMPLETE_TAG | UNDEFINED_TAG

datatype tag_error = TAG_TOO_LONG | TAG_DATA_TOO_LONG | TAG_UNDEFINED | TAG_INVALID_ATTRIBUTE

abbreviation MAX_TAG_LENGTH :: nat where "MAX_TAG_LENGTH \<equiv> 1028"
abbreviation MAX_TAG_VALUE_LENGTH :: nat where "MAX_TAG_VALUE_LENGTH \<equiv> 128"
abbreviation MAX_TAG_ATTRS_LENGTH :: nat where "MAX_TAG_ATTRS_LENGTH \<equiv> 900"
abbreviation MAX_TAG_DATA_LENGTH :: nat where "MAX_TAG_DATA_LENGTH \<equiv> 1048576"

text \<open>
  \<open>tag\<close> and \<open>tag_data\<close> are null or a block; \<open>tagAddress\<close> and \<open>tag_error\<close> are not initialised by the
  constructor, which is \<open>None\<close>.
\<close>

record html_tag =
  tag :: "string option"
  attrs :: "(string \<times> string) list"
  tag_data :: "string option"
  tag_type :: TagType
  tagAddress :: "nat option"
  tag_error :: "tag_error option"

definition new_tag :: html_tag where
  "new_tag = \<lparr>tag = None, attrs = [], tag_data = None, tag_type = UNDEFINED_TAG, tagAddress = None, tag_error = None\<rparr>"

text \<open>The blocks the destructor releases, in its order.\<close>

definition destroy_tag :: "html_tag \<Rightarrow> string list" where
  "destroy_tag t = concat (map (\<lambda>(n, v). [n, v]) (attrs t)) @ (case tag t of None \<Rightarrow> [] | Some b \<Rightarrow> [b]) @
     (case tag_data t of None \<Rightarrow> [] | Some b \<Rightarrow> [b])"

text \<open>
  The second constructor, as the values of \<open>tag\<close> and \<open>type\<close>: a value of 128 characters is cut to 127. The other
  members are indeterminate after it, and so are these two when an assertion fails (\<open>None\<close>).
\<close>

definition new_tag_of :: "string \<Rightarrow> nat option \<Rightarrow> nat \<Rightarrow> TagType \<Rightarrow> (string \<times> TagType) option exec" where
  "new_tag_of mem newTag len ty = (case newTag of
     None \<Rightarrow> ret None
   | Some p \<Rightarrow>
       if len = 0 then ret None
       else seq (slice mem p (if len = MAX_TAG_VALUE_LENGTH then MAX_TAG_VALUE_LENGTH - 1 else len)) (\<lambda>cs.
         ret (Some (cs @ [NUL], ty))))"

definition SetValue :: "string \<Rightarrow> nat option \<Rightarrow> nat \<Rightarrow> html_tag \<Rightarrow> (int \<times> html_tag) exec" where
  "SetValue mem tagValue len t = (case tagValue of
     None \<Rightarrow> ret (- 1, t)
   | Some p \<Rightarrow>
       if len = 0 then ret (- 1, t)
       else if MAX_TAG_VALUE_LENGTH < len then ret (- 1, t\<lparr>tag_error := Some TAG_TOO_LONG\<rparr>)
       else seq (slice mem p len) (\<lambda>cs. ret (0, t\<lparr>tag := Some (cs @ [NUL]), tagAddress := Some p\<rparr>)))"

text \<open>
  The two loops of \<open>SetData\<close>. The length has 32 bits: from a length 0 the index \<open>length - 1\<close> is \<^verbatim>\<open>0xFFFFFFFF\<close>.
\<close>

partial_function (option) trim_end :: "string \<Rightarrow> nat \<Rightarrow> u32 \<Rightarrow> u32 exec" where
  "trim_end mem p len = seq (rdl mem (p + unat (len - 1))) (\<lambda>c.
     if c = CHR '' '' then trim_end mem p (len - 1) else ret len)"

function trim_start :: "string \<Rightarrow> nat \<Rightarrow> u32 \<Rightarrow> (nat \<times> u32) exec" where
  "trim_start mem p len =
     (if p < length mem then
        (if mem ! p = CHR '' '' then trim_start mem (p + 1) (len - 1) else ret (p, len))
      else crash OutOfBounds)"
  by pat_completeness auto
termination by (relation "measure (\<lambda>(mem, p, len). length mem - p)") auto

declare trim_start.simps [simp del]

definition SetData :: "(nat \<Rightarrow> char) \<Rightarrow> string \<Rightarrow> nat option \<Rightarrow> u32 \<Rightarrow> html_tag \<Rightarrow> (int \<times> html_tag) exec" where
  "SetData junk mem tagData len t = (case tagData of
     None \<Rightarrow> ret (- 1, t)
   | Some p \<Rightarrow>
       if len = 0 then ret (- 1, t)
       else if unat len = MAX_TAG_VALUE_LENGTH then ret (- 1, t\<lparr>tag_error := Some TAG_DATA_TOO_LONG\<rparr>)
       else seq (trim_end mem p len) (\<lambda>l1. seq (trim_start mem p l1) (\<lambda>pl.
         seq (slice mem (fst pl) (unat (snd pl))) (\<lambda>cs.
         seq (blit (fresh junk (unat (len + 1))) 0 (cs @ [NUL])) (\<lambda>buf.
           ret (0, t\<lparr>tag_data := Some buf\<rparr>))))))"

text \<open>An enumeration value above \<open>UNDEFINED_TAG\<close> cannot be formed without a cast.\<close>

definition SetType :: "TagType \<Rightarrow> html_tag \<Rightarrow> int \<times> html_tag" where
  "SetType ty t = (0, t\<lparr>tag_type := ty\<rparr>)"

subsection \<open>Attributes\<close>

text \<open>\<open>do { nameStart--; } while (*nameStart != ' ' && nameStart > currPtr);\<close>\<close>

fun back_up :: "string \<Rightarrow> nat \<Rightarrow> nat \<Rightarrow> nat exec" where
  "back_up mem cur 0 = crash OutOfBounds"
| "back_up mem cur (Suc p) = seq (rdl mem p) (\<lambda>c.
     if c \<noteq> CHR '' '' \<and> cur < p then back_up mem cur p else ret p)"

definition name_start :: "string \<Rightarrow> nat \<Rightarrow> nat \<Rightarrow> nat exec" where
  "name_start mem cur nameEnd = seq (back_up mem cur nameEnd) (\<lambda>p. ret (if p \<noteq> cur then p + 1 else p))"

text \<open>The copy into \<open>temp\<close>, of 901 characters, before an invalid attribute is reported.\<close>

definition invalid_attribute :: "string \<Rightarrow> nat \<Rightarrow> nat \<Rightarrow> html_tag \<Rightarrow> html_tag exec" where
  "invalid_attribute mem attrStr len t = seq (slice mem attrStr len) (\<lambda>cs.
     if len \<le> MAX_TAG_ATTRS_LENGTH then ret (t\<lparr>tag_error := Some TAG_INVALID_ATTRIBUTE\<rparr>) else crash OutOfBounds)"

partial_function (option) attr_loop ::
  "string \<Rightarrow> nat \<Rightarrow> nat \<Rightarrow> nat \<Rightarrow> html_tag \<Rightarrow> html_tag exec" where
  "attr_loop mem attrStr len cur t =
     (if cur < attrStr + len then
        seq (strchr mem cur CHR ''='') (\<lambda>ne. case ne of
          None \<Rightarrow> ret t
        | Some nameEnd \<Rightarrow> seq (name_start mem cur nameEnd) (\<lambda>nameStart.
            seq (strchr mem nameEnd CHR 0x22) (\<lambda>vs. case vs of
              None \<Rightarrow> invalid_attribute mem attrStr (nameEnd - nameStart) t
            | Some q \<Rightarrow> seq (strchr mem (q + 1) CHR 0x22) (\<lambda>ve. case ve of
                None \<Rightarrow> invalid_attribute mem attrStr len t
              | Some valueEnd \<Rightarrow>
                  seq (slice mem nameStart (nameEnd - nameStart)) (\<lambda>n.
                  seq (slice mem (q + 1) (valueEnd - (q + 1))) (\<lambda>v.
                    attr_loop mem attrStr len (valueEnd + 1) (t\<lparr>attrs := attrs t @ [(n @ [NUL], v @ [NUL])]\<rparr>))))))
          )
      else ret t)"

definition SetAttributes :: "string \<Rightarrow> nat option \<Rightarrow> nat \<Rightarrow> html_tag \<Rightarrow> (int \<times> html_tag) exec" where
  "SetAttributes mem attrStr len t = (case attrStr of
     None \<Rightarrow> ret (- 1, t)
   | Some p \<Rightarrow>
       if len = 0 then ret (- 1, t)
       else seq (attr_loop mem p len p t) (\<lambda>t'. ret (0, t')))"

text \<open>\<open>strcmp(a, b) == 0\<close> on two blocks.\<close>

fun str_equal :: "string \<Rightarrow> string \<Rightarrow> bool exec" where
  "str_equal [] bs = crash OutOfBounds"
| "str_equal (a # as) [] = crash OutOfBounds"
| "str_equal (a # as) (b # bs) =
     (if a \<noteq> b then ret False else if a = NUL then ret True else str_equal as bs)"

fun find_attr :: "string \<Rightarrow> (string \<times> string) list \<Rightarrow> string option exec" where
  "find_attr attr [] = ret None"
| "find_attr attr (nv # rest) = seq (str_equal (fst nv) attr) (\<lambda>eq.
     if eq then ret (Some (snd nv)) else find_attr attr rest)"

definition DoesTagContainAttribute :: "html_tag \<Rightarrow> string \<Rightarrow> string option exec" where
  "DoesTagContainAttribute t attr = find_attr attr (attrs t)"

subsection \<open>Comparing strings\<close>

lemma str_equal_terminated:
  "terminated a \<Longrightarrow> terminated b \<Longrightarrow> str_equal (a @ NUL # x) (b @ NUL # y) = ret (a = b)"
proof (induction a arbitrary: b)
  case Nil
  then show ?case by (cases b) (auto simp: terminated_def)
next
  case (Cons c a)
  then show ?case by (cases b) (auto simp: terminated_def)
qed

text \<open>A block that holds another character where its terminator should be is not equal to the string it spells.\<close>

lemma str_equal_unterminated:
  "terminated a \<Longrightarrow> c \<noteq> NUL \<Longrightarrow> str_equal (a @ [c]) (a @ NUL # y) = ret False"
  by (induction a) (auto simp: terminated_def)

lemma str_equal_returns: "str_equal a b \<noteq> None"
  by (induction a b rule: str_equal.induct) auto

subsection \<open>Data\<close>

lemma trim_end_spaces:
  assumes c: "core \<noteq> []" "last core \<noteq> CHR '' ''" and n: "length core + j < 2 ^ 32"
  shows "trim_end (pre @ core @ replicate j CHR '' '' @ post) (length pre) (word_of_nat (length core + j)) =
    ret (word_of_nat (length core))"
  using n
proof (induction j arbitrary: post)
  case 0
  have w: "(word_of_nat (length core) :: u32) - 1 = word_of_nat (length core - 1)" using c(1) by (simp add: of_nat_diff Suc_leI)
  have "core ! (length core - 1) \<noteq> CHR '' ''" using c by (simp add: last_conv_nth)
  moreover have "rdl (pre @ core @ post) (length pre + (length core - 1)) = ret (core ! (length core - 1))"
    using c(1) by (cases core rule: rev_cases) (auto simp: rdl_def nth_append)
  ultimately show ?case using 0 c(1)
    by (subst trim_end.simps) (simp add: w unat_small)
next
  case (Suc j)
  let ?mem = "pre @ core @ replicate (Suc j) CHR '' '' @ post"
  have w: "(word_of_nat (length core + Suc j) :: u32) - 1 = word_of_nat (length core + j)" by simp
  have nth: "?mem ! (length pre + (length core + j)) = CHR '' ''"
    by (simp add: nth_append nth_Cons' del: replicate_Suc)
  have shift: "?mem = pre @ core @ replicate j CHR '' '' @ CHR '' '' # post"
    by (simp add: replicate_app_Cons_same)
  have "trim_end ?mem (length pre) (word_of_nat (length core + Suc j)) =
      trim_end ?mem (length pre) (word_of_nat (length core + j))"
    using Suc.prems nth by (subst trim_end.simps) (simp add: w unat_of_nat del: of_nat_add replicate_Suc)
  with Suc.IH [of "CHR '' '' # post"] Suc.prems show ?case unfolding shift by simp
qed

lemma trim_start_spaces:
  assumes "core \<noteq> []" "hd core \<noteq> CHR '' ''"
  shows "trim_start (pre @ replicate i CHR '' '' @ core @ post) (length pre) l = ret (length pre + i, l - word_of_nat i)"
proof (induction i arbitrary: pre l)
  case 0
  from assms obtain c cs where "core = c # cs" "c \<noteq> CHR '' ''" by (cases core) auto
  then show ?case by (subst trim_start.simps) (simp add: nth_append)
next
  case (Suc i)
  from Suc [of "pre @ [CHR '' '']" "l - 1"] show ?case
    by (subst trim_start.simps) (simp add: nth_append)
qed

lemma SetData_core:
  assumes core: "core \<noteq> []" "hd core \<noteq> CHR '' ''" "last core \<noteq> CHR '' ''" "terminated core"
    and len: "i + length core + j + 1 < 2 ^ 32" "i + length core + j \<noteq> 128"
  shows "\<exists>rest. SetData junk (pre @ replicate i CHR '' '' @ core @ replicate j CHR '' '' @ post) (Some (length pre))
    (word_of_nat (i + length core + j)) t = ret (0, t\<lparr>tag_data := Some (core @ NUL # rest)\<rparr>)"
proof -
  let ?mem = "pre @ replicate i CHR '' '' @ core @ replicate j CHR '' '' @ post"
  let ?l = "word_of_nat (i + length core + j) :: u32"
  have e: "trim_end ?mem (length pre) ?l = ret (word_of_nat (i + length core))"
    using trim_end_spaces [of "replicate i CHR '' '' @ core" j pre post] core len(1) by simp
  have s: "trim_start ?mem (length pre) (word_of_nat (i + length core)) = ret (length pre + i, word_of_nat (length core))"
    using trim_start_spaces [OF core(1,2), of pre i "replicate j CHR '' '' @ post"] by simp
  have u: "unat ?l = i + length core + j" "unat (?l + 1) = i + length core + j + 1"
    "unat (word_of_nat (length core) :: u32) = length core"
    using len(1) by (simp_all add: unat_small unat_word_ariths(1) del: of_nat_add)
  have "?l \<noteq> 0" using u(1) core(1) by (metis add_is_0 length_0_conv unat_0)
  then show ?thesis using u len(2) e s
    by (auto simp: SetData_def slice_def blit_def simp del: of_nat_add)
qed

text \<open>C35: \<open>SetData\<close> keeps the data between leading and trailing blanks, terminated, for every length but 128.\<close>

theorem SetData_trims:
  assumes core: "core \<noteq> []" "hd core \<noteq> CHR '' ''" "last core \<noteq> CHR '' ''" "terminated core"
    and len: "i + length core + j + 1 < 2 ^ 32" "i + length core + j \<noteq> 128"
  shows "\<exists>rest. SetData junk (pre @ replicate i CHR '' '' @ core @ replicate j CHR '' '' @ post) (Some (length pre))
    (word_of_nat (i + length core + j)) t = ret (0, t\<lparr>tag_data := Some (core @ NUL # rest)\<rparr>)"
  by (rule SetData_core [OF assms])

theorem SetData_trims_witness:
  "\<exists>rest. SetData (\<lambda>i. CHR ''?'') (''<b>'' @ ''  ok  '' @ ''</b>'' @ [NUL]) (Some (length ''<b>'')) 6 new_tag =
    ret (0, new_tag\<lparr>tag_data := Some (''ok'' @ NUL # rest)\<rparr>)"
proof -
  have "replicate 2 CHR '' '' = ''  ''" by (simp add: numeral_2_eq_2)
  then show ?thesis
    using SetData_trims [of "''ok''" 2 2 "\<lambda>i. CHR ''?''" "''<b>''" "''</b>'' @ [NUL]" new_tag]
    by (simp add: terminated_def)
qed

text \<open>Data of blanks only: the length passes below zero, and the access is four gigabytes away.\<close>

lemma trim_end_blank:
  assumes "length pre + j \<le> length pre + 2 ^ 32 - 1" "length (pre @ replicate j CHR '' '' @ post) \<le> length pre + 2 ^ 32 - 1"
  shows "trim_end (pre @ replicate j CHR '' '' @ post) (length pre) (word_of_nat j) = crash OutOfBounds"
  using assms
proof (induction j arbitrary: post)
  case 0
  then show ?case by (subst trim_end.simps) (simp add: rdl_def unat_minus_1)
next
  case (Suc j)
  let ?mem = "pre @ replicate (Suc j) CHR '' '' @ post"
  have nth: "?mem ! (length pre + j) = CHR '' ''"
    by (simp add: nth_append del: replicate_Suc)
  have shift: "?mem = pre @ replicate j CHR '' '' @ CHR '' '' # post" by (simp add: replicate_app_Cons_same)
  have "trim_end ?mem (length pre) (word_of_nat (Suc j)) = trim_end ?mem (length pre) (word_of_nat j)"
    using Suc.prems nth by (subst trim_end.simps) (simp add: unat_small del: replicate_Suc)
  then show ?case using Suc unfolding shift by simp
qed

text \<open>Data that consists of blanks makes \<open>SetData\<close> read out of bounds, four gigabytes behind the data.\<close>

theorem SetData_blank:
  assumes "0 < j" "length (pre @ replicate j CHR '' '' @ post) < length pre + 2 ^ 32" "j \<noteq> 128"
  shows "SetData junk (pre @ replicate j CHR '' '' @ post) (Some (length pre)) (word_of_nat j) t = crash OutOfBounds"
proof -
  have u: "unat (word_of_nat j :: u32) = j" using assms(2) by (simp add: unat_small)
  then have "(word_of_nat j :: u32) \<noteq> 0" using assms(1) by (metis less_irrefl unat_0)
  moreover have "trim_end (pre @ replicate j CHR '' '' @ post) (length pre) (word_of_nat j) = crash OutOfBounds"
    using assms by (intro trim_end_blank) auto
  ultimately show ?thesis using u assms(3) by (simp add: SetData_def)
qed

theorem SetData_blank_witness:
  "SetData (\<lambda>i. CHR ''?'') (''<b>'' @ '' '' @ ''</b>'' @ [NUL]) (Some (length ''<b>'')) 1 new_tag = crash OutOfBounds"
  using SetData_blank [of 1 "''<b>''" "''</b>'' @ [NUL]" "\<lambda>i. CHR ''?''" new_tag] by simp

subsection \<open>Attributes, read back\<close>

definition name_ok :: "string \<Rightarrow> bool" where
  "name_ok n \<longleftrightarrow> n \<noteq> [] \<and> set n \<inter> {CHR ''='', CHR '' '', CHR 0x22, NUL} = {}"

definition value_ok :: "string \<Rightarrow> bool" where
  "value_ok v \<longleftrightarrow> set v \<inter> {CHR 0x22, NUL} = {}"

definition attr_text :: "string \<times> string \<Rightarrow> string" where
  "attr_text nv = fst nv @ CHR ''='' # CHR 0x22 # snd nv @ [CHR 0x22]"

fun attrs_text :: "(string \<times> string) list \<Rightarrow> string" where
  "attrs_text [] = []"
| "attrs_text (a # as) = CHR '' '' # attr_text a @ attrs_text as"

definition blocks :: "string \<times> string \<Rightarrow> string \<times> string" where
  "blocks nv = (fst nv @ [NUL], snd nv @ [NUL])"

definition spaced :: "string \<times> string \<Rightarrow> string \<times> string" where
  "spaced nv = (CHR '' '' # fst nv, snd nv)"

lemma back_up_name:
  assumes "CHR '' '' \<notin> set n" "n \<noteq> []"
  shows "back_up (pre @ lead @ n @ post) (length pre) (length pre + length lead + length n) =
    (case lead of [] \<Rightarrow> ret (length pre) | _ \<Rightarrow> back_up (pre @ lead @ n @ post) (length pre) (length pre + length lead))"
  using assms
proof (induction n arbitrary: post rule: rev_induct)
  case (snoc c n)
  let ?mem = "pre @ lead @ (n @ [c]) @ post"
  have nth: "?mem ! (length pre + length lead + length n) = c" by (simp add: nth_append)
  have step: "back_up ?mem (length pre) (length pre + length lead + length (n @ [c])) =
      (if length pre < length pre + length lead + length n
       then back_up ?mem (length pre) (length pre + length lead + length n)
       else ret (length pre + length lead + length n))"
    using snoc.prems nth by (auto simp: rdl_def)
  show ?case
  proof (cases "n = []")
    case True
    then show ?thesis unfolding step by (cases lead) simp_all
  next
    case False
    then show ?thesis unfolding step using snoc.IH [of "c # post"] snoc.prems by (simp split: list.split)
  qed
qed simp

lemma name_start_first:
  assumes "name_ok n" shows "name_start (pre @ n @ post) (length pre) (length pre + length n) = ret (length pre)"
  using back_up_name [of n pre "[]" post] assms by (simp add: name_start_def name_ok_def)

text \<open>The blank before a name ends the search at the pointer itself, which is not stepped past it.\<close>

lemma name_start_later:
  assumes "name_ok n"
  shows "name_start (pre @ CHR '' '' # n @ post) (length pre) (length pre + 1 + length n) = ret (length pre)"
proof -
  have "back_up (pre @ CHR '' '' # n @ post) (length pre) (length pre + 1) = ret (length pre)"
    by (simp add: rdl_def)
  then show ?thesis
    using back_up_name [of n pre "[CHR '' '']" post] assms by (simp add: name_start_def name_ok_def)
qed

lemma strchr_skip:
  assumes "c \<notin> set n" "NUL \<notin> set n" shows "strchr (pre @ n @ c # post) (length pre) c = ret (Some (length pre + length n))"
proof -
  have "\<forall>j < length n. n ! j \<noteq> c \<and> n ! j \<noteq> NUL" using assms by (metis nth_mem)
  then show ?thesis by (intro strchr_found) (auto simp: nth_append)
qed

lemma attr_loop_step:
  assumes n: "name_start (pre @ name @ CHR ''='' # CHR 0x22 # v @ CHR 0x22 # post) (length pre) (length pre + length name) =
      ret (length pre)"
    and name: "CHR ''='' \<notin> set name" "NUL \<notin> set name" and v: "value_ok v" and cur: "length pre < p + len"
  shows "attr_loop (pre @ name @ CHR ''='' # CHR 0x22 # v @ CHR 0x22 # post) p len (length pre) t =
    attr_loop (pre @ name @ CHR ''='' # CHR 0x22 # v @ CHR 0x22 # post) p len
      (length pre + length name + length v + 3) (t\<lparr>attrs := attrs t @ [blocks (name, v)]\<rparr>)"
proof -
  let ?mem = "pre @ name @ CHR ''='' # CHR 0x22 # v @ CHR 0x22 # post"
  have 1: "strchr ?mem (length pre) CHR ''='' = ret (Some (length pre + length name))"
    by (rule strchr_skip [OF name])
  have 2: "strchr ?mem (length pre + length name) CHR 0x22 = ret (Some (length pre + length name + 1))"
    using strchr_skip [of "CHR 0x22" "[CHR ''='']" "pre @ name" "v @ CHR 0x22 # post"] by simp
  have 3: "strchr ?mem (length pre + length name + 1 + 1) CHR 0x22 = ret (Some (length pre + length name + 2 + length v))"
    using strchr_skip [of "CHR 0x22" v "pre @ name @ [CHR ''='', CHR 0x22]" post] v by (simp add: value_ok_def)
  have 4: "slice ?mem (length pre) (length name) = ret name" by simp
  have 5: "slice ?mem (length pre + length name + 1 + 1) (length v) = ret v"
    using slice_ok [of "length (pre @ name @ [CHR ''='', CHR 0x22])" "length v" ?mem] by simp
  show ?thesis using cur
    by (subst attr_loop.simps) (simp add: 1 2 [simplified] 3 [simplified] 4 5 [simplified] n blocks_def eval_nat_numeral)
qed

lemma attr_loop_end: "\<not> cur < p + len \<Longrightarrow> attr_loop mem p len cur t = ret t"
  by (subst attr_loop.simps) simp

lemma attr_loop_later:
  assumes "\<forall>a \<in> set as. name_ok (fst a) \<and> value_ok (snd a)" "length pre + length (attrs_text as) = p + len"
  shows "attr_loop (pre @ attrs_text as @ post) p len (length pre) t =
    ret (t\<lparr>attrs := attrs t @ map (blocks \<circ> spaced) as\<rparr>)"
  using assms
proof (induction as arbitrary: pre t)
  case Nil
  then show ?case by (simp add: attr_loop_end)
next
  case (Cons a as)
  obtain n v where a: "a = (n, v)" by force
  let ?name = "CHR '' '' # n" and ?rest = "attrs_text as @ post"
  have ok: "name_ok n" "value_ok v" using Cons.prems(1) a by auto
  have mem: "pre @ attrs_text (a # as) @ post = pre @ ?name @ CHR ''='' # CHR 0x22 # v @ CHR 0x22 # ?rest"
    by (simp add: a attr_text_def)
  have step: "attr_loop (pre @ attrs_text (a # as) @ post) p len (length pre) t =
      attr_loop (pre @ attrs_text (a # as) @ post) p len (length pre + length ?name + length v + 3)
        (t\<lparr>attrs := attrs t @ [blocks (?name, v)]\<rparr>)"
    unfolding mem using ok Cons.prems(2) name_start_later [OF ok(1), of pre "CHR ''='' # CHR 0x22 # v @ CHR 0x22 # ?rest"]
    by (intro attr_loop_step) (auto simp: name_ok_def a)
  have len: "length (pre @ CHR '' '' # attr_text a) = length pre + length ?name + length v + 3"
    by (simp add: a attr_text_def)
  have "attr_loop ((pre @ CHR '' '' # attr_text a) @ ?rest) p len (length (pre @ CHR '' '' # attr_text a))
      (t\<lparr>attrs := attrs t @ [blocks (?name, v)]\<rparr>) =
    ret (t\<lparr>attrs := attrs t @ [blocks (?name, v)]\<rparr>\<lparr>attrs := (attrs t @ [blocks (?name, v)]) @ map (blocks \<circ> spaced) as\<rparr>)"
    using Cons.IH [of "pre @ CHR '' '' # attr_text a" "t\<lparr>attrs := attrs t @ [blocks (?name, v)]\<rparr>"] Cons.prems by simp
  then show ?case unfolding step len [symmetric] by (simp add: a spaced_def)
qed

lemma SetAttributes_attrs:
  assumes "\<forall>a \<in> set (a # as). name_ok (fst a) \<and> value_ok (snd a)"
  shows "SetAttributes (pre @ attr_text a @ attrs_text as @ post) (Some (length pre))
      (length (attr_text a @ attrs_text as)) t =
    ret (0, t\<lparr>attrs := attrs t @ blocks a # map (blocks \<circ> spaced) as\<rparr>)"
proof -
  obtain n v where a: "a = (n, v)" by force
  let ?rest = "attrs_text as @ post" and ?len = "length (attr_text a @ attrs_text as)"
  have ok: "name_ok n" "value_ok v" using assms a by auto
  have mem: "pre @ attr_text a @ ?rest = pre @ n @ CHR ''='' # CHR 0x22 # v @ CHR 0x22 # ?rest"
    by (simp add: a attr_text_def)
  have step: "attr_loop (pre @ attr_text a @ ?rest) (length pre) ?len (length pre) t =
      attr_loop (pre @ attr_text a @ ?rest) (length pre) ?len (length pre + length n + length v + 3)
        (t\<lparr>attrs := attrs t @ [blocks (n, v)]\<rparr>)"
    unfolding mem using ok name_start_first [OF ok(1), of pre "CHR ''='' # CHR 0x22 # v @ CHR 0x22 # ?rest"]
    by (intro attr_loop_step) (auto simp: name_ok_def a attr_text_def)
  have len: "length (pre @ attr_text a) = length pre + length n + length v + 3" by (simp add: a attr_text_def)
  have "attr_loop ((pre @ attr_text a) @ ?rest) (length pre) ?len (length (pre @ attr_text a))
      (t\<lparr>attrs := attrs t @ [blocks (n, v)]\<rparr>) =
    ret (t\<lparr>attrs := attrs t @ [blocks (n, v)]\<rparr>\<lparr>attrs := (attrs t @ [blocks (n, v)]) @ map (blocks \<circ> spaced) as\<rparr>)"
    using attr_loop_later [of as "pre @ attr_text a" "length pre" ?len post "t\<lparr>attrs := attrs t @ [blocks (n, v)]\<rparr>"] assms
    by simp
  then have "attr_loop (pre @ attr_text a @ ?rest) (length pre) ?len (length pre) t =
      ret (t\<lparr>attrs := attrs t @ blocks a # map (blocks \<circ> spaced) as\<rparr>)"
    unfolding step len [symmetric] by (simp add: a)
  then show ?thesis by (simp add: SetAttributes_def attr_text_def)
qed

text \<open>C23: the attributes of a tag are all found, with their values; every name but the first carries the blank that
  precedes it in the page.\<close>

theorem SetAttributes_ok:
  assumes "\<forall>a \<in> set (a # as). name_ok (fst a) \<and> value_ok (snd a)"
  shows "SetAttributes (pre @ attr_text a @ attrs_text as @ post) (Some (length pre))
      (length (attr_text a @ attrs_text as)) t =
    ret (0, t\<lparr>attrs := attrs t @ blocks a # map (blocks \<circ> spaced) as\<rparr>)"
  by (rule SetAttributes_attrs [OF assms])

theorem SetAttributes_ok_witness:
  "SetAttributes (''a='' @ CHR 0x22 # ''1'' @ CHR 0x22 # '' b='' @ CHR 0x22 # ''2'' @ CHR 0x22 # ''>'' @ [NUL]) (Some 0) 11 new_tag =
    ret (0, new_tag\<lparr>attrs := [(''a'' @ [NUL], ''1'' @ [NUL]), ('' b'' @ [NUL], ''2'' @ [NUL])]\<rparr>)"
  using SetAttributes_ok [of "(''a'', ''1'')" "[(''b'', ''2'')]" "[]" "''>'' @ [NUL]" new_tag]
  by (simp add: name_ok_def value_ok_def attr_text_def blocks_def spaced_def new_tag_def eval_nat_numeral)

lemma find_attr_blocks:
  assumes "terminated x" "\<forall>a \<in> set as. terminated (fst a)"
  shows "find_attr (x @ [NUL]) (map blocks as) = ret (map_option (\<lambda>v. v @ [NUL]) (map_of as x))"
  using assms
proof (induction as)
  case (Cons a as)
  obtain n v where "a = (n, v)" by force
  with Cons str_equal_terminated [of n x "[]" "[]"] show ?case by (auto simp: blocks_def)
qed simp

text \<open>So an attribute that is asked for by its name is found when it comes first in the tag, and never
  otherwise.\<close>

theorem DoesTagContainAttribute_ok:
  assumes as: "\<forall>a \<in> set (a # as). name_ok (fst a) \<and> value_ok (snd a)" and x: "name_ok x"
    and t: "attrs t = blocks a # map (blocks \<circ> spaced) as"
  shows "DoesTagContainAttribute t (x @ [NUL]) = ret (if x = fst a then Some (snd a @ [NUL]) else None)"
proof -
  have "attrs t = map blocks (a # map spaced as)" using t by simp
  moreover have "\<forall>a \<in> set (a # map spaced as). terminated (fst a)" "terminated x"
    using as x by (auto simp: spaced_def terminated_def name_ok_def)
  ultimately have "DoesTagContainAttribute t (x @ [NUL]) =
      ret (map_option (\<lambda>v. v @ [NUL]) (map_of (a # map spaced as) x))"
    unfolding DoesTagContainAttribute_def by (simp only: find_attr_blocks)
  moreover have "map_of (map spaced as) x = None"
    using x by (auto simp: map_of_eq_None_iff spaced_def name_ok_def)
  ultimately show ?thesis by (cases a) auto
qed

theorem DoesTagContainAttribute_ok_witness:
  "DoesTagContainAttribute (new_tag\<lparr>attrs := [(''a'' @ [NUL], ''1'' @ [NUL]), ('' b'' @ [NUL], ''2'' @ [NUL])]\<rparr>) (''b'' @ [NUL]) =
    ret None"
  using DoesTagContainAttribute_ok [of "(''a'', ''1'')" "[(''b'', ''2'')]" "''b''"
    "new_tag\<lparr>attrs := [(''a'' @ [NUL], ''1'' @ [NUL]), ('' b'' @ [NUL], ''2'' @ [NUL])]\<rparr>"]
  by (simp add: name_ok_def value_ok_def blocks_def spaced_def)

subsection \<open>The loop over the attributes ends\<close>

lemma strchr_ge: "strchr mem p c = ret (Some q) \<Longrightarrow> p \<le> q"
proof (induction mem p c rule: strchr.induct)
  case (1 mem p c)
  then show ?case by (subst (asm) (2) strchr.simps) (auto split: if_splits)
qed

lemma strchr_char: "strchr mem p c = ret (Some q) \<Longrightarrow> mem ! q = c \<and> q < length mem"
proof (induction mem p c rule: strchr.induct)
  case (1 mem p c)
  then show ?case by (subst (asm) (2) strchr.simps) (auto split: if_splits)
qed

lemma strchr_returns: "strchr mem p c \<noteq> None"
proof (induction mem p c rule: strchr.induct)
  case (1 mem p c)
  then show ?case by (subst strchr.simps) auto
qed

lemma back_up_returns: "back_up mem cur p \<noteq> None"
proof (induction p)
  case (Suc p)
  have "rdl mem p \<noteq> None" by (simp add: rdl_def)
  with Suc show ?case by (auto simp: seq_eq_None simp del: not_None_eq)
qed simp

lemma attr_loop_returns: "attr_loop mem p len cur t \<noteq> None"
proof (induction "p + len - cur" arbitrary: cur t rule: less_induct)
  case less
  have s: "slice mem i n \<noteq> None" for i n by (simp add: slice_def)
  have i: "invalid_attribute mem i n u \<noteq> None" for i n u using s by (simp add: invalid_attribute_def seq_eq_None)
  have n: "name_start mem cur q \<noteq> None" for q
    using back_up_returns by (simp add: name_start_def seq_eq_None)
  show ?case
  proof (cases "cur < p + len")
    case True
    have "attr_loop mem p len (ve + 1) u \<noteq> None"
      if "strchr mem cur CHR ''='' = ret (Some ne)" "strchr mem ne CHR 0x22 = ret (Some q)"
        "strchr mem (q + 1) CHR 0x22 = ret (Some ve)" for ne q ve u
      using that True by (intro less) (auto dest!: strchr_ge)
    with True show ?thesis
      by (subst attr_loop.simps) (auto simp: seq_eq_None strchr_returns n s i simp del: not_None_eq split: option.splits)
  qed (simp add: attr_loop_end)
qed

lemma SetAttributes_returns: "SetAttributes mem attrStr len t \<noteq> None"
  using attr_loop_returns by (auto simp: SetAttributes_def seq_eq_None simp del: not_None_eq split: option.splits)

end
