(* ===== verification/Html_Parser.thy ===== *)
theory Html_Parser imports Html_Tag Heap begin

text \<open>
  \<open>IMG3_HtmlParser\<close> (src/src/html/IMG3_HtmlParser.cpp): collects the tags of a page, pairs opening with closing
  tags, copies the text between them and picks the decryption keys out of it. The nodes live on a heap and are
  shared by the lists; \<open>mem\<close> is the page, as in the theory of tags.
\<close>

record html_node =
  node_tag :: html_tag
  node_id :: u32

text \<open>A decryption record: three terminated blocks.\<close>

record decryption_info =
  di_section :: string
  di_iv :: string
  di_key :: string

datatype parser_error =
    PARSER_NONE | FILTER_TOO_LONG | NO_CLOSING_TAG | PARSER_TAG_TOO_LONG | NO_OPENING_TAG | INVALID_TAG_SET
  | PARSER_DATA_TOO_LONG | NO_IV_FOUND | NO_KEY_FOUND

record html_parser =
  hp_error :: parser_error
  openingTags :: "nat list"
  closingTags :: "nat list"
  completeTags :: "(nat \<times> nat) list"
  sortedTags :: "(nat \<times> nat) list"
  numberOfTags :: u32
  tagFilters :: "string list"
  decryptionList :: "decryption_info list"
  hp_heap :: "html_node heap"

definition new_html_parser :: html_parser where
  "new_html_parser = \<lparr>hp_error = PARSER_NONE, openingTags = [], closingTags = [], completeTags = [], sortedTags = [],
     numberOfTags = 0, tagFilters = [], decryptionList = [], hp_heap = empty_heap\<rparr>"

text \<open>The destructor, on the nodes: both members of every sorted pair are deleted.\<close>

definition destroy_html_parser :: "html_parser \<Rightarrow> html_parser exec" where
  "destroy_html_parser hp =
     seq (h_delete_all (hp_heap hp) (concat (map (\<lambda>(a, b). [a, b]) (sortedTags hp)))) (\<lambda>h.
       ret (hp\<lparr>openingTags := [], closingTags := [], completeTags := [], sortedTags := [], tagFilters := [], hp_heap := h\<rparr>))"

subsection \<open>Filters\<close>

fun tag_in_filters :: "string list \<Rightarrow> string \<Rightarrow> bool exec" where
  "tag_in_filters [] tg = ret False"
| "tag_in_filters (f # fs) tg = seq (str_equal f tg) (\<lambda>eq. if eq then ret True else tag_in_filters fs tg)"

definition TagIsOfInterest :: "html_parser \<Rightarrow> string \<Rightarrow> bool exec" where
  "TagIsOfInterest hp tg = tag_in_filters (tagFilters hp) tg"

text \<open>
  \<open>strncpy\<close> copies as many characters as the filter has, so the last one of the new block is what
  the allocation held, \<open>junk\<close>.
\<close>

definition AddFilter :: "char \<Rightarrow> string option \<Rightarrow> html_parser \<Rightarrow> int \<times> html_parser" where
  "AddFilter junk filt hp = (case filt of
     None \<Rightarrow> (- 1, hp)
   | Some f \<Rightarrow>
       if MAX_TAG_VALUE_LENGTH \<le> length f then (- 1, hp\<lparr>hp_error := FILTER_TOO_LONG\<rparr>)
       else (0, hp\<lparr>tagFilters := tagFilters hp @ [strncpy f (length f) @ [junk]]\<rparr>))"

subsection \<open>Looking tags up by name\<close>

definition tag_value :: "html_node heap \<Rightarrow> nat \<Rightarrow> string exec" where
  "tag_value h p = seq (h_get h p) (\<lambda>n. case tag (node_tag n) of None \<Rightarrow> crash NullDeref | Some b \<Rightarrow> ret b)"

fun nodes_named :: "html_node heap \<Rightarrow> string \<Rightarrow> nat list \<Rightarrow> nat list exec" where
  "nodes_named h name [] = ret []"
| "nodes_named h name (p # ps) = seq (tag_value h p) (\<lambda>b. seq (str_equal b name) (\<lambda>eq.
     seq (nodes_named h name ps) (\<lambda>qs. ret (if eq then p # qs else qs))))"

fun pairs_named :: "html_node heap \<Rightarrow> string \<Rightarrow> (nat \<times> nat) list \<Rightarrow> (nat \<times> nat) list exec" where
  "pairs_named h name [] = ret []"
| "pairs_named h name (p # ps) = seq (tag_value h (fst p)) (\<lambda>b. seq (str_equal b name) (\<lambda>eq.
     seq (pairs_named h name ps) (\<lambda>qs. ret (if eq then p # qs else qs))))"

definition GetAllTagsByName :: "html_parser \<Rightarrow> string \<Rightarrow> nat list exec" where
  "GetAllTagsByName hp name = nodes_named (hp_heap hp) name (map fst (completeTags hp))"

definition GetAllOpeningTagsByName :: "html_parser \<Rightarrow> string \<Rightarrow> nat list exec" where
  "GetAllOpeningTagsByName hp name = nodes_named (hp_heap hp) name (openingTags hp)"

definition GetAllClosingTagsByName :: "html_parser \<Rightarrow> string \<Rightarrow> nat list exec" where
  "GetAllClosingTagsByName hp name = nodes_named (hp_heap hp) name (closingTags hp)"

definition GetAllSortedTagsByName :: "html_parser \<Rightarrow> string \<Rightarrow> (nat \<times> nat) list exec" where
  "GetAllSortedTagsByName hp name = pairs_named (hp_heap hp) name (sortedTags hp)"

text \<open>When the tag is the last of the list, the iterator is stepped past the end.\<close>

fun next_tag :: "html_node heap \<Rightarrow> u32 \<Rightarrow> (nat \<times> nat) list \<Rightarrow> nat option exec" where
  "next_tag h i [] = ret None"
| "next_tag h i (p # ps) = seq (h_get h (fst p)) (\<lambda>n.
     if node_id n = i then (case ps of [] \<Rightarrow> crash OutOfBounds | q # qs \<Rightarrow> ret (Some (fst q)))
     else next_tag h i ps)"

definition GetNextTag :: "html_parser \<Rightarrow> u32 \<Rightarrow> nat option exec" where
  "GetNextTag hp currentTagId = next_tag (hp_heap hp) currentTagId (completeTags hp)"

subsection \<open>Collecting tags\<close>

text \<open>
  The tag of a node that is of interest; errors of the setters are not looked at. The \<^verbatim>\<open>'>'\<close> is there: the caller
  has found it.
\<close>

definition opening_node ::
    "string \<Rightarrow> nat \<Rightarrow> nat \<Rightarrow> nat option \<Rightarrow> html_tag exec" where
  "opening_node mem start len attrsStart = seq (SetValue mem (Some start) len new_tag) (\<lambda>rt.
     case attrsStart of
       None \<Rightarrow> ret (snd rt)
     | Some a \<Rightarrow> seq (strchr mem a CHR ''>'') (\<lambda>e. case e of
           None \<Rightarrow> crash OutOfBounds
         | Some attrsEnd \<Rightarrow> seq (SetAttributes mem (Some a) (attrsEnd - a) (snd rt)) (\<lambda>rt. ret (snd rt))))"

text \<open>\<open>node->id = numberOfTags++\<close> and the allocation of the node.\<close>

definition add_html_node :: "html_tag \<Rightarrow> TagType \<Rightarrow> html_parser \<Rightarrow> nat \<times> html_parser" where
  "add_html_node t ty hp =
     (let n = \<lparr>node_tag = snd (SetType ty t), node_id = numberOfTags hp\<rparr>
      in (fst (h_new (hp_heap hp) n), hp\<lparr>numberOfTags := numberOfTags hp + 1, hp_heap := snd (h_new (hp_heap hp) n)\<rparr>))"

definition AddOpeningTag :: "string \<Rightarrow> nat \<Rightarrow> nat \<Rightarrow> html_parser \<Rightarrow> html_parser exec" where
  "AddOpeningTag mem buffer bufferLength hp =
     (let openingTagEnd = buffer + bufferLength - 1; start = buffer + 1 in
      seq (strchr mem start CHR '' '') (\<lambda>sp.
      let plain = (case sp of None \<Rightarrow> True | Some q \<Rightarrow> openingTagEnd < q);
          valueEnd = (if plain then openingTagEnd else the sp);
          attrsStart = (if plain then None else Some (the sp + 1)) in
      seq (slice mem start (valueEnd - start)) (\<lambda>cs.
      if MAX_TAG_LENGTH \<le> length cs then crash OutOfBounds
      else seq (TagIsOfInterest hp (cs @ [NUL])) (\<lambda>wanted.
        if \<not> wanted then ret hp
        else seq (opening_node mem start (valueEnd - start) attrsStart) (\<lambda>t.
             seq (rdl mem (buffer + bufferLength - 2)) (\<lambda>c.
               if c = CHR ''/'' then
                 (let ph = add_html_node t COMPLETE_TAG hp
                  in ret ((snd ph)\<lparr>completeTags := completeTags (snd ph) @ [(fst ph, fst ph)]\<rparr>))
               else
                 (let ph = add_html_node t OPENING_TAG hp
                  in ret ((snd ph)\<lparr>openingTags := openingTags (snd ph) @ [fst ph]\<rparr>))))))))"

definition AddClosingTag :: "string \<Rightarrow> nat \<Rightarrow> html_parser \<Rightarrow> html_parser exec" where
  "AddClosingTag mem buffer hp =
     (let start = buffer + 2 in
      seq (strchr mem start CHR ''>'') (\<lambda>e. case e of
        None \<Rightarrow> ret (hp\<lparr>hp_error := NO_CLOSING_TAG\<rparr>)
      | Some closingTagEnd \<Rightarrow>
          if MAX_TAG_VALUE_LENGTH < closingTagEnd - start then ret (hp\<lparr>hp_error := PARSER_TAG_TOO_LONG\<rparr>)
          else seq (slice mem start (closingTagEnd - start)) (\<lambda>cs. seq (TagIsOfInterest hp (cs @ [NUL])) (\<lambda>wanted.
            if \<not> wanted then ret hp
            else seq (SetValue mem (Some start) (closingTagEnd - start) new_tag) (\<lambda>rt.
              let ph = add_html_node (snd rt) CLOSING_TAG hp
              in ret ((snd ph)\<lparr>closingTags := closingTags (snd ph) @ [fst ph]\<rparr>))))))"

text \<open>The loop of \<open>ParseHtmlTags\<close> over the page. A comment is skipped by its length counted from \<open>currPtr\<close>.\<close>

partial_function (option) scan_tags :: "string \<Rightarrow> nat \<Rightarrow> nat \<Rightarrow> html_parser \<Rightarrow> html_parser exec" where
  "scan_tags mem endPtr currPtr hp =
     (if currPtr < endPtr then
        seq (strchr mem currPtr CHR ''<'') (\<lambda>ts. case ts of
          None \<Rightarrow> ret hp
        | Some tagStart \<Rightarrow> seq (strchr mem tagStart CHR ''>'') (\<lambda>te. case te of
            None \<Rightarrow> ret (hp\<lparr>hp_error := NO_CLOSING_TAG\<rparr>)
          | Some tagEnd \<Rightarrow>
              seq (rdl mem (tagStart + 1)) (\<lambda>c1.
              seq (if c1 = CHR ''!'' then rdl mem (tagStart + 2) else ret NUL) (\<lambda>c2.
              seq (if c2 = CHR ''-'' then rdl mem (tagStart + 3) else ret NUL) (\<lambda>c3.
              if c3 = CHR ''-'' then scan_tags mem endPtr (currPtr + (tagEnd - tagStart + 1)) hp
              else if MAX_TAG_LENGTH < tagEnd - tagStart + 1 then ret (hp\<lparr>hp_error := PARSER_TAG_TOO_LONG\<rparr>)
              else seq (if c1 = CHR ''/'' then AddClosingTag mem tagStart hp
                        else AddOpeningTag mem tagStart (tagEnd - tagStart + 1) hp) (\<lambda>hp.
                   scan_tags mem endPtr tagEnd hp))))))
      else ret hp)"

subsection \<open>Pairing opening and closing tags\<close>

text \<open>\<open>RemoveOpeningTag\<close> and \<open>RemoveClosingTag\<close>: the first node with the number leaves the list.\<close>

fun remove_node :: "html_node heap \<Rightarrow> u32 \<Rightarrow> nat list \<Rightarrow> nat list exec" where
  "remove_node h i [] = ret []"
| "remove_node h i (p # ps) = seq (h_get h p) (\<lambda>n.
     if node_id n = i then ret ps else seq (remove_node h i ps) (\<lambda>qs. ret (p # qs)))"

definition RemoveOpeningTag :: "u32 \<Rightarrow> html_parser \<Rightarrow> html_parser exec" where
  "RemoveOpeningTag tagId hp = seq (remove_node (hp_heap hp) tagId (openingTags hp)) (\<lambda>ps. ret (hp\<lparr>openingTags := ps\<rparr>))"

definition RemoveClosingTag :: "u32 \<Rightarrow> html_parser \<Rightarrow> html_parser exec" where
  "RemoveClosingTag tagId hp = seq (remove_node (hp_heap hp) tagId (closingTags hp)) (\<lambda>ps. ret (hp\<lparr>closingTags := ps\<rparr>))"

text \<open>The inner loop of \<open>CombineTags\<close> over the opening tags, of which there are \<open>sz\<close>.\<close>

datatype open_match = Matched nat | InvalidSet | Unmatched

fun find_open :: "html_node heap \<Rightarrow> nat \<Rightarrow> u32 \<Rightarrow> nat option \<Rightarrow> nat list \<Rightarrow> open_match exec" where
  "find_open h sz closingId prev [] = ret Unmatched"
| "find_open h sz closingId prev (c # cs) = seq (h_get h c) (\<lambda>n.
     if closingId < node_id n then ret (case prev of None \<Rightarrow> InvalidSet | Some p \<Rightarrow> Matched p)
     else if sz = 1 then ret (Matched c)
     else find_open h sz closingId (Some c) cs)"

definition complete_pair :: "nat \<Rightarrow> nat \<Rightarrow> html_parser \<Rightarrow> html_parser exec" where
  "complete_pair p c hp = seq (h_get (hp_heap hp) p) (\<lambda>pn. seq (h_get (hp_heap hp) c) (\<lambda>cn.
     seq (RemoveOpeningTag (node_id pn) (hp\<lparr>completeTags := completeTags hp @ [(p, c)]\<rparr>)) (\<lambda>hp.
       RemoveClosingTag (node_id cn) hp)))"

fun combine_closings :: "string \<Rightarrow> nat list \<Rightarrow> html_parser \<Rightarrow> html_parser exec" where
  "combine_closings name [] hp = ret hp"
| "combine_closings name (c # cs) hp =
     seq (GetAllOpeningTagsByName hp name) (\<lambda>os.
     seq (h_get (hp_heap hp) c) (\<lambda>cn.
     seq (find_open (hp_heap hp) (length os) (node_id cn) None os) (\<lambda>m. case m of
         Matched p \<Rightarrow> seq (complete_pair p c hp) (\<lambda>hp. combine_closings name cs hp)
       | InvalidSet \<Rightarrow> combine_closings name cs (hp\<lparr>hp_error := INVALID_TAG_SET\<rparr>)
       | Unmatched \<Rightarrow> combine_closings name cs hp)))"

text \<open>\<open>closingTags.front()\<close> of an empty list is indeterminate.\<close>

definition CombineTags :: "html_parser \<Rightarrow> (int \<times> html_parser) exec" where
  "CombineTags hp =
     (if openingTags hp = [] then ret (0, hp)
      else case closingTags hp of
        [] \<Rightarrow> crash Indeterminate
      | node # rest \<Rightarrow>
          seq (tag_value (hp_heap hp) node) (\<lambda>name.
          seq (GetAllClosingTagsByName hp name) (\<lambda>cs.
          seq (combine_closings name cs hp) (\<lambda>hp. ret (if openingTags hp = [] then 0 else 1, hp)))))"

text \<open>\<open>while (result > 0) result = CombineTags();\<close>\<close>

partial_function (option) combine_all :: "html_parser \<Rightarrow> (int \<times> html_parser) exec" where
  "combine_all hp = seq (CombineTags hp) (\<lambda>r. if 0 < fst r then combine_all (snd r) else ret r)"

subsection \<open>The text between the tags\<close>

definition set_node_data :: "(nat \<Rightarrow> char) \<Rightarrow> string \<Rightarrow> nat \<Rightarrow> nat \<Rightarrow> u32 \<Rightarrow> html_parser \<Rightarrow> html_parser exec" where
  "set_node_data junk mem p ptr len hp = seq (h_get (hp_heap hp) p) (\<lambda>n.
     seq (SetData junk mem (Some ptr) len (node_tag n)) (\<lambda>rt.
     seq (h_put (hp_heap hp) p (n\<lparr>node_tag := snd rt\<rparr>)) (\<lambda>h. ret (hp\<lparr>hp_heap := h\<rparr>))))"

definition tag_address :: "html_node heap \<Rightarrow> nat \<Rightarrow> nat exec" where
  "tag_address h p = seq (h_get h p) (\<lambda>n. case tagAddress (node_tag n) of None \<Rightarrow> crash Indeterminate | Some a \<Rightarrow> ret a)"

fun retrieve_data :: "(nat \<Rightarrow> char) \<Rightarrow> string \<Rightarrow> (nat \<times> nat) list \<Rightarrow> html_parser \<Rightarrow> html_parser exec" where
  "retrieve_data junk mem [] hp = ret hp"
| "retrieve_data junk mem (oc # rest) hp =
     seq (tag_address (hp_heap hp) (fst oc)) (\<lambda>oa. seq (strchr mem (oa + 1) CHR ''>'') (\<lambda>e. case e of
       None \<Rightarrow> ret (hp\<lparr>hp_error := NO_CLOSING_TAG\<rparr>)
     | Some q \<Rightarrow> seq (tag_address (hp_heap hp) (snd oc)) (\<lambda>ca.
         let dataSize = word_of_int (int ca - int (q + 1) - 2) :: u32 in
         if MAX_TAG_DATA_LENGTH < unat dataSize then ret (hp\<lparr>hp_error := PARSER_DATA_TOO_LONG\<rparr>)
         else if dataSize = 0 then retrieve_data junk mem rest hp
         else seq (set_node_data junk mem (fst oc) (q + 1) dataSize hp) (\<lambda>hp. retrieve_data junk mem rest hp))))"

definition RetrieveDataBetweenTags :: "(nat \<Rightarrow> char) \<Rightarrow> string \<Rightarrow> html_parser \<Rightarrow> html_parser exec" where
  "RetrieveDataBetweenTags junk mem hp = retrieve_data junk mem (completeTags hp) hp"

subsection \<open>Sorting\<close>

text \<open>The scan for the first pair with the least number: \<open>i\<close> counts the pairs passed, \<open>best\<close> is \<open>currMin\<close>.\<close>

fun scan_min :: "html_node heap \<Rightarrow> u32 \<Rightarrow> nat \<Rightarrow> nat \<Rightarrow> (nat \<times> nat) list \<Rightarrow> nat exec" where
  "scan_min h minId best i [] = ret best"
| "scan_min h minId best i (p # ps) = seq (h_get h (fst p)) (\<lambda>n.
     if node_id n < minId then scan_min h (node_id n) i (i + 1) ps else scan_min h minId best (i + 1) ps)"

definition find_min :: "html_node heap \<Rightarrow> (nat \<times> nat) list \<Rightarrow> nat exec" where
  "find_min h ps = (case ps of [] \<Rightarrow> crash Indeterminate
     | p # rest \<Rightarrow> seq (h_get h (fst p)) (\<lambda>n. scan_min h (node_id n) 0 0 ps))"

fun sort_loop :: "html_node heap \<Rightarrow> nat \<Rightarrow> nat \<Rightarrow> (nat \<times> nat) list \<Rightarrow> (nat \<times> nat) list \<Rightarrow>
    ((nat \<times> nat) list \<times> (nat \<times> nat) list) exec" where
  "sort_loop h listSize 0 complete result = (if length result = listSize then ret (complete, result) else crash Indeterminate)"
| "sort_loop h listSize (Suc k) complete result =
     (if length result = listSize then ret (complete, result)
      else seq (find_min h complete) (\<lambda>i.
        sort_loop h listSize k (take i complete @ drop (i + 1) complete) (result @ [complete ! i])))"

text \<open>Each round takes one pair from \<open>completeTags\<close>; \<open>front()\<close> of the empty list is indeterminate.\<close>

definition SortTagsById :: "html_parser \<Rightarrow> html_parser exec" where
  "SortTagsById hp =
     seq (sort_loop (hp_heap hp) (length (completeTags hp)) (length (completeTags hp)) (completeTags hp) (sortedTags hp)) (\<lambda>cs.
       ret (hp\<lparr>completeTags := fst cs, sortedTags := snd cs\<rparr>))"

subsection \<open>Decryption records\<close>

fun prev_node :: "html_node heap \<Rightarrow> u32 \<Rightarrow> nat option \<Rightarrow> (nat \<times> nat) list \<Rightarrow> nat exec" where
  "prev_node h i prev [] = (case prev of None \<Rightarrow> crash Indeterminate | Some p \<Rightarrow> ret p)"
| "prev_node h i prev (p # ps) = seq (h_get h (fst p)) (\<lambda>n.
     if node_id n = i then (case prev of None \<Rightarrow> crash OutOfBounds | Some q \<Rightarrow> ret q)
     else prev_node h i (Some (fst p)) ps)"

definition tag_text :: "html_node heap \<Rightarrow> nat \<Rightarrow> string exec" where
  "tag_text h p = seq (h_get h p) (\<lambda>n. case tag_data (node_tag n) of None \<Rightarrow> crash NullDeref | Some b \<Rightarrow> ret b)"

function skip_spaces :: "string \<Rightarrow> nat \<Rightarrow> nat exec" where
  "skip_spaces mem p =
     (if p < length mem then (if mem ! p = CHR '' '' then skip_spaces mem (p + 1) else ret p)
      else crash OutOfBounds)"
  by pat_completeness auto
termination by (relation "measure (\<lambda>(mem, p). length mem - p)") auto

declare skip_spaces.simps [simp del]

text \<open>
  The IV and the key are read the same way, from a pointer into the data of the tag: up to the colon, over
  the blanks, and into a \<^verbatim>\<open><code>\<close> tag when there is one. The result is the block copied, and where it began.
\<close>

definition value_to :: "string \<Rightarrow> nat \<Rightarrow> char \<Rightarrow> (string \<times> nat) option exec" where
  "value_to d start stop = seq (strchr d start stop) (\<lambda>e. case e of
     None \<Rightarrow> ret None
   | Some endMarker \<Rightarrow> seq (slice d start (endMarker - start)) (\<lambda>cs. ret (Some (cs @ [NUL], start))))"

definition read_value :: "string \<Rightarrow> nat \<Rightarrow> (string \<times> nat) option exec" where
  "read_value d p = seq (strchr d p CHR '':'') (\<lambda>c. case c of
     None \<Rightarrow> ret None
   | Some q \<Rightarrow> seq (skip_spaces d (q + 1)) (\<lambda>q. seq (rdl d q) (\<lambda>ch.
       if ch = CHR ''<'' then seq (strchr d q CHR ''>'') (\<lambda>g. case g of
           None \<Rightarrow> crash NullDeref
         | Some g \<Rightarrow> value_to d (g + 1) CHR ''<'')
       else value_to d q CHR 0x0A)))"

definition section_block :: "string \<Rightarrow> string exec" where
  "section_block b = seq (cstr b 0) (\<lambda>s. ret (map lower s @ [NUL]))"

fun extract_infos :: "(nat \<times> nat) list \<Rightarrow> html_parser \<Rightarrow> html_parser exec" where
  "extract_infos [] hp = ret hp"
| "extract_infos (p # ps) hp =
     seq (h_get (hp_heap hp) (fst p)) (\<lambda>node.
     seq (tag_text (hp_heap hp) (fst p)) (\<lambda>d. seq (cstr d 0) (\<lambda>s.
     case find_sub ''<b>IV</b>'' s of
       None \<Rightarrow> extract_infos ps hp
     | Some off \<Rightarrow>
         seq (prev_node (hp_heap hp) (node_id node) None (sortedTags hp)) (\<lambda>prev.
         seq (tag_text (hp_heap hp) prev) (\<lambda>b. seq (section_block b) (\<lambda>sec.
         seq (read_value d off) (\<lambda>iv. case iv of
           None \<Rightarrow> ret (hp\<lparr>hp_error := NO_IV_FOUND\<rparr>)
         | Some (ivb, at) \<Rightarrow> seq (read_value d at) (\<lambda>key. case key of
             None \<Rightarrow> ret (hp\<lparr>hp_error := NO_KEY_FOUND\<rparr>)
           | Some (keyb, at') \<Rightarrow>
               extract_infos ps (hp\<lparr>decryptionList := decryptionList hp @ [\<lparr>di_section = sec, di_iv = ivb, di_key = keyb\<rparr>]\<rparr>)))))))))"

definition ExtractDecryptionInfo :: "html_parser \<Rightarrow> html_parser exec" where
  "ExtractDecryptionInfo hp = seq (GetAllSortedTagsByName hp (''ul'' @ [NUL])) (\<lambda>ps. extract_infos ps hp)"

subsection \<open>Parsing a page\<close>

definition ParseHtmlTags :: "(nat \<Rightarrow> char) \<Rightarrow> string \<Rightarrow> u32 \<Rightarrow> html_parser \<Rightarrow> (bool \<times> html_parser) exec" where
  "ParseHtmlTags junk mem bufferLength hp =
     seq (scan_tags mem (unat bufferLength) 0 hp) (\<lambda>hp.
     seq (combine_all hp) (\<lambda>r.
       if fst r = 0 then
         seq (RetrieveDataBetweenTags junk mem (snd r)) (\<lambda>hp.
         seq (SortTagsById hp) (\<lambda>hp.
         seq (ExtractDecryptionInfo hp) (\<lambda>hp. ret (True, hp))))
       else ret (False, snd r)))"

subsection \<open>Sorting puts the tags in page order\<close>

definition pair_id :: "html_node heap \<Rightarrow> nat \<times> nat \<Rightarrow> u32" where
  "pair_id h p = node_id (the (h_obj h (fst p)))"

definition pair_live :: "html_node heap \<Rightarrow> nat \<times> nat \<Rightarrow> bool" where
  "pair_live h p \<longleftrightarrow> fst p \<noteq> 0 \<and> h_obj h (fst p) \<noteq> None"

lemma pair_live_get: "pair_live h p \<Longrightarrow> \<exists>n. h_get h (fst p) = ret n \<and> node_id n = pair_id h p"
  by (auto simp: pair_live_def h_get_def pair_id_def)

lemma scan_min_ok:
  assumes "\<forall>p \<in> set ps. pair_live h p" "best < length pre + length ps" "minId = pair_id h ((pre @ ps) ! best)"
    and "pre \<noteq> [] \<longrightarrow> best < length pre" "pre = [] \<longrightarrow> best = 0"
    and "\<forall>j < length pre. minId \<le> pair_id h ((pre @ ps) ! j)" "\<forall>j < best. minId < pair_id h ((pre @ ps) ! j)"
  shows "\<exists>i < length (pre @ ps). scan_min h minId best (length pre) ps = ret i \<and>
    (\<forall>j < length (pre @ ps). pair_id h ((pre @ ps) ! i) \<le> pair_id h ((pre @ ps) ! j)) \<and>
    (\<forall>j < i. pair_id h ((pre @ ps) ! i) < pair_id h ((pre @ ps) ! j))"
  using assms
proof (induction ps arbitrary: pre best minId)
  case Nil
  then show ?case by auto
next
  case (Cons p ps)
  obtain n where n: "h_get h (fst p) = ret n" "node_id n = pair_id h p" using Cons.prems(1) pair_live_get by fastforce
  have nth: "(pre @ p # ps) ! length pre = p" by simp
  show ?case
  proof (cases "pair_id h p < minId")
    case True
    have "\<exists>i < length ((pre @ [p]) @ ps). scan_min h (pair_id h p) (length pre) (length (pre @ [p])) ps = ret i \<and>
      (\<forall>j < length ((pre @ [p]) @ ps). pair_id h (((pre @ [p]) @ ps) ! i) \<le> pair_id h (((pre @ [p]) @ ps) ! j)) \<and>
      (\<forall>j < i. pair_id h (((pre @ [p]) @ ps) ! i) < pair_id h (((pre @ [p]) @ ps) ! j))"
      using Cons.prems True nth
      by (intro Cons.IH) (auto simp: less_Suc_eq nth_append dest: less_le_trans)
    with n True show ?thesis by simp
  next
    case False
    have "\<exists>i < length ((pre @ [p]) @ ps). scan_min h minId best (length (pre @ [p])) ps = ret i \<and>
      (\<forall>j < length ((pre @ [p]) @ ps). pair_id h (((pre @ [p]) @ ps) ! i) \<le> pair_id h (((pre @ [p]) @ ps) ! j)) \<and>
      (\<forall>j < i. pair_id h (((pre @ [p]) @ ps) ! i) < pair_id h (((pre @ [p]) @ ps) ! j))"
      using Cons.prems False nth
      by (intro Cons.IH) (auto simp: less_Suc_eq not_less)
    with n False show ?thesis by simp
  qed
qed

lemma find_min_ok:
  assumes "\<forall>p \<in> set ps. pair_live h p" "ps \<noteq> []"
  shows "\<exists>a x b. ps = a @ x # b \<and> find_min h ps = ret (length a) \<and>
    (\<forall>y \<in> set a. pair_id h x < pair_id h y) \<and> (\<forall>y \<in> set b. pair_id h x \<le> pair_id h y)"
proof -
  obtain p rest where ps: "ps = p # rest" using assms(2) by (cases ps) auto
  obtain n where n: "h_get h (fst p) = ret n" "node_id n = pair_id h p" using assms(1) ps pair_live_get by fastforce
  from scan_min_ok [of ps h 0 "[]" "pair_id h p"] assms(1) ps obtain i where i: "i < length ps"
    "scan_min h (pair_id h p) 0 0 ps = ret i" "\<forall>j < length ps. pair_id h (ps ! i) \<le> pair_id h (ps ! j)"
    "\<forall>j < i. pair_id h (ps ! i) < pair_id h (ps ! j)" by auto
  have "ps = take i ps @ ps ! i # drop (Suc i) ps" using i(1) by (simp add: id_take_nth_drop)
  moreover have "find_min h ps = ret (length (take i ps))" using n i(1,2) by (simp add: find_min_def ps)
  moreover have "\<forall>y \<in> set (take i ps). pair_id h (ps ! i) < pair_id h y" using i(1,4) by (fastforce simp: in_set_conv_nth)
  moreover have "\<forall>y \<in> set (drop (Suc i) ps). pair_id h (ps ! i) \<le> pair_id h y" using i(3) by (metis in_set_dropD in_set_conv_nth)
  ultimately show ?thesis by blast
qed

lemma sort_key_first_min:
  assumes "\<forall>y \<in> set a. f x < f y" "\<forall>y \<in> set b. f x \<le> f y"
  shows "sort_key f (a @ x # b) = x # sort_key f (a @ b)"
proof (rule properties_for_sort_key)
  have a: "filter (\<lambda>y. f x = f y) a = []" using assms(1) by (auto simp: filter_empty_conv)
  have st: "filter (\<lambda>y. k = f y) (sort_key f (a @ b)) = filter (\<lambda>y. k = f y) (a @ b)" for k
    using sort_key_stable [of f k "a @ b"] by (simp add: eq_commute [of k])
  show "filter (\<lambda>y. f k = f y) (x # sort_key f (a @ b)) = filter (\<lambda>y. f k = f y) (a @ x # b)" for k
    using a by (auto simp: st)
  show "sorted (map f (x # sort_key f (a @ b)))" using assms by (auto simp: less_imp_le)
qed simp

lemma sort_loop_ok:
  assumes "\<forall>p \<in> set complete. pair_live h p" "length complete = k" "length result + k = listSize"
  shows "sort_loop h listSize k complete result = ret ([], result @ sort_key (pair_id h) complete)"
  using assms
proof (induction k arbitrary: complete result)
  case (Suc k)
  then have "complete \<noteq> []" by auto
  with find_min_ok [OF Suc.prems(1)] obtain a x b where m: "complete = a @ x # b" "find_min h complete = ret (length a)"
    "\<forall>y \<in> set a. pair_id h x < pair_id h y" "\<forall>y \<in> set b. pair_id h x \<le> pair_id h y" by blast
  have "sort_loop h listSize k (a @ b) (result @ [x]) = ret ([], (result @ [x]) @ sort_key (pair_id h) (a @ b))"
    using Suc.prems m(1) by (intro Suc.IH) auto
  with m(2) Suc.prems(3) show ?case by (simp add: m(1) sort_key_first_min [OF m(3,4)])
qed simp

text \<open>C22: \<open>SortTagsById\<close> moves all complete tags to the sorted list, in the order of the page: the list is the stable
  sort of the complete tags by the number of the opening tag.\<close>

theorem SortTagsById_sorts:
  assumes "\<forall>p \<in> set (completeTags hp). pair_live (hp_heap hp) p" "sortedTags hp = []"
  shows "SortTagsById hp = ret (hp\<lparr>completeTags := [], sortedTags := sort_key (pair_id (hp_heap hp)) (completeTags hp)\<rparr>)"
  using sort_loop_ok [OF assms(1) refl, of "[]" "length (completeTags hp)"] assms(2) by (simp add: SortTagsById_def)

definition two_pairs :: html_parser where
  "two_pairs = new_html_parser\<lparr>completeTags := [(2, 3), (4, 5)], hp_heap := \<lparr>h_next = 6, h_obj =
     [2 \<mapsto> \<lparr>node_tag = new_tag, node_id = 7\<rparr>, 4 \<mapsto> \<lparr>node_tag = new_tag, node_id = 1\<rparr>]\<rparr>\<rparr>"

theorem SortTagsById_sorts_witness:
  "SortTagsById two_pairs = ret (two_pairs\<lparr>completeTags := [], sortedTags := [(4, 5), (2, 3)]\<rparr>)"
proof -
  have "\<forall>p \<in> set (completeTags two_pairs). pair_live (hp_heap two_pairs) p" "sortedTags two_pairs = []"
    by (auto simp: two_pairs_def pair_live_def new_html_parser_def)
  moreover have "sort_key (pair_id (hp_heap two_pairs)) (completeTags two_pairs) = [(4, 5), (2, 3)]"
    by (simp add: two_pairs_def pair_id_def word_le_nat_alt)
  ultimately show ?thesis using SortTagsById_sorts [of two_pairs] by simp
qed

subsection \<open>Filters\<close>

text \<open>A filter selects its own tag exactly when the memory behind the copied name happens to hold a zero, since
  \<open>AddFilter\<close> does not terminate the copy.\<close>

theorem AddFilter_own_tag:
  assumes "terminated f" "length f < 128" "tagFilters hp = []"
  shows "\<exists>hp'. AddFilter junk (Some f) hp = (0, hp') \<and> TagIsOfInterest hp' (f @ [NUL]) = ret (junk = NUL)"
proof -
  have "str_equal (f @ [junk]) (f @ [NUL]) = ret (junk = NUL)"
    using str_equal_terminated [OF assms(1,1), of "[]" "[]"] str_equal_unterminated [OF assms(1), of junk "[]"]
    by (cases "junk = NUL") simp_all
  then show ?thesis using assms by (simp add: AddFilter_def TagIsOfInterest_def strncpy_exact)
qed

theorem AddFilter_own_tag_witness:
  "\<exists>hp'. AddFilter CHR ''x'' (Some ''ul'') new_html_parser = (0, hp') \<and> TagIsOfInterest hp' (''ul'' @ [NUL]) = ret False"
  using AddFilter_own_tag [of "''ul''" new_html_parser "CHR ''x''"] by (simp add: terminated_def new_html_parser_def)

subsection \<open>Pairing on pages whose elements follow one another\<close>

definition nid :: "html_node heap \<Rightarrow> nat \<Rightarrow> u32" where
  "nid h p = node_id (the (h_obj h p))"

definition nname :: "html_node heap \<Rightarrow> nat \<Rightarrow> string" where
  "nname h p = butlast (the (tag (node_tag (the (h_obj h p)))))"

text \<open>A live node with a terminated value.\<close>

definition good_node :: "html_node heap \<Rightarrow> nat \<Rightarrow> bool" where
  "good_node h p \<longleftrightarrow> p \<noteq> 0 \<and> (\<exists>n nm. h_obj h p = Some n \<and> tag (node_tag n) = Some (nm @ [NUL]) \<and> terminated nm)"

lemma good_node_get:
  assumes "good_node h p"
  shows "\<exists>n. h_get h p = ret n \<and> node_id n = nid h p" "tag_value h p = ret (nname h p @ [NUL])" "terminated (nname h p)"
  using assms by (auto simp: good_node_def h_get_def nid_def nname_def tag_value_def)

lemma nodes_named_ok:
  assumes "\<forall>p \<in> set ps. good_node h p" "terminated nm"
  shows "nodes_named h (nm @ [NUL]) ps = ret (filter (\<lambda>p. nname h p = nm) ps)"
  using assms(1)
proof (induction ps)
  case (Cons p ps)
  then have "good_node h p" by simp
  from good_node_get(2,3) [OF this] str_equal_terminated [OF _ assms(2), of "nname h p" "[]" "[]"] Cons show ?case by simp
qed simp

lemma remove_node_ok:
  assumes "\<forall>p \<in> set ps. good_node h p" "inj_on (nid h) (set ps)" "distinct ps" "p \<in> set ps"
  shows "remove_node h (nid h p) ps = ret (filter (\<lambda>q. q \<noteq> p) ps)"
  using assms
proof (induction ps)
  case (Cons q ps)
  from Cons.prems(1) obtain n where n: "h_get h q = ret n" "node_id n = nid h q" using good_node_get(1) by fastforce
  show ?case
  proof (cases "q = p")
    case True
    then have "filter (\<lambda>q. q \<noteq> p) ps = ps" using Cons.prems(3) by (auto simp: filter_id_conv)
    with True n show ?thesis by simp
  next
    case False
    then have "nid h q \<noteq> nid h p" using Cons.prems(2,4) by (auto simp: inj_on_def)
    with False n Cons show ?thesis by (simp add: inj_on_def)
  qed
qed simp

text \<open>The numbers of the opening and of the closing tags of one name: each element ends before the next begins.\<close>

fun interleaved :: "u32 list \<Rightarrow> u32 list \<Rightarrow> bool" where
  "interleaved [] [] = True"
| "interleaved (p # ps) (c # cs) = (p < c \<and> (\<forall>q \<in> set ps. c < q) \<and> interleaved ps cs)"
| "interleaved _ _ = False"

definition tags_ok :: "html_parser \<Rightarrow> bool" where
  "tags_ok hp \<longleftrightarrow> (\<forall>p \<in> set (openingTags hp) \<union> set (closingTags hp). good_node (hp_heap hp) p) \<and>
     distinct (openingTags hp) \<and> distinct (closingTags hp) \<and>
     inj_on (nid (hp_heap hp)) (set (openingTags hp)) \<and> inj_on (nid (hp_heap hp)) (set (closingTags hp))"

abbreviation opening_of :: "html_parser \<Rightarrow> string \<Rightarrow> nat list" where
  "opening_of hp nm \<equiv> filter (\<lambda>p. nname (hp_heap hp) p = nm) (openingTags hp)"

abbreviation closing_of :: "html_parser \<Rightarrow> string \<Rightarrow> nat list" where
  "closing_of hp nm \<equiv> filter (\<lambda>p. nname (hp_heap hp) p = nm) (closingTags hp)"

definition drop_pair :: "nat \<Rightarrow> nat \<Rightarrow> html_parser \<Rightarrow> html_parser" where
  "drop_pair p c hp = hp\<lparr>openingTags := filter (\<lambda>q. q \<noteq> p) (openingTags hp),
     closingTags := filter (\<lambda>q. q \<noteq> c) (closingTags hp), completeTags := completeTags hp @ [(p, c)]\<rparr>"

lemma complete_pair_ok:
  assumes "tags_ok hp" "p \<in> set (openingTags hp)" "c \<in> set (closingTags hp)"
  shows "complete_pair p c hp = ret (drop_pair p c hp)" "tags_ok (drop_pair p c hp)"
proof -
  let ?h = "hp_heap hp"
  have g: "good_node ?h p" "good_node ?h c" using assms by (auto simp: tags_ok_def)
  from good_node_get(1) [OF g(1)] good_node_get(1) [OF g(2)] obtain pn cn where
    n: "h_get ?h p = ret pn" "node_id pn = nid ?h p" "h_get ?h c = ret cn" "node_id cn = nid ?h c" by blast
  have "remove_node ?h (nid ?h p) (openingTags hp) = ret (filter (\<lambda>q. q \<noteq> p) (openingTags hp))"
    "remove_node ?h (nid ?h c) (closingTags hp) = ret (filter (\<lambda>q. q \<noteq> c) (closingTags hp))"
    using assms by (auto simp: tags_ok_def intro!: remove_node_ok)
  with n show "complete_pair p c hp = ret (drop_pair p c hp)"
    by (simp add: complete_pair_def RemoveOpeningTag_def RemoveClosingTag_def drop_pair_def)
  show "tags_ok (drop_pair p c hp)" using assms(1) by (auto simp: tags_ok_def drop_pair_def inj_on_def)
qed

text \<open>The opening tag found for a closing tag is the first one left of its name.\<close>

lemma find_open_first:
  assumes "\<forall>q \<in> set (p # ps). good_node h q" "nid h p < nid h c" "\<forall>q \<in> set ps. nid h c < nid h q"
  shows "find_open h (length (p # ps)) (nid h c) None (p # ps) = ret (Matched p)"
proof -
  from assms(1) obtain n where n: "h_get h p = ret n" "node_id n = nid h p" using good_node_get(1) by fastforce
  show ?thesis
  proof (cases ps)
    case Nil
    with n assms(2) show ?thesis by simp
  next
    case (Cons q qs)
    from assms(1) Cons obtain m where "h_get h q = ret m" "node_id m = nid h q" using good_node_get(1) by fastforce
    with n assms(2,3) Cons show ?thesis by simp
  qed
qed

definition drop_name :: "string \<Rightarrow> html_parser \<Rightarrow> html_parser" where
  "drop_name nm hp = hp\<lparr>openingTags := filter (\<lambda>p. nname (hp_heap hp) p \<noteq> nm) (openingTags hp),
     closingTags := filter (\<lambda>p. nname (hp_heap hp) p \<noteq> nm) (closingTags hp),
     completeTags := completeTags hp @ zip (opening_of hp nm) (closing_of hp nm)\<rparr>"

lemma combine_closings_ok:
  assumes "tags_ok hp" "terminated nm" "opening_of hp nm = os" "closing_of hp nm = cs"
    and "interleaved (map (nid (hp_heap hp)) os) (map (nid (hp_heap hp)) cs)"
  shows "combine_closings (nm @ [NUL]) cs hp = ret (drop_name nm hp)"
  using assms
proof (induction cs arbitrary: os hp)
  case Nil
  then have "os = []" by (cases os) auto
  with Nil show ?case by (auto simp: drop_name_def filter_empty_conv filter_id_conv)
next
  case (Cons c cs)
  let ?h = "hp_heap hp"
  obtain p ps where os: "os = p # ps" using Cons.prems(5) by (cases os) auto
  have mem: "set os \<subseteq> set (openingTags hp)" "set (c # cs) \<subseteq> set (closingTags hp)"
    unfolding Cons.prems(3,4) [symmetric] by auto
  have pc: "p \<in> set (openingTags hp)" "c \<in> set (closingTags hp)" using mem os by auto
  have good: "\<forall>q \<in> set os. good_node ?h q" "good_node ?h c" using mem Cons.prems(1) pc by (auto simp: tags_ok_def)
  have all: "GetAllOpeningTagsByName hp (nm @ [NUL]) = ret os"
    using Cons.prems(1-3) by (simp add: GetAllOpeningTagsByName_def tags_ok_def nodes_named_ok)
  obtain cn where cn: "h_get ?h c = ret cn" "node_id cn = nid ?h c" using good_node_get(1) [OF good(2)] by blast
  have fo: "find_open ?h (length os) (nid ?h c) None os = ret (Matched p)"
    unfolding os using good(1) Cons.prems(5) os by (intro find_open_first) auto
  note C = complete_pair_ok [OF Cons.prems(1) pc]
  let ?hp = "drop_pair p c hp"
  have dist: "distinct os" "distinct (c # cs)"
    using Cons.prems(1) unfolding Cons.prems(3,4) [symmetric] by (auto simp: tags_ok_def)
  have o1: "opening_of ?hp nm = ps"
  proof -
    have "opening_of ?hp nm = filter (\<lambda>q. q \<noteq> p) os"
      unfolding Cons.prems(3) [symmetric] by (simp add: drop_pair_def conj_commute)
    then show ?thesis using dist(1) os by (auto simp: filter_id_conv)
  qed
  have c1: "closing_of ?hp nm = cs"
  proof -
    have "closing_of ?hp nm = filter (\<lambda>q. q \<noteq> c) (c # cs)"
      unfolding Cons.prems(4) [symmetric] by (simp add: drop_pair_def conj_commute)
    then show ?thesis using dist(2) by (auto simp: filter_id_conv)
  qed
  have hh: "hp_heap ?hp = ?h" by (simp add: drop_pair_def)
  have "interleaved (map (nid (hp_heap ?hp)) ps) (map (nid (hp_heap ?hp)) cs)" using Cons.prems(5) os by (simp add: hh)
  from Cons.IH [OF C(2) Cons.prems(2) o1 c1 this] have IH: "combine_closings (nm @ [NUL]) cs ?hp = ret (drop_name nm ?hp)" .
  have "p \<in> set (opening_of hp nm)" "c \<in> set (closing_of hp nm)" unfolding Cons.prems(3,4) os by simp_all
  then have nmp: "nname ?h p = nm" "nname ?h c = nm" by simp_all
  have fe: "filter (\<lambda>x. x \<noteq> p \<and> nname ?h x \<noteq> nm) xs = filter (\<lambda>x. nname ?h x \<noteq> nm) xs"
    "filter (\<lambda>x. x \<noteq> c \<and> nname ?h x \<noteq> nm) xs = filter (\<lambda>x. nname ?h x \<noteq> nm) xs" for xs
    using nmp by (auto intro: filter_cong)
  have "drop_name nm ?hp = drop_name nm hp"
    unfolding drop_name_def o1 c1 Cons.prems(3,4) os by (simp add: drop_pair_def fe)
  with all cn fo C(1) IH show ?case by simp
qed

lemma CombineTags_ok:
  assumes ok: "tags_ok hp" and ne: "openingTags hp \<noteq> []" and cl: "closingTags hp = c # rest"
    and inter: "interleaved (map (nid (hp_heap hp)) (opening_of hp (nname (hp_heap hp) c)))
      (map (nid (hp_heap hp)) (closing_of hp (nname (hp_heap hp) c)))"
  shows "CombineTags hp = ret (if openingTags (drop_name (nname (hp_heap hp) c) hp) = [] then 0 else 1,
    drop_name (nname (hp_heap hp) c) hp)"
proof -
  let ?h = "hp_heap hp"
  have g: "good_node ?h c" using ok cl by (simp add: tags_ok_def)
  note N = good_node_get(2,3) [OF g]
  have "GetAllClosingTagsByName hp (nname ?h c @ [NUL]) = ret (closing_of hp (nname ?h c))"
    using ok N(2) by (simp add: GetAllClosingTagsByName_def tags_ok_def nodes_named_ok)
  then show ?thesis
    using ne combine_closings_ok [OF ok N(2) refl refl inter] by (simp add: CombineTags_def cl N(1))
qed

lemma drop_name_ok: "tags_ok hp \<Longrightarrow> tags_ok (drop_name nm hp)"
  by (auto simp: tags_ok_def drop_name_def inj_on_def)

text \<open>Every name has its elements one after the other.\<close>

definition flat_page :: "html_parser \<Rightarrow> bool" where
  "flat_page hp \<longleftrightarrow> tags_ok hp \<and>
     (\<forall>nm. interleaved (map (nid (hp_heap hp)) (opening_of hp nm)) (map (nid (hp_heap hp)) (closing_of hp nm)))"

lemma flat_page_drop: "flat_page hp \<Longrightarrow> flat_page (drop_name nm hp)"
proof -
  assume f: "flat_page hp"
  have "opening_of (drop_name nm hp) m = (if m = nm then [] else opening_of hp m)"
    "closing_of (drop_name nm hp) m = (if m = nm then [] else closing_of hp m)" for m
    by (auto simp: drop_name_def filter_empty_conv intro: filter_cong)
  with f show ?thesis by (simp add: flat_page_def drop_name_ok) (simp add: drop_name_def)
qed

lemma flat_page_empty: "flat_page hp \<Longrightarrow> openingTags hp = [] \<longleftrightarrow> closingTags hp = []"
proof
  assume f: "flat_page hp"
  have i: "interleaved (map (nid (hp_heap hp)) (opening_of hp m)) (map (nid (hp_heap hp)) (closing_of hp m))" for m
    using f by (simp add: flat_page_def)
  have n: "interleaved [] cs \<longleftrightarrow> cs = []" "interleaved ps [] \<longleftrightarrow> ps = []" for ps cs
    by (cases cs; simp) (cases ps; simp)
  show "closingTags hp = []" if "openingTags hp = []"
  proof (cases "closingTags hp")
    case (Cons c cs)
    with i [of "nname (hp_heap hp) c"] that show ?thesis by (simp add: n)
  qed
  show "openingTags hp = []" if "closingTags hp = []"
  proof (cases "openingTags hp")
    case (Cons c cs)
    with i [of "nname (hp_heap hp) c"] that show ?thesis by (simp add: n)
  qed
qed

lemma combine_all_ok:
  assumes "flat_page hp"
  shows "\<exists>cs. combine_all hp = ret (0, hp\<lparr>openingTags := [], closingTags := [], completeTags := cs\<rparr>) \<and>
    (\<forall>nm. filter (\<lambda>pc. nname (hp_heap hp) (fst pc) = nm) cs =
      filter (\<lambda>pc. nname (hp_heap hp) (fst pc) = nm) (completeTags hp) @ zip (opening_of hp nm) (closing_of hp nm))"
  using assms
proof (induction "length (closingTags hp)" arbitrary: hp rule: less_induct)
  case less
  let ?h = "hp_heap hp"
  show ?case
  proof (cases "closingTags hp")
    case Nil
    with flat_page_empty [OF less.prems] have e: "openingTags hp = []" by simp
    then have "combine_all hp = ret (0, hp)" by (subst combine_all.simps) (simp add: CombineTags_def)
    with e Nil show ?thesis by (intro exI [of _ "completeTags hp"]) simp
  next
    case (Cons c rest)
    with flat_page_empty [OF less.prems] have ne: "openingTags hp \<noteq> []" by simp
    let ?nm = "nname ?h c"
    let ?hp = "drop_name ?nm hp"
    have C: "CombineTags hp = ret (if openingTags ?hp = [] then 0 else 1, ?hp)"
      using less.prems by (intro CombineTags_ok [OF _ ne Cons]) (auto simp: flat_page_def)
    have f: "flat_page ?hp" using flat_page_drop [OF less.prems] .
    have "length (closingTags ?hp) < length (closingTags hp)" by (simp add: drop_name_def Cons) (simp add: le_imp_less_Suc)
    from less.hyps [OF this f] obtain cs where cs: "combine_all ?hp = ret (0, ?hp\<lparr>openingTags := [], closingTags := [], completeTags := cs\<rparr>)"
      "\<And>nm. filter (\<lambda>pc. nname (hp_heap ?hp) (fst pc) = nm) cs =
        filter (\<lambda>pc. nname (hp_heap ?hp) (fst pc) = nm) (completeTags ?hp) @ zip (opening_of ?hp nm) (closing_of ?hp nm)"
      by blast
    have "combine_all hp = combine_all ?hp"
    proof (cases "openingTags ?hp = []")
      case True
      then have "combine_all ?hp = ret (0, ?hp)" by (subst combine_all.simps) (simp add: CombineTags_def)
      with C True show ?thesis by (subst combine_all.simps) simp
    next
      case False
      with C show ?thesis by (subst combine_all.simps) simp
    qed
    moreover have "filter (\<lambda>pc. nname ?h (fst pc) = nm) (zip (opening_of hp ?nm) (closing_of hp ?nm)) =
        (if nm = ?nm then zip (opening_of hp ?nm) (closing_of hp ?nm) else [])" for nm
      by (auto simp: filter_id_conv filter_empty_conv dest!: set_zip_leftD)
    then have "filter (\<lambda>pc. nname ?h (fst pc) = nm) cs =
        filter (\<lambda>pc. nname ?h (fst pc) = nm) (completeTags hp) @ zip (opening_of hp nm) (closing_of hp nm)" for nm
      using cs(2) [of nm] by (cases "nm = ?nm") (simp_all add: drop_name_def filter_empty_conv conj_commute cong: conj_cong)
    ultimately show ?thesis using cs(1) by (intro exI [of _ cs]) (simp add: drop_name_def)
  qed
qed

text \<open>C14: when the elements of each name follow one another on the page, the loop over \<open>CombineTags\<close> ends with
  result 0 and no opening tag left, and pairs, for every name, the first opening tag with the first closing tag, the
  second with the second, and so on.\<close>

theorem combine_all_pairs:
  assumes "flat_page hp" "completeTags hp = []"
  shows "\<exists>hp'. combine_all hp = ret (0, hp') \<and> openingTags hp' = [] \<and>
    (\<forall>nm. filter (\<lambda>pc. nname (hp_heap hp) (fst pc) = nm) (completeTags hp') = zip (opening_of hp nm) (closing_of hp nm))"
  using combine_all_ok [OF assms(1)] assms(2) by fastforce

text \<open>A page with one element of name \<open>ul\<close>, and one with two of them nested, after the scan.\<close>

definition sample_node :: "string \<Rightarrow> u32 \<Rightarrow> html_node" where
  "sample_node nm i = \<lparr>node_tag = new_tag\<lparr>tag := Some (nm @ [NUL])\<rparr>, node_id = i\<rparr>"

definition one_element :: html_parser where
  "one_element = new_html_parser\<lparr>openingTags := [2], closingTags := [3],
     hp_heap := \<lparr>h_next = 4, h_obj = [2 \<mapsto> sample_node ''ul'' 0, 3 \<mapsto> sample_node ''ul'' 1]\<rparr>\<rparr>"

definition nested_elements :: html_parser where
  "nested_elements = new_html_parser\<lparr>openingTags := [2, 3], closingTags := [4, 5],
     hp_heap := \<lparr>h_next = 6, h_obj = [2 \<mapsto> sample_node ''ul'' 0, 3 \<mapsto> sample_node ''ul'' 1,
       4 \<mapsto> sample_node ''ul'' 2, 5 \<mapsto> sample_node ''ul'' 3]\<rparr>\<rparr>"

theorem combine_all_pairs_witness:
  "\<exists>hp'. combine_all one_element = ret (0, hp') \<and> openingTags hp' = [] \<and>
    filter (\<lambda>pc. nname (hp_heap one_element) (fst pc) = ''ul'') (completeTags hp') = [(2, 3)]"
proof -
  have "flat_page one_element"
    by (auto simp: flat_page_def tags_ok_def one_element_def new_html_parser_def good_node_def sample_node_def terminated_def
        new_tag_def nid_def nname_def)
  moreover have "opening_of one_element ''ul'' = [2]" "closing_of one_element ''ul'' = [3]" "completeTags one_element = []"
    by (simp_all add: one_element_def new_html_parser_def sample_node_def nname_def new_tag_def)
  ultimately show ?thesis using combine_all_pairs [of one_element] by (metis zip_Cons_Cons zip_Nil)
qed

subsection \<open>Nested elements\<close>

lemma find_open_none:
  assumes "\<forall>q \<in> set ps. good_node h q \<and> nid h q \<le> i" "sz \<noteq> 1"
  shows "find_open h sz i prev ps = ret Unmatched"
  using assms
proof (induction ps arbitrary: prev)
  case (Cons p ps)
  then obtain n where "h_get h p = ret n" "node_id n = nid h p" using good_node_get(1) by fastforce
  with Cons show ?case by (simp add: not_less [symmetric])
qed simp

lemma combine_closings_none:
  assumes "tags_ok hp" "terminated nm" "length (opening_of hp nm) \<noteq> 1" "set cs \<subseteq> set (closingTags hp)"
    and "\<forall>p \<in> set (opening_of hp nm). \<forall>c \<in> set cs. nid (hp_heap hp) p \<le> nid (hp_heap hp) c"
  shows "combine_closings (nm @ [NUL]) cs hp = ret hp"
  using assms(4,5)
proof (induction cs)
  case (Cons c cs)
  from Cons.prems(1) assms(1) obtain cn where cn: "h_get (hp_heap hp) c = ret cn" "node_id cn = nid (hp_heap hp) c"
    using good_node_get(1) [of "hp_heap hp" c] by (auto simp: tags_ok_def)
  have "GetAllOpeningTagsByName hp (nm @ [NUL]) = ret (opening_of hp nm)"
    using assms(1,2) by (simp add: GetAllOpeningTagsByName_def tags_ok_def nodes_named_ok)
  moreover have "find_open (hp_heap hp) (length (opening_of hp nm)) (nid (hp_heap hp) c) None (opening_of hp nm) = ret Unmatched"
    using assms(1,3) Cons.prems(2) by (intro find_open_none) (auto simp: tags_ok_def)
  ultimately show ?case using cn Cons by simp
qed simp



subsection \<open>The scan of the page ends\<close>

lemma slice_returns: "slice xs i n \<noteq> None"
  by (simp add: slice_def)

lemma rdl_returns: "rdl xs i \<noteq> None"
  by (simp add: rdl_def)

lemmas returns = strchr_returns slice_returns rdl_returns SetAttributes_returns str_equal_returns

lemma SetValue_returns: "SetValue mem tv len t \<noteq> None"
  by (auto simp: SetValue_def seq_eq_None slice_returns simp del: not_None_eq split: option.splits)

lemma TagIsOfInterest_returns: "TagIsOfInterest hp b \<noteq> None"
proof -
  have "tag_in_filters fs b \<noteq> None" for fs
    by (induction fs) (auto simp: seq_eq_None str_equal_returns simp del: not_None_eq)
  then show ?thesis by (simp add: TagIsOfInterest_def)
qed

lemma AddClosingTag_returns: "AddClosingTag mem p hp \<noteq> None"
  by (auto simp: AddClosingTag_def Let_def seq_eq_None returns SetValue_returns TagIsOfInterest_returns
      simp del: not_None_eq split: option.splits)

lemma opening_node_returns: "opening_node mem start len a \<noteq> None"
  by (auto simp: opening_node_def seq_eq_None returns SetValue_returns simp del: not_None_eq split: option.splits)

lemma AddOpeningTag_returns: "AddOpeningTag mem p len hp \<noteq> None"
  by (auto simp: AddOpeningTag_def Let_def seq_eq_None returns opening_node_returns TagIsOfInterest_returns
      simp del: not_None_eq split: option.splits)

text \<open>C25: the loop of \<open>ParseHtmlTags\<close> over the page returns (or faults) on every page: the position grows with every
  tag and every comment.\<close>

theorem scan_tags_returns: "scan_tags mem endPtr cur hp \<noteq> None"
proof (induction "endPtr - cur" arbitrary: cur hp rule: less_induct)
  case less
  show ?case
  proof (cases "cur < endPtr")
    case True
    have gt: "cur < te" if "strchr mem cur CHR ''<'' = ret (Some ts)" "strchr mem ts CHR ''>'' = ret (Some te)" for ts te
    proof -
      have "cur \<le> ts" "ts \<le> te" using that by (auto dest: strchr_ge)
      moreover have "mem ! ts = CHR ''<''" "mem ! te = CHR ''>''" using that by (auto dest: strchr_char)
      ultimately show ?thesis by (cases "ts = te") auto
    qed
    have IH: "scan_tags mem endPtr c hp' \<noteq> None" if "cur < c" for c hp'
      using that True by (intro less) auto
    show ?thesis
      by (subst scan_tags.simps)
        (auto simp: seq_eq_None returns AddClosingTag_returns AddOpeningTag_returns IH gt simp del: not_None_eq split: option.splits)
  qed (subst scan_tags.simps, simp)
qed

subsection \<open>Keys in the page\<close>

lemma skip_spaces_ok:
  assumes "c \<noteq> CHR '' ''"
  shows "skip_spaces (pre @ replicate k CHR '' '' @ c # post) (length pre) = ret (length pre + k)"
proof (induction k arbitrary: pre)
  case 0
  with assms show ?case by (subst skip_spaces.simps) simp
next
  case (Suc k)
  from Suc [of "pre @ [CHR '' '']"] show ?case by (subst skip_spaces.simps) (simp add: nth_append)
qed

definition value_text :: "string \<Rightarrow> bool" where
  "value_text v \<longleftrightarrow> set v \<inter> {CHR '':'', CHR 0x0A, NUL} = {} \<and> (v \<noteq> [] \<longrightarrow> hd v \<notin> {CHR '' '', CHR ''<''})"

lemma read_value_ok:
  assumes v: "value_text v" and n: "CHR '':'' \<notin> set n" "NUL \<notin> set n"
  shows "read_value (pre @ n @ CHR '':'' # replicate k CHR '' '' @ v @ CHR 0x0A # post) (length pre) =
    ret (Some (v @ [NUL], length pre + length n + 1 + k))"
proof -
  let ?d = "pre @ n @ CHR '':'' # replicate k CHR '' '' @ v @ CHR 0x0A # post"
  obtain c cs where vc: "v @ CHR 0x0A # post = c # cs" "c \<noteq> CHR '' ''" "c \<noteq> CHR ''<''"
    using v by (cases v) (auto simp: value_text_def)
  have 1: "strchr ?d (length pre) CHR '':'' = ret (Some (length pre + length n))" by (rule strchr_skip [OF n])
  define p1 where "p1 = pre @ n @ [CHR '':'']"
  have d1: "?d = p1 @ replicate k CHR '' '' @ c # cs" by (simp add: p1_def vc(1))
  have 2: "skip_spaces ?d (length p1) = ret (length p1 + k)" unfolding d1 by (rule skip_spaces_ok [OF vc(2)])
  define p2 where "p2 = p1 @ replicate k CHR '' ''"
  have d2: "?d = p2 @ v @ CHR 0x0A # post" "?d = p2 @ c # cs" by (simp_all add: p2_def p1_def vc(1))
  have 3: "rdl ?d (length p2) = ret c" unfolding d2(2) by simp
  have 4: "strchr ?d (length p2) CHR 0x0A = ret (Some (length p2 + length v))"
    unfolding d2(1) using v by (intro strchr_skip) (auto simp: value_text_def)
  have 5: "slice ?d (length p2) (length v) = ret v" unfolding d2(1) by simp
  have "length p1 = Suc (length pre + length n)" "length p2 = length p1 + k" by (simp_all add: p1_def p2_def)
  with 1 2 3 4 5 vc(3) show ?thesis by (simp add: read_value_def value_to_def)
qed

text \<open>The text of a list with an IV and a key.\<close>

definition key_text :: "string \<Rightarrow> nat \<Rightarrow> string \<Rightarrow> string \<Rightarrow> nat \<Rightarrow> string \<Rightarrow> string \<Rightarrow> string" where
  "key_text a k iv b k' key c = a @ ''<b>IV</b>:'' @ replicate k CHR '' '' @ iv @ CHR 0x0A # b @
     CHR '':'' # replicate k' CHR '' '' @ key @ CHR 0x0A # c"

definition node_with :: "html_node heap \<Rightarrow> nat \<Rightarrow> string \<Rightarrow> string \<Rightarrow> bool" where
  "node_with h p nm d \<longleftrightarrow> (\<exists>n junk. h_get h p = ret n \<and> tag (node_tag n) = Some (nm @ [NUL]) \<and> terminated nm \<and>
     tag_data (node_tag n) = Some (d @ NUL # junk) \<and> terminated d \<and> node_id n = nid h p)"

text \<open>One list: with an IV and a key it gives a record, without an IV nothing.\<close>

lemma extract_step:
  assumes s: "node_with (hp_heap hp) s nm name" and u: "node_with (hp_heap hp) (fst p) nm' (key_text a k iv b k' key c)"
    and prev: "prev_node (hp_heap hp) (nid (hp_heap hp) (fst p)) None (sortedTags hp) = ret s"
    and first: "find_sub ''<b>IV</b>'' (key_text a k iv b k' key c) = Some (length a)"
    and v: "value_text iv" "value_text key" "CHR '':'' \<notin> set b"
  shows "extract_infos (p # ps) hp = extract_infos ps (hp\<lparr>decryptionList := decryptionList hp @
    [\<lparr>di_section = map lower name @ [NUL], di_iv = iv @ [NUL], di_key = key @ [NUL]\<rparr>]\<rparr>)"
proof -
  let ?h = "hp_heap hp" and ?d = "key_text a k iv b k' key c"
  from s obtain ns js where ns: "h_get ?h s = ret ns" "tag_data (node_tag ns) = Some (name @ NUL # js)" "terminated name"
    by (auto simp: node_with_def)
  from u obtain nu ju where nu: "h_get ?h (fst p) = ret nu" "tag_data (node_tag nu) = Some (?d @ NUL # ju)" "terminated ?d"
    "node_id nu = nid ?h (fst p)" by (auto simp: node_with_def)
  have whole: "cstr (?d @ NUL # ju) 0 = ret ?d" using nu(3) by (rule cstr_terminated)
  have sec: "section_block (name @ NUL # js) = ret (map lower name @ [NUL])"
    using cstr_terminated [OF ns(3)] by (simp add: section_block_def)
  let ?rest = "b @ CHR '':'' # replicate k' CHR '' '' @ key @ CHR 0x0A # c @ NUL # ju"
  have d1: "?d @ NUL # ju = a @ ''<b>IV</b>'' @ CHR '':'' # replicate k CHR '' '' @ iv @ CHR 0x0A # ?rest"
    by (simp add: key_text_def)
  have riv: "read_value (?d @ NUL # ju) (length a) = ret (Some (iv @ [NUL], length a + length ''<b>IV</b>'' + 1 + k))"
    unfolding d1 by (rule read_value_ok [OF v(1)]) simp_all
  define pre where "pre = a @ ''<b>IV</b>:'' @ replicate k CHR '' ''"
  have pre: "length pre = length a + length ''<b>IV</b>'' + 1 + k" by (simp add: pre_def)
  have d2: "?d @ NUL # ju = pre @ (iv @ CHR 0x0A # b) @ CHR '':'' # replicate k' CHR '' '' @ key @ CHR 0x0A # c @ NUL # ju"
    by (simp add: key_text_def pre_def)
  have "NUL \<notin> set b" using nu(3) by (simp add: terminated_def key_text_def)
  then have rkey: "\<exists>at. read_value (?d @ NUL # ju) (length pre) = ret (Some (key @ [NUL], at))"
    unfolding d2 using v by (subst read_value_ok [OF v(2)]) (auto simp: value_text_def)
  from rkey show ?thesis using nu ns riv first whole sec prev by (auto simp: tag_text_def pre)
qed

lemma extract_skip:
  assumes "node_with (hp_heap hp) (fst p) nm d" "find_sub ''<b>IV</b>'' d = None"
  shows "extract_infos (p # ps) hp = extract_infos ps hp"
proof -
  from assms(1) obtain n j where n: "h_get (hp_heap hp) (fst p) = ret n" "tag_data (node_tag n) = Some (d @ NUL # j)" "terminated d"
    by (auto simp: node_with_def)
  with cstr_terminated [OF n(3)] assms(2) show ?thesis by (simp add: tag_text_def)
qed

text \<open>
  The records of a list of tags, each with its name and its text: a list with an IV and a key gives one, whose section is the text of the
  tag just before it; a list without an IV and the other tags give none.
\<close>

inductive records_in :: "string option \<Rightarrow> (string \<times> string) list \<Rightarrow> decryption_info list \<Rightarrow> bool" where
  records_none: "records_in prev [] []"
| records_other: "nm \<noteq> ''ul'' \<Longrightarrow> records_in (Some d) ts is \<Longrightarrow> records_in prev ((nm, d) # ts) is"
| records_plain: "find_sub ''<b>IV</b>'' d = None \<Longrightarrow> records_in (Some d) ts is \<Longrightarrow> records_in prev ((''ul'', d) # ts) is"
| records_here: "d = key_text a k iv b k' key c \<Longrightarrow> find_sub ''<b>IV</b>'' d = Some (length a) \<Longrightarrow> value_text iv \<Longrightarrow>
    value_text key \<Longrightarrow> CHR '':'' \<notin> set b \<Longrightarrow> records_in (Some d) ts is \<Longrightarrow>
    records_in (Some p) ((''ul'', d) # ts) (\<lparr>di_section = map lower p @ [NUL], di_iv = iv @ [NUL], di_key = key @ [NUL]\<rparr> # is)"

lemma prev_node_tags:
  assumes "\<forall>x \<in> set (xs @ q # p # ys). \<exists>nm d. node_with h (fst x) nm d" "distinct (map (\<lambda>x. nid h (fst x)) (xs @ q # p # ys))"
  shows "prev_node h (nid h (fst p)) prev (xs @ q # p # ys) = ret (fst q)"
  using assms
proof (induction xs arbitrary: prev)
  case Nil
  then show ?case by (auto simp: node_with_def)
next
  case (Cons x xs)
  then have "prev_node h (nid h (fst p)) (Some (fst x)) (xs @ q # p # ys) = ret (fst q)" by simp
  moreover obtain n where "h_get h (fst x) = ret n" "node_id n = nid h (fst x)" using Cons.prems(1) by (auto simp: node_with_def)
  ultimately show ?case using Cons.prems(2) by auto
qed

text \<open>The tags with their texts, in one list.\<close>

definition tags_read :: "html_node heap \<Rightarrow> ((nat \<times> nat) \<times> string \<times> string) list \<Rightarrow> bool" where
  "tags_read h ws \<longleftrightarrow> (\<forall>w \<in> set ws. node_with h (fst (fst w)) (fst (snd w)) (snd (snd w)))"

lemma pairs_named_read:
  assumes "tags_read h ws" "terminated nm"
  shows "pairs_named h (nm @ [NUL]) (map fst ws) = ret (map fst (filter (\<lambda>w. fst (snd w) = nm) ws))"
  using assms(1)
proof (induction ws)
  case (Cons w ws)
  then obtain n where n: "h_get h (fst (fst w)) = ret n" "tag (node_tag n) = Some (fst (snd w) @ [NUL])" "terminated (fst (snd w))"
    by (auto simp: tags_read_def node_with_def)
  have "pairs_named h (nm @ [NUL]) (map fst ws) = ret (map fst (filter (\<lambda>w. fst (snd w) = nm) ws))"
    using Cons by (simp add: tags_read_def)
  with n str_equal_terminated [OF n(3) assms(2), of "[]" "[]"] show ?case by (simp add: tag_value_def)
qed simp

lemma extract_records:
  assumes "records_in prev (map snd vs) is" "ws = us @ vs" "prev = (if us = [] then None else Some (snd (snd (last us))))"
    and "tags_read (hp_heap hp) ws" "sortedTags hp = map fst ws" "distinct (map (\<lambda>w. nid (hp_heap hp) (fst (fst w))) ws)"
  shows "extract_infos (map fst (filter (\<lambda>w. fst (snd w) = ''ul'') vs)) hp = ret (hp\<lparr>decryptionList := decryptionList hp @ is\<rparr>)"
  using assms
proof (induction prev "map snd vs" "is" arbitrary: us vs hp rule: records_in.induct)
  case (records_none prev)
  then show ?case by simp
next
  case (records_other nm d ts "is" prev)
  then obtain w vs' where vs: "vs = w # vs'" "snd w = (nm, d)" "ts = map snd vs'" by (auto simp: Cons_eq_map_conv)
  have "extract_infos (map fst (filter (\<lambda>w. fst (snd w) = ''ul'') vs')) hp = ret (hp\<lparr>decryptionList := decryptionList hp @ is\<rparr>)"
    using records_other.prems vs by (intro records_other.hyps(3) [of vs' "us @ [w]"]) simp_all
  with records_other.hyps(1) vs show ?case by simp
next
  case (records_plain d ts "is" prev)
  then obtain w vs' where vs: "vs = w # vs'" "snd w = (''ul'', d)" "ts = map snd vs'" by (auto simp: Cons_eq_map_conv)
  have "extract_infos (map fst (filter (\<lambda>w. fst (snd w) = ''ul'') vs')) hp = ret (hp\<lparr>decryptionList := decryptionList hp @ is\<rparr>)"
    using records_plain.prems vs by (intro records_plain.hyps(3) [of vs' "us @ [w]"]) simp_all
  moreover have "node_with (hp_heap hp) (fst (fst w)) ''ul'' d"
    using records_plain.prems(1,3) vs by (auto simp: tags_read_def)
  note extract_skip [OF this records_plain.hyps(1)]
  ultimately show ?case using vs by simp
next
  case (records_here d a k iv b k' key c ts "is" p)
  then obtain w vs' where vs: "vs = w # vs'" "snd w = (''ul'', d)" "ts = map snd vs'" by (auto simp: Cons_eq_map_conv)
  let ?i = "\<lparr>di_section = map lower p @ [NUL], di_iv = iv @ [NUL], di_key = key @ [NUL]\<rparr>"
  let ?hp = "hp\<lparr>decryptionList := decryptionList hp @ [?i]\<rparr>"
  obtain us' q where us: "us = us' @ [q]" "snd (snd q) = p"
    using records_here.prems(2) by (cases us rule: rev_cases) auto
  have ws: "ws = us' @ q # w # vs'" using records_here.prems(1) us vs by simp
  have nodes: "node_with (hp_heap hp) (fst (fst q)) (fst (snd q)) p" "node_with (hp_heap hp) (fst (fst w)) ''ul'' d"
    using records_here.prems(3) ws us vs by (auto simp: tags_read_def)
  have "\<forall>x \<in> set (map fst us' @ fst q # fst w # map fst vs'). \<exists>nm d. node_with (hp_heap hp) (fst x) nm d"
  proof
    fix x assume "x \<in> set (map fst us' @ fst q # fst w # map fst vs')"
    then have "x \<in> set (map fst ws)" unfolding ws by simp
    then obtain y where "y \<in> set ws" "x = fst y" unfolding set_map by (elim imageE) (rule that)
    then show "\<exists>nm d. node_with (hp_heap hp) (fst x) nm d" using records_here.prems(3) by (auto simp: tags_read_def)
  qed
  moreover have "distinct (map (\<lambda>x. nid (hp_heap hp) (fst x)) (map fst us' @ fst q # fst w # map fst vs'))"
    using records_here.prems(5) unfolding ws by (simp add: comp_def)
  ultimately have "prev_node (hp_heap hp) (nid (hp_heap hp) (fst (fst w))) None (map fst us' @ fst q # fst w # map fst vs') = ret (fst (fst q))"
    by (rule prev_node_tags)
  then have "prev_node (hp_heap hp) (nid (hp_heap hp) (fst (fst w))) None (sortedTags hp) = ret (fst (fst q))"
    by (simp add: records_here.prems(4) ws)
  from extract_step [OF nodes(1) nodes(2) [unfolded records_here.hyps(1)] this records_here.hyps(2) [unfolded records_here.hyps(1)]
      records_here.hyps(3-5)]
  have "extract_infos (map fst (filter (\<lambda>w. fst (snd w) = ''ul'') vs)) hp = extract_infos (map fst (filter (\<lambda>w. fst (snd w) = ''ul'') vs')) ?hp"
    using vs by simp
  also have "\<dots> = ret (?hp\<lparr>decryptionList := decryptionList ?hp @ is\<rparr>)"
    using records_here.prems vs by (intro records_here.hyps(7) [of vs' "us @ [w]"]) simp_all
  finally show ?case by simp
qed

lemma ExtractDecryptionInfo_tags:
  assumes "list_all2 (\<lambda>p t. node_with (hp_heap hp) (fst p) (fst t) (snd t)) (sortedTags hp) ts"
    and "distinct (map (\<lambda>p. nid (hp_heap hp) (fst p)) (sortedTags hp))" "records_in None ts infos"
  shows "ExtractDecryptionInfo hp = ret (hp\<lparr>decryptionList := decryptionList hp @ infos\<rparr>)"
proof -
  let ?ws = "zip (sortedTags hp) ts"
  have len: "length (sortedTags hp) = length ts" using assms(1) by (rule list_all2_lengthD)
  then have m: "map fst ?ws = sortedTags hp" "map snd ?ws = ts" by simp_all
  have read: "tags_read (hp_heap hp) ?ws" using assms(1) by (auto simp: tags_read_def list_all2_iff)
  have "map (\<lambda>w. nid (hp_heap hp) (fst (fst w))) ?ws = map (\<lambda>p. nid (hp_heap hp) (fst p)) (map fst ?ws)" by simp
  then have "distinct (map (\<lambda>w. nid (hp_heap hp) (fst (fst w))) ?ws)" using assms(2) unfolding m by simp
  from extract_records [of None ?ws infos ?ws "[]" hp] assms(3) read this
  have "extract_infos (map fst (filter (\<lambda>w. fst (snd w) = ''ul'') ?ws)) hp = ret (hp\<lparr>decryptionList := decryptionList hp @ infos\<rparr>)"
    by (simp add: m)
  moreover have "terminated ''ul''" by (simp add: terminated_def)
  note pairs_named_read [OF read this, unfolded m]
  ultimately show ?thesis by (simp add: ExtractDecryptionInfo_def GetAllSortedTagsByName_def)
qed

text \<open>C15: from any list of sorted tags with distinct numbers, \<open>ExtractDecryptionInfo\<close> reads the records in their order: one for every list whose
  text holds an IV and a key, each on a line of its own, with the values without the blanks before them, and with the text of the tag just
  before the list, in lower case, as section.\<close>

theorem ExtractDecryptionInfo_reads:
  assumes tags: "list_all2 (\<lambda>p t. node_with (hp_heap hp) (fst p) (fst t) (snd t)) (sortedTags hp) ts"
    and ids: "distinct (map (\<lambda>p. nid (hp_heap hp) (fst p)) (sortedTags hp))" and records: "records_in None ts infos"
  shows "ExtractDecryptionInfo hp = ret (hp\<lparr>decryptionList := decryptionList hp @ infos\<rparr>)"
  by (rule ExtractDecryptionInfo_tags [OF assms])

text \<open>Two names, each with its list, and another tag.\<close>

definition key_page :: html_parser where
  "key_page = new_html_parser\<lparr>sortedTags := [(2, 10), (3, 11), (4, 12), (5, 13), (6, 14)], hp_heap := \<lparr>h_next = 15, h_obj =
     [2 \<mapsto> \<lparr>node_tag = new_tag\<lparr>tag := Some (''span'' @ [NUL]), tag_data := Some (''iBoot'' @ [NUL])\<rparr>, node_id = 0\<rparr>,
      3 \<mapsto> \<lparr>node_tag = new_tag\<lparr>tag := Some (''ul'' @ [NUL]),
        tag_data := Some (key_text [] 1 ''11'' ''<b>Key</b>'' 1 ''22'' [] @ [NUL])\<rparr>, node_id = 2\<rparr>,
      4 \<mapsto> \<lparr>node_tag = new_tag\<lparr>tag := Some (''a'' @ [NUL]), tag_data := Some (''top'' @ [NUL])\<rparr>, node_id = 4\<rparr>,
      5 \<mapsto> \<lparr>node_tag = new_tag\<lparr>tag := Some (''span'' @ [NUL]), tag_data := Some (''LLB'' @ [NUL])\<rparr>, node_id = 6\<rparr>,
      6 \<mapsto> \<lparr>node_tag = new_tag\<lparr>tag := Some (''ul'' @ [NUL]),
        tag_data := Some (key_text [] 0 ''33'' ''<b>Key</b>'' 2 ''44'' [] @ [NUL])\<rparr>, node_id = 8\<rparr>]\<rparr>\<rparr>"

theorem ExtractDecryptionInfo_reads_witness:
  "ExtractDecryptionInfo key_page = ret (key_page\<lparr>decryptionList :=
    [\<lparr>di_section = ''iboot'' @ [NUL], di_iv = ''11'' @ [NUL], di_key = ''22'' @ [NUL]\<rparr>,
     \<lparr>di_section = ''llb'' @ [NUL], di_iv = ''33'' @ [NUL], di_key = ''44'' @ [NUL]\<rparr>]\<rparr>)"
proof -
  let ?d = "key_text [] 1 ''11'' ''<b>Key</b>'' 1 ''22'' []" and ?d' = "key_text [] 0 ''33'' ''<b>Key</b>'' 2 ''44'' []"
  let ?ts = "[(''span'', ''iBoot''), (''ul'', ?d), (''a'', ''top''), (''span'', ''LLB''), (''ul'', ?d')]"
  have s: "sortedTags key_page = [(2, 10), (3, 11), (4, 12), (5, 13), (6, 14)]" by (simp add: key_page_def)
  have tags: "list_all2 (\<lambda>p t. node_with (hp_heap key_page) (fst p) (fst t) (snd t)) (sortedTags key_page) ?ts"
    unfolding s by (simp add: node_with_def key_page_def h_get_def terminated_def nid_def key_text_def)
  have ids: "distinct (map (\<lambda>p. nid (hp_heap key_page) (fst p)) (sortedTags key_page))"
    unfolding s by (simp add: nid_def key_page_def)
  have low: "map lower ''iBoot'' = ''iboot''" "map lower ''LLB'' = ''llb''" by code_simp+
  have f: "find_sub ''<b>IV</b>'' ?d = Some (length [])" "find_sub ''<b>IV</b>'' ?d' = Some (length [])" by (simp_all add: key_text_def)
  have "records_in None ?ts
    [\<lparr>di_section = map lower ''iBoot'' @ [NUL], di_iv = ''11'' @ [NUL], di_key = ''22'' @ [NUL]\<rparr>,
     \<lparr>di_section = map lower ''LLB'' @ [NUL], di_iv = ''33'' @ [NUL], di_key = ''44'' @ [NUL]\<rparr>]"
    by (intro records_other records_here [OF refl f(1)] records_here [OF refl f(2)] records_none) (simp_all add: value_text_def)
  from ExtractDecryptionInfo_reads [OF tags ids this] show ?thesis unfolding low by (simp add: key_page_def new_html_parser_def)
qed

subsection \<open>The destructor\<close>

lemma h_delete_cases: "(\<exists>h'. h_delete h p = ret h') \<or> h_delete h p = crash Dangling"
  by (auto simp: h_delete_def h_get_def split: option.splits)

lemma h_delete_all_twice:
  assumes "p \<noteq> 0" shows "h_delete_all h (ps @ p # p # qs) = crash Dangling"
proof (induction ps arbitrary: h)
  case Nil
  from assms show ?case by (auto simp: h_delete_def h_get_def split: option.split)
next
  case (Cons q ps)
  then show ?case using h_delete_cases [of h q] by auto
qed

text \<open>A complete tag is a pair of a node with itself: the destructor deletes the node twice.\<close>

theorem complete_tag_deleted_twice:
  assumes "sortedTags hp = ps @ (p, p) # qs" "p \<noteq> 0"
  shows "destroy_html_parser hp = crash Dangling"
  by (simp add: destroy_html_parser_def assms(1) h_delete_all_twice [OF assms(2)])

theorem complete_tag_deleted_twice_witness:
  "destroy_html_parser (one_element\<lparr>sortedTags := [(2, 2)]\<rparr>) = crash Dangling"
  by (rule complete_tag_deleted_twice [of _ "[]" 2 "[]"]) simp_all

end
