(* ===== verification/Sqlite.thy ===== *)
theory Sqlite imports Html_Parser begin

text \<open>
  \<open>IMG3_Sqlite3\<close> (src/src/sqlite3/IMG3_Sqlite3.cpp): one table per device, one row per firmware version and section.
  The SQL engine is not modelled: what it answers to a command, and what becomes of the data base file, which opening creates when
  it is missing, are parameters. The commands themselves are the
  strings the code builds, in buffers of 2049 characters.
\<close>

subsection \<open>Commands\<close>

text \<open>\<open>sprintf(buf, template, args)\<close> for templates whose only conversion is \<^verbatim>\<open>%s\<close>.\<close>

fun fill :: "string \<Rightarrow> string list \<Rightarrow> string" where
  "fill [] args = []"
| "fill [c] args = [c]"
| "fill (c # d # cs) args =
     (if c = CHR ''%'' \<and> d = CHR ''s'' then (case args of [] \<Rightarrow> fill cs [] | a # as \<Rightarrow> a @ fill cs as)
      else c # fill (d # cs) args)"

abbreviation MAX_SQL_COMMAND_LENGTH :: nat where "MAX_SQL_COMMAND_LENGTH \<equiv> 2048"

definition sprintf_command :: "string \<Rightarrow> string list \<Rightarrow> string exec" where
  "sprintf_command templ args =
     (if length (fill templ args) + 1 \<le> MAX_SQL_COMMAND_LENGTH + 1 then ret (fill templ args) else crash OutOfBounds)"

text \<open>The sum of lengths is kept in 32 bits.\<close>

definition too_long :: "nat \<Rightarrow> bool" where
  "too_long n \<longleftrightarrow> MAX_SQL_COMMAND_LENGTH < unat (word_of_nat n :: u32)"

definition section_template :: string where
  "section_template = ''SELECT * FROM '' @ [CHR 0x27] @ ''%s'' @ [CHR 0x27] @ '' WHERE Version='' @ [CHR 0x27] @ ''%s'' @ [CHR 0x27] @
     '' AND Section='' @ [CHR 0x27] @ ''%s'' @ [CHR 0x27]"

definition device_template :: string where
  "device_template = ''SELECT name FROM sqlite_master WHERE type='' @ [CHR 0x27] @ ''table'' @ [CHR 0x27] @ '' AND name='' @
     [CHR 0x27] @ ''%s'' @ [CHR 0x27]"

definition table_template :: string where
  "table_template = ''CREATE TABLE '' @ [CHR 0x27] @ ''%s'' @ [CHR 0x27] @
     '' (Build char (50), Version char (50) , Section char (100), IV char(128), Key char(256))''"

definition insert_template :: string where
  "insert_template = ''INSERT INTO '' @ [CHR 0x27] @ ''%s'' @ [CHR 0x27] @ '' (Build,Version,Section,IV,Key) VALUES ('' @
     [CHR 0x27] @ ''%s'' @ [CHR 0x27] @ '','' @ [CHR 0x27] @ ''%s'' @ [CHR 0x27] @ '','' @ [CHR 0x27] @ ''%s'' @ [CHR 0x27] @
     '','' @ [CHR 0x27] @ ''%s'' @ [CHR 0x27] @ '','' @ [CHR 0x27] @ ''%s'' @ [CHR 0x27] @ '')''"

definition update_template :: string where
  "update_template = ''UPDATE %s SET %s='' @ [CHR 0x27] @ ''%s'' @ [CHR 0x27] @ '' WHERE Version='' @ [CHR 0x27] @ ''%s'' @
     [CHR 0x27] @ '' AND Section='' @ [CHR 0x27] @ ''%s'' @ [CHR 0x27]"

definition value_template :: string where
  "value_template = ''SELECT %s FROM '' @ [CHR 0x27] @ ''%s'' @ [CHR 0x27] @ '' WHERE Version='' @ [CHR 0x27] @ ''%s'' @
     [CHR 0x27] @ '' AND Section='' @ [CHR 0x27] @ ''%s'' @ [CHR 0x27]"

subsection \<open>The engine\<close>

text \<open>
  What \<open>sqlite3_prepare_v2\<close> and the first \<open>sqlite3_step\<close> give for a query: an error, a row with the text of its first
  column (\<open>None\<close> for an SQL null), no row. Opening, with \<^verbatim>\<open>SQLITE_OPEN_CREATE\<close>, and commands may change the data base.
\<close>

datatype query_result = PrepareError | Row "string option" | Done | StepError

record 's engine =
  db_open :: "'s \<Rightarrow> bool \<times> 's"
  db_query :: "'s \<Rightarrow> string \<Rightarrow> query_result"
  db_exec :: "'s \<Rightarrow> string \<Rightarrow> bool \<times> 's"

text \<open>The object, and the data base behind it: \<open>connected\<close> is whether the pointer \<open>db\<close> is not null.\<close>

record 's sqlite =
  connected :: bool
  store :: 's

definition new_sqlite :: "'s \<Rightarrow> 's sqlite" where
  "new_sqlite st = \<lparr>connected = False, store = st\<rparr>"

definition ConnectToDatabase :: "'s engine \<Rightarrow> 's sqlite \<Rightarrow> int \<times> 's sqlite" where
  "ConnectToDatabase e w = (case db_open e (store w) of (ok, st) \<Rightarrow>
     if ok then (0, w\<lparr>connected := True, store := st\<rparr>) else (- 1, w\<lparr>connected := False, store := st\<rparr>))"

text \<open>Called by the destructor only.\<close>

definition DisconnectFromDatabase :: "'s sqlite \<Rightarrow> 's sqlite" where
  "DisconnectFromDatabase w = (if connected w then w\<lparr>connected := False\<rparr> else w)"

definition destroy_sqlite :: "'s sqlite \<Rightarrow> 's sqlite" where
  "destroy_sqlite w = DisconnectFromDatabase w"

definition row_exists :: "query_result \<Rightarrow> int" where
  "row_exists r = (case r of Row c \<Rightarrow> 0 | _ \<Rightarrow> - 1)"

definition DoesSectionExist :: "'s engine \<Rightarrow> 's sqlite \<Rightarrow> string \<Rightarrow> string \<Rightarrow> string \<Rightarrow> int exec" where
  "DoesSectionExist e w device version sec =
     (if too_long (length device + length section_template + length version) then ret (- 1)
      else seq (sprintf_command section_template [device, version, sec]) (\<lambda>cmd. ret (row_exists (db_query e (store w) cmd))))"

definition DoesDeviceExist :: "'s engine \<Rightarrow> 's sqlite \<Rightarrow> string \<Rightarrow> int exec" where
  "DoesDeviceExist e w device =
     (if too_long (length device + length device_template) then ret (- 1)
      else seq (sprintf_command device_template [device]) (\<lambda>cmd. ret (row_exists (db_query e (store w) cmd))))"

text \<open>\<open>sqlite3_exec\<close> on a command that has been built.\<close>

definition run_command :: "'s engine \<Rightarrow> 's sqlite \<Rightarrow> string \<Rightarrow> int \<times> 's sqlite" where
  "run_command e w cmd = (case db_exec e (store w) cmd of (ok, st) \<Rightarrow> (if ok then 0 else - 1, w\<lparr>store := st\<rparr>))"

definition InsertTable :: "'s engine \<Rightarrow> 's sqlite \<Rightarrow> string \<Rightarrow> (int \<times> 's sqlite) exec" where
  "InsertTable e w device =
     (if too_long (length device + length table_template) then ret (- 1, w)
      else seq (sprintf_command table_template [device]) (\<lambda>cmd. ret (run_command e w cmd)))"

definition insert_row ::
    "'s engine \<Rightarrow> 's sqlite \<Rightarrow> string \<Rightarrow> string option \<Rightarrow> string \<Rightarrow> string \<Rightarrow> string \<Rightarrow> string \<Rightarrow> (int \<times> 's sqlite) exec" where
  "insert_row e w device build version sec key iv = (case build of
     None \<Rightarrow> crash NullDeref
   | Some b \<Rightarrow> seq (sprintf_command insert_template [device, b, version, sec, iv, key]) (\<lambda>cmd. ret (run_command e w cmd)))"

definition update_row :: "'s engine \<Rightarrow> 's sqlite \<Rightarrow> string \<Rightarrow> string \<Rightarrow> string \<Rightarrow> string \<Rightarrow> string \<Rightarrow> (int \<times> 's sqlite) exec" where
  "update_row e w device version sec key iv =
     seq (sprintf_command update_template [device, ''Key'', key, version, sec]) (\<lambda>cmd.
       if fst (run_command e w cmd) \<noteq> 0 then ret (- 1, snd (run_command e w cmd))
       else seq (sprintf_command update_template [device, ''IV'', iv, version, sec]) (\<lambda>cmd2.
         ret (run_command e (snd (run_command e w cmd)) cmd2)))"

text \<open>Parameters that are asserted not to be null are options; \<open>build\<close> is not checked.\<close>

definition InsertDecryptionInfo ::
    "'s engine \<Rightarrow> 's sqlite \<Rightarrow> string option \<Rightarrow> string option \<Rightarrow> string option \<Rightarrow> string option \<Rightarrow> string option \<Rightarrow>
     string option \<Rightarrow> (int \<times> 's sqlite) exec" where
  "InsertDecryptionInfo e w device build version sec key iv = (case (device, version, sec, key, iv) of
     (Some d, Some v, Some s, Some k, Some i) \<Rightarrow>
       if too_long (length d + length v + length s + length k + length i + length insert_template) then ret (- 1, w)
       else seq (DoesDeviceExist e w d) (\<lambda>dev.
         if dev = 0 then
           seq (DoesSectionExist e w d v s) (\<lambda>row.
             if row = 0 then update_row e w d v s k i else insert_row e w d build v s k i)
         else seq (InsertTable e w d) (\<lambda>rw.
           if fst rw \<noteq> 0 then ret (- 1, snd rw) else insert_row e (snd rw) d build v s k i))
   | _ \<Rightarrow> ret (- 1, w))"

fun update_infos ::
    "'s engine \<Rightarrow> string option \<Rightarrow> string option \<Rightarrow> string option \<Rightarrow> decryption_info list \<Rightarrow> 's sqlite \<Rightarrow> (int \<times> 's sqlite) exec" where
  "update_infos e device build version [] w = ret (0, w)"
| "update_infos e device build version (i # is) w =
     seq (cstr (di_section i) 0) (\<lambda>s. seq (cstr (di_key i) 0) (\<lambda>k. seq (cstr (di_iv i) 0) (\<lambda>v.
     seq (InsertDecryptionInfo e w device build version (Some s) (Some k) (Some v)) (\<lambda>rw.
       if fst rw \<noteq> 0 then ret (- 1, snd rw) else update_infos e device build version is (snd rw)))))"

definition UpdateDatabase ::
    "'s engine \<Rightarrow> 's sqlite \<Rightarrow> string option \<Rightarrow> string option \<Rightarrow> string option \<Rightarrow> decryption_info list \<Rightarrow> (int \<times> 's sqlite) exec" where
  "UpdateDatabase e w device build version infoList =
     (let cw = (if connected w then (0, w) else ConnectToDatabase e w) in
      if fst cw \<noteq> 0 then ret (- 1, snd cw) else update_infos e device build version infoList (snd cw))"

text \<open>One column of the row, copied with its terminator; \<open>None\<close> is \<open>return -1\<close>.\<close>

definition retrieve_column :: "'s engine \<Rightarrow> 's sqlite \<Rightarrow> string \<Rightarrow> string \<Rightarrow> string \<Rightarrow> string \<Rightarrow> string option exec" where
  "retrieve_column e w column device version sec =
     seq (sprintf_command value_template [column, device, version, sec]) (\<lambda>cmd.
       case db_query e (store w) cmd of
         Row (Some col) \<Rightarrow> ret (Some col)
       | Row None \<Rightarrow> crash NullDeref
       | _ \<Rightarrow> ret None)"

text \<open>The result, and what \<open>*iv\<close> and \<open>*key\<close> point to, null pointers before the call.\<close>

definition RetrieveKeyAndIV ::
    "'s engine \<Rightarrow> 's sqlite \<Rightarrow> string option \<Rightarrow> string option \<Rightarrow> string option \<Rightarrow>
     (int \<times> string option \<times> string option \<times> 's sqlite) exec" where
  "RetrieveKeyAndIV e w device version sec = (case (device, version, sec) of
     (Some d, Some v, Some s) \<Rightarrow>
       (let cw = (if connected w then (0, w) else ConnectToDatabase e w) in
        if fst cw \<noteq> 0 then ret (fst cw, None, None, snd cw)
        else if too_long (length d + length v + length value_template + 3) then ret (- 1, None, None, snd cw)
        else seq (retrieve_column e (snd cw) ''IV'' d v s) (\<lambda>iv. case iv of
            None \<Rightarrow> ret (- 1, None, None, snd cw)
          | Some i \<Rightarrow> seq (retrieve_column e (snd cw) ''Key'' d v s) (\<lambda>key. case key of
              None \<Rightarrow> ret (- 1, Some i, None, snd cw)
            | Some k \<Rightarrow> ret (0, Some i, Some k, snd cw))))
   | _ \<Rightarrow> ret (- 1, None, None, w))"

subsection \<open>The commands, written out\<close>

abbreviation quote :: char where "quote \<equiv> CHR 0x27"

lemma section_command: "fill section_template [d, v, s] = ''SELECT * FROM '' @ quote # d @ quote # '' WHERE Version='' @
    quote # v @ quote # '' AND Section='' @ quote # s @ [quote]"
  by (simp add: section_template_def)

lemma device_command: "fill device_template [d] = ''SELECT name FROM sqlite_master WHERE type='' @ quote # ''table'' @ quote #
    '' AND name='' @ quote # d @ [quote]"
  by (simp add: device_template_def)

lemma table_command: "fill table_template [d] = ''CREATE TABLE '' @ quote # d @ quote #
    '' (Build char (50), Version char (50) , Section char (100), IV char(128), Key char(256))''"
  by (simp add: table_template_def)

lemma insert_command: "fill insert_template [d, b, v, s, i, k] = ''INSERT INTO '' @ quote # d @ quote #
    '' (Build,Version,Section,IV,Key) VALUES ('' @ quote # b @ quote # '','' @ quote # v @ quote # '','' @ quote # s @ quote #
    '','' @ quote # i @ quote # '','' @ quote # k @ quote # '')''"
  by (simp add: insert_template_def)

lemma update_command: "fill update_template [d, c, x, v, s] = ''UPDATE '' @ d @ '' SET '' @ c @ ''='' @ quote # x @ quote #
    '' WHERE Version='' @ quote # v @ quote # '' AND Section='' @ quote # s @ [quote]"
  by (simp add: update_template_def)

lemma value_command: "fill value_template [c, d, v, s] = ''SELECT '' @ c @ '' FROM '' @ quote # d @ quote # '' WHERE Version='' @
    quote # v @ quote # '' AND Section='' @ quote # s @ [quote]"
  by (simp add: value_template_def)

lemmas commands = section_command device_command table_command insert_command update_command value_command

lemma template_lengths: "length section_template = 54" "length device_template = 63" "length table_template = 104"
    "length insert_template = 81" "length value_template = 55"
  by (simp_all add: section_template_def device_template_def table_template_def insert_template_def value_template_def)

text \<open>C37: the length check of \<open>RetrieveKeyAndIV\<close> leaves the section out: a long section name passes it and is
  written past the end of the command buffer.\<close>

theorem long_section_overflow:
  assumes "connected w" "length d + length v \<le> 1000" "2048 \<le> length s"
  shows "RetrieveKeyAndIV e w (Some d) (Some v) (Some s) = crash OutOfBounds"
proof -
  have "\<not> too_long (length d + length v + length value_template + 3)"
    using assms(2) by (simp add: too_long_def template_lengths unat_small del: of_nat_add)
  then show ?thesis using assms
    by (simp add: RetrieveKeyAndIV_def retrieve_column_def sprintf_command_def value_command)
qed

theorem long_section_overflow_witness:
  "RetrieveKeyAndIV \<lparr>db_open = \<lambda>s. (True, s), db_query = \<lambda>s c. Done, db_exec = \<lambda>s c. (True, s)\<rparr> \<lparr>connected = True, store = ()\<rparr>
    (Some ''iPhone'') (Some ''4.3'') (Some (replicate 3000 CHR ''x'')) = crash OutOfBounds"
  by (rule long_section_overflow) simp_all

subsection \<open>What the code relies on of the engine\<close>

text \<open>
  For strings without quotes, the engine keeps tables that map a version and a section to an IV and a key:
  \<open>tab\<close> reads them off its state. Table names differ in more than the case of their letters. The name of the table is not
  quoted in an \<^verbatim>\<open>UPDATE\<close>, which then needs the name to be an identifier (\<open>ident\<close>). Names that begin with
  \<^verbatim>\<open>sqlite_\<close> are reserved.
\<close>

type_synonym tables = "string \<rightharpoonup> (string \<times> string \<rightharpoonup> string \<times> string)"

definition plain :: "string \<Rightarrow> bool" where
  "plain s \<longleftrightarrow> quote \<notin> set s \<and> NUL \<notin> set s"

definition new_name :: "tables \<Rightarrow> string \<Rightarrow> bool" where
  "new_name t d \<longleftrightarrow> map lower (take 7 d) \<noteq> ''sqlite_'' \<and> (\<forall>d' \<in> dom t. map lower d' \<noteq> map lower d)"

definition queries_ok :: "'s engine \<Rightarrow> ('s \<Rightarrow> tables) \<Rightarrow> bool" where
  "queries_ok e tab \<longleftrightarrow> (\<forall>st d v s. plain d \<longrightarrow> plain v \<longrightarrow> plain s \<longrightarrow>
     row_exists (db_query e st (fill device_template [d])) = (if d \<in> dom (tab st) then 0 else - 1) \<and>
     (\<forall>t. tab st d = Some t \<longrightarrow>
       row_exists (db_query e st (fill section_template [d, v, s])) = (if (v, s) \<in> dom t then 0 else - 1) \<and>
       (\<forall>i k. t (v, s) = Some (i, k) \<longrightarrow> db_query e st (fill value_template [''IV'', d, v, s]) = Row (Some i) \<and>
         db_query e st (fill value_template [''Key'', d, v, s]) = Row (Some k))))"

definition execs_to :: "'s engine \<Rightarrow> ('s \<Rightarrow> tables) \<Rightarrow> 's \<Rightarrow> string \<Rightarrow> tables \<Rightarrow> bool" where
  "execs_to e tab st cmd t \<longleftrightarrow> (\<exists>st'. db_exec e st cmd = (True, st') \<and> tab st' = t)"

definition commands_ok :: "'s engine \<Rightarrow> ('s \<Rightarrow> tables) \<Rightarrow> (string \<Rightarrow> bool) \<Rightarrow> bool" where
  "commands_ok e tab ident \<longleftrightarrow> (\<forall>st d v s. plain d \<longrightarrow> plain v \<longrightarrow> plain s \<longrightarrow>
     (new_name (tab st) d \<longrightarrow> execs_to e tab st (fill table_template [d]) ((tab st)(d \<mapsto> Map.empty))) \<and>
     (\<forall>t b i k. tab st d = Some t \<longrightarrow> t (v, s) = None \<longrightarrow> plain b \<longrightarrow> plain i \<longrightarrow> plain k \<longrightarrow>
       execs_to e tab st (fill insert_template [d, b, v, s, i, k]) ((tab st)(d \<mapsto> t((v, s) \<mapsto> (i, k))))) \<and>
     (\<forall>t i k x. ident d \<longrightarrow> tab st d = Some t \<longrightarrow> t (v, s) = Some (i, k) \<longrightarrow> plain x \<longrightarrow>
       execs_to e tab st (fill update_template [d, ''Key'', x, v, s]) ((tab st)(d \<mapsto> t((v, s) \<mapsto> (i, x)))) \<and>
       execs_to e tab st (fill update_template [d, ''IV'', x, v, s]) ((tab st)(d \<mapsto> t((v, s) \<mapsto> (x, k))))))"

text \<open>The data base can be opened, which leaves its tables as they are.\<close>

definition db_opens :: "'s engine \<Rightarrow> ('s \<Rightarrow> tables) \<Rightarrow> 's \<Rightarrow> bool" where
  "db_opens e tab st \<longleftrightarrow> fst (db_open e st) \<and> tab (snd (db_open e st)) = tab st"

definition row_set :: "tables \<Rightarrow> string \<Rightarrow> string \<Rightarrow> string \<Rightarrow> string \<Rightarrow> string \<Rightarrow> tables" where
  "row_set t d v s i k = t(d \<mapsto> (case t d of None \<Rightarrow> Map.empty | Some r \<Rightarrow> r)((v, s) \<mapsto> (i, k)))"

lemma run_command_execs:
  assumes "execs_to e tab (store w) cmd t"
  shows "\<exists>st'. run_command e w cmd = (0, w\<lparr>store := st'\<rparr>) \<and> tab st' = t"
  using assms by (auto simp: execs_to_def run_command_def)

definition info_of :: "string \<times> string \<times> string \<Rightarrow> decryption_info" where
  "info_of ski = \<lparr>di_section = fst ski @ [NUL], di_iv = snd (snd ski) @ [NUL], di_key = fst (snd ski) @ [NUL]\<rparr>"

definition rows_set :: "string \<Rightarrow> string \<Rightarrow> (string \<times> string \<times> string) list \<Rightarrow> tables \<Rightarrow> tables" where
  "rows_set d v = fold (\<lambda>ski t. row_set t d v (fst ski) (snd (snd ski)) (fst (snd ski)))"

lemma dom_row_set: "dom (row_set t d v s i k) = insert d (dom t)"
  by (auto simp: row_set_def)

subsection \<open>The interface of the data base\<close>

text \<open>An engine that answers queries, and one that also takes the commands that change its tables.\<close>

locale sql_tables =
  fixes e :: "'s engine"
    and tab :: "'s \<Rightarrow> tables"
  assumes queries_law: "queries_ok e tab"
begin

lemma retrieve_ok:
  assumes p: "plain d" "plain v" "plain s" and w: "connected w"
    and t: "tab (store w) d = Some t" "t (v, s) = Some (i, k)" and len: "length d + length v + length s \<le> 1900"
  shows "RetrieveKeyAndIV e w (Some d) (Some v) (Some s) = ret (0, Some i, Some k, w)"
proof -
  have "\<not> too_long (length d + length v + length value_template + 3)"
    using len by (simp add: too_long_def template_lengths unat_small del: of_nat_add)
  moreover have "retrieve_column e w ''IV'' d v s = ret (Some i)" "retrieve_column e w ''Key'' d v s = ret (Some k)"
    using queries_law p t len by (simp_all add: retrieve_column_def sprintf_command_def commands queries_ok_def)
  ultimately show ?thesis using w by (simp add: RetrieveKeyAndIV_def)
qed

lemma retrieve_new:
  assumes "plain d" "plain v" "plain s" "db_opens e tab st" "tab st d = Some t" "t (v, s) = Some (i, k)"
    and "length d + length v + length s \<le> 1900"
  shows "RetrieveKeyAndIV e (new_sqlite st) (Some d) (Some v) (Some s) =
    ret (0, Some i, Some k, \<lparr>connected = True, store = snd (db_open e st)\<rparr>)"
proof -
  let ?w = "\<lparr>connected = True, store = snd (db_open e st)\<rparr>"
  have "RetrieveKeyAndIV e (new_sqlite st) (Some d) (Some v) (Some s) = RetrieveKeyAndIV e ?w (Some d) (Some v) (Some s)"
    using assms(4) by (simp add: RetrieveKeyAndIV_def ConnectToDatabase_def new_sqlite_def db_opens_def split_def)
  also have "\<dots> = ret (0, Some i, Some k, ?w)"
    by (rule retrieve_ok [where t = t]) (use assms in \<open>simp_all add: db_opens_def\<close>)
  finally show ?thesis .
qed

end

locale sql_engine = sql_tables e tab
  for e :: "'s engine" and tab :: "'s \<Rightarrow> tables" +
  fixes ident :: "string \<Rightarrow> bool"
  assumes commands_law: "commands_ok e tab ident"
begin

lemma insert_ok:
  assumes p: "plain d" "plain b" "plain v" "plain s" "plain k" "plain i" "ident d"
    and nn: "d \<in> dom (tab (store w)) \<or> new_name (tab (store w)) d"
    and len: "length d + length b + length v + length s + length k + length i \<le> 1900"
  shows "\<exists>st'. InsertDecryptionInfo e w (Some d) (Some b) (Some v) (Some s) (Some k) (Some i) = ret (0, w\<lparr>store := st'\<rparr>) \<and>
    tab st' = row_set (tab (store w)) d v s i k"
proof -
  note q = queries_law and c = commands_law
  have l: "\<not> too_long (length d + length v + length s + length k + length i + length insert_template)"
    "\<not> too_long (length d + length device_template)" "\<not> too_long (length d + length section_template + length v)"
    "\<not> too_long (length d + length table_template)"
    using len by (simp_all add: too_long_def template_lengths unat_small del: of_nat_add)
  have cmd: "sprintf_command device_template [d] = ret (fill device_template [d])"
    "sprintf_command section_template [d, v, s] = ret (fill section_template [d, v, s])"
    "sprintf_command table_template [d] = ret (fill table_template [d])"
    "sprintf_command insert_template [d, b, v, s, i, k] = ret (fill insert_template [d, b, v, s, i, k])"
    "sprintf_command update_template [d, ''Key'', k, v, s] = ret (fill update_template [d, ''Key'', k, v, s])"
    "sprintf_command update_template [d, ''IV'', i, v, s] = ret (fill update_template [d, ''IV'', i, v, s])"
    using len by (simp_all add: sprintf_command_def commands)
  have dev: "DoesDeviceExist e w d = ret (if d \<in> dom (tab (store w)) then 0 else - 1)"
    using q p by (simp add: DoesDeviceExist_def l cmd queries_ok_def)
  have ins: "\<exists>st'. insert_row e w' d (Some b) v s k i = ret (0, w'\<lparr>store := st'\<rparr>) \<and> tab st' = (tab (store w'))(d \<mapsto> t((v, s) \<mapsto> (i, k)))"
    if "tab (store w') d = Some t" "t (v, s) = None" for w' t
  proof -
    have "execs_to e tab (store w') (fill insert_template [d, b, v, s, i, k]) ((tab (store w'))(d \<mapsto> t((v, s) \<mapsto> (i, k))))"
      using c p that unfolding commands_ok_def by blast
    from run_command_execs [OF this] show ?thesis by (auto simp: insert_row_def cmd)
  qed
  show ?thesis
  proof (cases "tab (store w) d")
    case None
    then have "new_name (tab (store w)) d" using nn by auto
    then have "execs_to e tab (store w) (fill table_template [d]) ((tab (store w))(d \<mapsto> Map.empty))"
      using c p unfolding commands_ok_def by blast
    from run_command_execs [OF this] obtain st1 where st1: "run_command e w (fill table_template [d]) = (0, w\<lparr>store := st1\<rparr>)"
      "tab st1 = (tab (store w))(d \<mapsto> Map.empty)" by blast
    from ins [of "w\<lparr>store := st1\<rparr>" Map.empty] st1 obtain st2 where
      "insert_row e (w\<lparr>store := st1\<rparr>) d (Some b) v s k i = ret (0, w\<lparr>store := st2\<rparr>)"
      "tab st2 = (tab (store w))(d \<mapsto> [(v, s) \<mapsto> (i, k)])" by auto
    with None st1 dev show ?thesis
      by (intro exI [of _ st2]) (simp add: InsertDecryptionInfo_def l InsertTable_def cmd row_set_def domIff)
  next
    case (Some t)
    have row: "DoesSectionExist e w d v s = ret (if (v, s) \<in> dom t then 0 else - 1)"
      using q p Some by (simp add: DoesSectionExist_def l cmd queries_ok_def)
    show ?thesis
    proof (cases "t (v, s)")
      case None
      from ins [OF Some None] dev row Some None show ?thesis
        by (auto simp: InsertDecryptionInfo_def l row_set_def domIff)
    next
      case (Some ik)
      obtain i0 k0 where ik: "ik = (i0, k0)" by force
      note t = \<open>tab (store w) d = Some t\<close>
      have "execs_to e tab (store w) (fill update_template [d, ''Key'', k, v, s]) ((tab (store w))(d \<mapsto> t((v, s) \<mapsto> (i0, k))))"
        using c p t Some ik unfolding commands_ok_def by blast
      from run_command_execs [OF this] obtain st1 where st1:
        "run_command e w (fill update_template [d, ''Key'', k, v, s]) = (0, w\<lparr>store := st1\<rparr>)"
        "tab st1 = (tab (store w))(d \<mapsto> t((v, s) \<mapsto> (i0, k)))" by blast
      have "tab st1 d = Some (t((v, s) \<mapsto> (i0, k)))" "(t((v, s) \<mapsto> (i0, k))) (v, s) = Some (i0, k)" by (simp_all add: st1)
      then have "execs_to e tab st1 (fill update_template [d, ''IV'', i, v, s])
          ((tab st1)(d \<mapsto> (t((v, s) \<mapsto> (i0, k)))((v, s) \<mapsto> (i, k))))"
        using c p unfolding commands_ok_def by blast
      then have "execs_to e tab (store (w\<lparr>store := st1\<rparr>)) (fill update_template [d, ''IV'', i, v, s])
          ((tab (store w))(d \<mapsto> t((v, s) \<mapsto> (i, k))))" by (simp add: st1)
      from run_command_execs [OF this] obtain st2 where
        "run_command e (w\<lparr>store := st1\<rparr>) (fill update_template [d, ''IV'', i, v, s]) = (0, w\<lparr>store := st2\<rparr>)"
        "tab st2 = (tab (store w))(d \<mapsto> t((v, s) \<mapsto> (i, k)))" by auto
      with dev row t Some st1 show ?thesis
        by (auto simp: InsertDecryptionInfo_def l update_row_def cmd row_set_def domIff)
    qed
  qed
qed

lemma updates_ok:
  assumes "plain d" "plain b" "plain v" "ident d"
    "\<forall>(s, k, i) \<in> set xs. plain s \<and> plain k \<and> plain i \<and> length d + length b + length v + length s + length k + length i \<le> 1900"
    "d \<in> dom (tab (store w)) \<or> new_name (tab (store w)) d"
  shows "\<exists>st. update_infos e (Some d) (Some b) (Some v) (map info_of xs) w = ret (0, w\<lparr>store := st\<rparr>) \<and>
    tab st = rows_set d v xs (tab (store w))"
  using assms(5-)
proof (induction xs arbitrary: w)
  case Nil
  then show ?case by (auto simp: rows_set_def intro!: exI [of _ "store w"])
next
  case (Cons x xs)
  obtain s k i where x: "x = (s, k, i)" by (cases x)
  with Cons.prems have p: "plain s" "plain k" "plain i" "length d + length b + length v + length s + length k + length i \<le> 1900" by auto
  from insert_ok [OF assms(1-3) p(1-3) assms(4) Cons.prems(2) p(4)] obtain st where
    st: "InsertDecryptionInfo e w (Some d) (Some b) (Some v) (Some s) (Some k) (Some i) = ret (0, w\<lparr>store := st\<rparr>)"
    "tab st = row_set (tab (store w)) d v s i k" by blast
  have "\<exists>st'. update_infos e (Some d) (Some b) (Some v) (map info_of xs) (w\<lparr>store := st\<rparr>) = ret (0, (w\<lparr>store := st\<rparr>)\<lparr>store := st'\<rparr>) \<and>
      tab st' = rows_set d v xs (tab (store (w\<lparr>store := st\<rparr>)))"
    using Cons.prems by (intro Cons.IH) (auto simp: st(2) dom_row_set)
  then obtain st' where "update_infos e (Some d) (Some b) (Some v) (map info_of xs) (w\<lparr>store := st\<rparr>) = ret (0, w\<lparr>store := st'\<rparr>)"
    "tab st' = rows_set d v (x # xs) (tab (store w))" by (auto simp: st(2) rows_set_def x)
  moreover have "update_infos e (Some d) (Some b) (Some v) (map info_of (x # xs)) w =
      update_infos e (Some d) (Some b) (Some v) (map info_of xs) (w\<lparr>store := st\<rparr>)"
    using p by (simp add: x st(1) info_of_def [of "(s, k, i)"] cstr_terminated terminated_def plain_def)
  ultimately show ?case by (intro exI [of _ st']) (simp only: simp_thms)
qed

end

lemma sql_engineI: "queries_ok e tab \<Longrightarrow> commands_ok e tab ident \<Longrightarrow> sql_engine e tab ident"
  by (intro sql_engine.intro sql_tables.intro sql_engine_axioms.intro)

subsection \<open>A reference engine\<close>

text \<open>
  Tables as association lists, the newest entry first. A command is read by cutting it at its quotes. It answers the commands the
  code builds as \<open>queries_ok\<close> and \<open>commands_ok\<close> ask, whatever the name of the table.
\<close>

type_synonym rows = "((string \<times> string) \<times> string \<times> string) list"
type_synonym ref_state = "(string \<times> rows) list"

fun pieces :: "string \<Rightarrow> string list" where
  "pieces [] = [[]]"
| "pieces (c # cs) = (if c = quote then [] # pieces cs else (c # hd (pieces cs)) # tl (pieces cs))"

definition ref_tab :: "ref_state \<Rightarrow> tables" where
  "ref_tab st = map_option map_of \<circ> map_of st"

definition ref_column :: "ref_state \<Rightarrow> string list \<Rightarrow> (string \<times> string \<Rightarrow> string) \<Rightarrow> query_result" where
  "ref_column st ps col = (case map_of st (ps ! 1) of
     None \<Rightarrow> PrepareError
   | Some t \<Rightarrow> (case map_of t (ps ! 3, ps ! 5) of None \<Rightarrow> Done | Some r \<Rightarrow> Row (Some (col r))))"

definition ref_query :: "ref_state \<Rightarrow> string \<Rightarrow> query_result" where
  "ref_query st cmd = (let ps = pieces cmd in
     if hd ps = ''SELECT * FROM '' \<or> hd ps = ''SELECT IV FROM '' then ref_column st ps fst
     else if hd ps = ''SELECT Key FROM '' then ref_column st ps snd
     else if map_of st (ps ! 3) = None then Done else Row (Some (ps ! 3)))"

definition ref_update :: "ref_state \<Rightarrow> string list \<Rightarrow> string \<Rightarrow> (string \<Rightarrow> string \<times> string \<Rightarrow> string \<times> string) \<Rightarrow> ref_state option" where
  "ref_update st ps col upd = (case find (\<lambda>dt. hd ps = ''UPDATE '' @ fst dt @ col) st of
     None \<Rightarrow> None
   | Some (d, t) \<Rightarrow> (case map_of t (ps ! 3, ps ! 5) of
       None \<Rightarrow> Some st
     | Some r \<Rightarrow> Some ((d, ((ps ! 3, ps ! 5), upd (ps ! 1) r) # t) # st)))"

definition ref_exec :: "ref_state \<Rightarrow> string \<Rightarrow> bool \<times> ref_state" where
  "ref_exec st cmd = (let ps = pieces cmd in
     if hd ps = ''CREATE TABLE '' then (True, (ps ! 1, []) # st)
     else if hd ps = ''INSERT INTO '' then (case map_of st (ps ! 1) of
         None \<Rightarrow> (False, st)
       | Some t \<Rightarrow> (True, (ps ! 1, ((ps ! 5, ps ! 7), ps ! 9, ps ! 11) # t) # st))
     else (case ref_update st ps '' SET Key='' (\<lambda>x r. (fst r, x)) of
         Some st' \<Rightarrow> (True, st')
       | None \<Rightarrow> (case ref_update st ps '' SET IV='' (\<lambda>x r. (x, snd r)) of
             Some st' \<Rightarrow> (True, st') | None \<Rightarrow> (False, st))))"

definition ref_engine :: "ref_state engine" where
  "ref_engine = \<lparr>db_open = \<lambda>st. (True, st), db_query = ref_query, db_exec = ref_exec\<rparr>"

lemma pieces_not_Nil [simp]: "pieces s \<noteq> []"
  by (cases s) auto

lemma pieces_append [simp]: "quote \<notin> set a \<Longrightarrow> pieces (a @ s) = (a @ hd (pieces s)) # tl (pieces s)"
  by (induction a) auto

lemma pieces_quote [simp]: "pieces (quote # s) = [] # pieces s"
  by simp

lemma pieces_plain: "quote \<notin> set a \<Longrightarrow> pieces a = [a]"
  by (induction a) auto

lemma plain_quote [simp]: "plain s \<Longrightarrow> quote \<notin> set s"
  by (simp add: plain_def)

declare pieces.simps(2) [simp del]

lemma pieces_commands:
  assumes "plain d" "plain v" "plain s"
  shows "pieces (fill section_template [d, v, s]) = [''SELECT * FROM '', d, '' WHERE Version='', v, '' AND Section='', s, []]"
    "pieces (fill device_template [d]) = [''SELECT name FROM sqlite_master WHERE type='', ''table'', '' AND name='', d, []]"
    "pieces (fill table_template [d]) = [''CREATE TABLE '', d,
       '' (Build char (50), Version char (50) , Section char (100), IV char(128), Key char(256))'']"
    "quote \<notin> set c \<Longrightarrow> pieces (fill value_template [c, d, v, s]) =
       [''SELECT '' @ c @ '' FROM '', d, '' WHERE Version='', v, '' AND Section='', s, []]"
    "plain x \<Longrightarrow> quote \<notin> set c \<Longrightarrow> pieces (fill update_template [d, c, x, v, s]) =
       [''UPDATE '' @ d @ '' SET '' @ c @ ''='', x, '' WHERE Version='', v, '' AND Section='', s, []]"
    "plain b \<Longrightarrow> plain i \<Longrightarrow> plain k \<Longrightarrow> pieces (fill insert_template [d, b, v, s, i, k]) =
       [''INSERT INTO '', d, '' (Build,Version,Section,IV,Key) VALUES ('', b, '','', v, '','', s, '','', i, '','', k, '')'']"
  using assms by (simp_all add: commands pieces_plain [of "'')''"]
      pieces_plain [of "'' (Build char (50), Version char (50) , Section char (100), IV char(128), Key char(256))''"]
    del: append.simps)

lemma ref_tab_simps [simp]: "ref_tab st d = map_option map_of (map_of st d)"
  "ref_tab ((d, t) # st) = (ref_tab st)(d \<mapsto> map_of t)"
  by (auto simp: ref_tab_def)

lemma ref_queries_ok: "queries_ok ref_engine ref_tab"
proof -
  have "row_exists (ref_query st (fill device_template [d])) = (if d \<in> dom (ref_tab st) then 0 else - 1)"
    if "plain d" for st d
    using that pieces_commands(2) [of d "[]" "[]"] by (auto simp: ref_query_def row_exists_def plain_def split: option.split)
  moreover have "row_exists (ref_query st (fill section_template [d, v, s])) = (if (v, s) \<in> dom t then 0 else - 1)"
    if "plain d" "plain v" "plain s" "ref_tab st d = Some t" for st d v s t
    using that by (auto simp: ref_query_def pieces_commands ref_column_def row_exists_def split: option.splits)
  moreover have "ref_query st (fill value_template [''IV'', d, v, s]) = Row (Some i) \<and>
      ref_query st (fill value_template [''Key'', d, v, s]) = Row (Some k)"
    if "plain d" "plain v" "plain s" "ref_tab st d = Some t" "t (v, s) = Some (i, k)" for st d v s t i k
    using that by (auto simp: ref_query_def pieces_commands ref_column_def)
  ultimately show ?thesis by (simp add: queries_ok_def ref_engine_def)
qed

lemma find_update:
  assumes "map_of st d = Some t"
  shows "find (\<lambda>dt. ''UPDATE '' @ d @ col = ''UPDATE '' @ fst dt @ col) st = Some (d, t)"
  using assms by (induction st) (auto split: if_splits)

lemma find_update_other: "find (\<lambda>dt. ''UPDATE '' @ d @ '' SET IV='' = ''UPDATE '' @ fst dt @ '' SET Key='') st = None"
proof -
  have "''UPDATE '' @ d @ '' SET IV='' \<noteq> ''UPDATE '' @ d' @ '' SET Key=''" for d'
  proof
    assume "''UPDATE '' @ d @ '' SET IV='' = ''UPDATE '' @ d' @ '' SET Key=''"
    then have "take 2 (drop 1 (rev (''UPDATE '' @ d @ '' SET IV=''))) = take 2 (drop 1 (rev (''UPDATE '' @ d' @ '' SET Key='')))"
      by (rule arg_cong)
    then show False by simp
  qed
  then show ?thesis by (auto simp: find_None_iff)
qed

lemma ref_commands_ok: "commands_ok ref_engine ref_tab (\<lambda>d. True)"
proof -
  have "execs_to ref_engine ref_tab st (fill table_template [d]) ((ref_tab st)(d \<mapsto> Map.empty))" if "plain d" for st d
    using that pieces_commands(3) [of d "[]" "[]"]
    by (simp add: execs_to_def ref_engine_def ref_exec_def plain_def)
  moreover have "execs_to ref_engine ref_tab st (fill insert_template [d, b, v, s, i, k]) ((ref_tab st)(d \<mapsto> t((v, s) \<mapsto> (i, k))))"
    if "plain d" "plain v" "plain s" "plain b" "plain i" "plain k" "ref_tab st d = Some t" for st d v s b i k t
    using that by (auto simp: execs_to_def ref_engine_def ref_exec_def pieces_commands)
  moreover have "execs_to ref_engine ref_tab st (fill update_template [d, ''Key'', x, v, s]) ((ref_tab st)(d \<mapsto> t((v, s) \<mapsto> (i, x))))"
    if "plain d" "plain v" "plain s" "plain x" "ref_tab st d = Some t" "t (v, s) = Some (i, k)" for st d v s x t i k
    using that find_update [of st d _ "'' SET Key=''"]
    by (auto simp: execs_to_def ref_engine_def ref_exec_def pieces_commands ref_update_def)
  moreover have "execs_to ref_engine ref_tab st (fill update_template [d, ''IV'', x, v, s]) ((ref_tab st)(d \<mapsto> t((v, s) \<mapsto> (x, k))))"
    if "plain d" "plain v" "plain s" "plain x" "ref_tab st d = Some t" "t (v, s) = Some (i, k)" for st d v s x t i k
    using that find_update [of st d _ "'' SET IV=''"] find_update_other [of d st]
    by (auto simp: execs_to_def ref_engine_def ref_exec_def pieces_commands ref_update_def)
  ultimately show ?thesis by (simp add: commands_ok_def)
qed

interpretation ref: sql_engine ref_engine ref_tab "\<lambda>d. True"
  by (rule sql_engineI [OF ref_queries_ok ref_commands_ok])

subsection \<open>What is stored can be retrieved\<close>

lemma row_set_other:
  "t d' = Some r' \<Longrightarrow> r' (v', s') = Some ik \<Longrightarrow> (d', v', s') \<noteq> (d, v, s) \<Longrightarrow>
    \<exists>r. row_set t d v s i k d' = Some r \<and> r (v', s') = Some ik"
  by (auto simp: row_set_def)

text \<open>C10: on an engine that keeps tables, \<open>InsertDecryptionInfo\<close> succeeds, whether the table and the row are there
  or not. The tables are as before, with the one row set and no other added or changed; so \<open>RetrieveKeyAndIV\<close> gives the IV and the key
  just stored, and what it gave before for every other device, version and section that has a row.\<close>

theorem InsertDecryptionInfo_stores:
  assumes q: "queries_ok e tab" and c: "commands_ok e tab ident"
    and p: "plain d" "plain b" "plain v" "plain s" "plain k" "plain i" "ident d" and w: "connected w"
    and nn: "d \<in> dom (tab (store w)) \<or> new_name (tab (store w)) d"
    and len: "length d + length b + length v + length s + length k + length i \<le> 1900"
  shows "\<exists>w'. InsertDecryptionInfo e w (Some d) (Some b) (Some v) (Some s) (Some k) (Some i) = ret (0, w') \<and>
    tab (store w') = row_set (tab (store w)) d v s i k \<and>
    RetrieveKeyAndIV e w' (Some d) (Some v) (Some s) = ret (0, Some i, Some k, w') \<and>
    (\<forall>d' v' s' r i' k'. (d', v', s') \<noteq> (d, v, s) \<longrightarrow> plain d' \<longrightarrow> plain v' \<longrightarrow> plain s' \<longrightarrow>
       length d' + length v' + length s' \<le> 1900 \<longrightarrow> tab (store w) d' = Some r \<longrightarrow> r (v', s') = Some (i', k') \<longrightarrow>
       RetrieveKeyAndIV e w (Some d') (Some v') (Some s') = ret (0, Some i', Some k', w) \<and>
       RetrieveKeyAndIV e w' (Some d') (Some v') (Some s') = ret (0, Some i', Some k', w'))"
proof -
  obtain st where st: "InsertDecryptionInfo e w (Some d) (Some b) (Some v) (Some s) (Some k) (Some i) = ret (0, w\<lparr>store := st\<rparr>)"
    "tab st = row_set (tab (store w)) d v s i k"
    using sql_engine.insert_ok [OF sql_engineI [OF q c] p nn len] by blast
  obtain r where r: "tab st d = Some r" "r (v, s) = Some (i, k)"
    unfolding st(2) row_set_def by simp
  have get: "RetrieveKeyAndIV e (w\<lparr>store := st'\<rparr>) (Some d') (Some v') (Some s') = ret (0, Some i', Some k', w\<lparr>store := st'\<rparr>)"
    if "plain d'" "plain v'" "plain s'" "length d' + length v' + length s' \<le> 1900" "tab st' d' = Some r'" "r' (v', s') = Some (i', k')"
    for st' d' v' s' i' k' r'
    using sql_tables.retrieve_ok [OF sql_tables.intro [OF q], of d' v' s' "w\<lparr>store := st'\<rparr>"] w that by simp
  show ?thesis
  proof (intro exI [of _ "w\<lparr>store := st\<rparr>"] conjI allI impI)
    show "RetrieveKeyAndIV e (w\<lparr>store := st\<rparr>) (Some d) (Some v) (Some s) = ret (0, Some i, Some k, w\<lparr>store := st\<rparr>)"
      using get r p len by simp
  next
    fix d' v' s' r' i' k'
    assume a: "(d', v', s') \<noteq> (d, v, s)" "plain d'" "plain v'" "plain s'" "length d' + length v' + length s' \<le> 1900"
      "tab (store w) d' = Some r'" "r' (v', s') = Some (i', k')"
    show "RetrieveKeyAndIV e w (Some d') (Some v') (Some s') = ret (0, Some i', Some k', w)"
      using get [of d' v' s' "store w"] a by simp
    have "\<exists>r. row_set (tab (store w)) d v s i k d' = Some r \<and> r (v', s') = Some (i', k')" by (rule row_set_other) fact+
    with st(2) obtain r2 where "tab st d' = Some r2" "r2 (v', s') = Some (i', k')" by auto
    then show "RetrieveKeyAndIV e (w\<lparr>store := st\<rparr>) (Some d') (Some v') (Some s') = ret (0, Some i', Some k', w\<lparr>store := st\<rparr>)"
      using get a by simp
  qed (use st in simp_all)
qed

theorem InsertDecryptionInfo_stores_witness:
  "\<exists>w'. InsertDecryptionInfo ref_engine \<lparr>connected = True, store = []\<rparr> (Some ''iPhone3,1'') (Some ''8F190'') (Some ''4.3'')
      (Some ''LLB'') (Some ''ab'') (Some ''cd'') = ret (0, w') \<and>
    ref_tab (store w') = [''iPhone3,1'' \<mapsto> [(''4.3'', ''LLB'') \<mapsto> (''cd'', ''ab'')]] \<and>
    RetrieveKeyAndIV ref_engine w' (Some ''iPhone3,1'') (Some ''4.3'') (Some ''LLB'') = ret (0, Some ''cd'', Some ''ab'', w')"
  using InsertDecryptionInfo_stores [OF ref_queries_ok ref_commands_ok, of "''iPhone3,1''" "''8F190''" "''4.3''" "''LLB''" "''ab''" "''cd''"
      "\<lparr>connected = True, store = []\<rparr>"]
  by (auto simp: plain_def new_name_def ref_tab_def lower_def row_set_def)

text \<open>C18: on an engine that keeps tables, \<open>UpdateDatabase\<close> opens the data base when it is not open and stores every
  entry of the list, later entries over earlier ones of the same section.\<close>

theorem UpdateDatabase_stores:
  assumes "queries_ok e tab" "commands_ok e tab ident" "plain d" "plain b" "plain v" "ident d"
    "\<forall>(s, k, i) \<in> set xs. plain s \<and> plain k \<and> plain i \<and> length d + length b + length v + length s + length k + length i \<le> 1900"
    "d \<in> dom (tab (store w)) \<or> new_name (tab (store w)) d" "connected w \<or> db_opens e tab (store w)"
  shows "\<exists>st. UpdateDatabase e w (Some d) (Some b) (Some v) (map info_of xs) = ret (0, \<lparr>connected = True, store = st\<rparr>) \<and>
    tab st = rows_set d v xs (tab (store w))"
proof -
  define st0 where "st0 = (if connected w then store w else snd (db_open e (store w)))"
  let ?w = "\<lparr>connected = True, store = st0\<rparr>"
  have tab: "tab st0 = tab (store w)" using assms(9) by (auto simp: st0_def db_opens_def)
  have "\<exists>st. update_infos e (Some d) (Some b) (Some v) (map info_of xs) ?w = ret (0, ?w\<lparr>store := st\<rparr>) \<and>
    tab st = rows_set d v xs (tab (store ?w))"
    by (rule sql_engine.updates_ok [OF sql_engineI [OF assms(1,2)] assms(3-7)]) (use assms(8) tab in simp)
  moreover have "UpdateDatabase e w (Some d) (Some b) (Some v) is = update_infos e (Some d) (Some b) (Some v) is ?w" for "is"
    using assms(9) by (cases "connected w"; cases w) (auto simp: UpdateDatabase_def ConnectToDatabase_def db_opens_def st0_def split_def)
  ultimately show ?thesis by (simp add: tab)
qed

theorem UpdateDatabase_stores_witness:
  "\<exists>st. UpdateDatabase ref_engine (new_sqlite []) (Some ''iPhone3,1'') (Some ''8F190'') (Some ''4.3'')
      (map info_of [(''LLB'', ''ab'', ''cd''), (''iBoot'', ''12'', ''34''), (''LLB'', ''56'', ''78'')]) =
        ret (0, \<lparr>connected = True, store = st\<rparr>) \<and>
    ref_tab st = rows_set ''iPhone3,1'' ''4.3'' [(''LLB'', ''ab'', ''cd''), (''iBoot'', ''12'', ''34''), (''LLB'', ''56'', ''78'')]
      (ref_tab [])"
  using UpdateDatabase_stores [OF ref_queries_ok ref_commands_ok, of "''iPhone3,1''" "''8F190''" "''4.3''"
      "[(''LLB'', ''ab'', ''cd''), (''iBoot'', ''12'', ''34''), (''LLB'', ''56'', ''78'')]" "new_sqlite []"]
  by (simp add: plain_def new_name_def ref_tab_def lower_def new_sqlite_def ref_engine_def db_opens_def)

end
