(* ===== verification/Functions.thy ===== *)
theory Functions imports Lzss_Container File_Interface Openssl Zip Sqlite begin

text \<open>
  IMG3_Functions.cpp: the operations of the program, each a chain of the components over files that are mapped to memory. What the
  operating system, the archiver, the cipher and the data base engine do are parameters; so is what uninitialised memory
  holds. Every function builds its own component objects and destroys them when it returns.
\<close>

subsection \<open>The environment and the state of the process\<close>

text \<open>
  \<open>e_fstat\<close>, \<open>e_mmap\<close>, \<open>e_create\<close>: whether the call succeeds on that file; \<open>e_written f n\<close>: how many of \<open>n\<close> bytes \<open>fwrite\<close>
  takes; \<open>e_unzip\<close>: the files there are after a command of the archiver; \<open>e_engine\<close> and \<open>e_evp\<close>: the data base engine and the
  cipher library.
\<close>

record 's env =
  e_page :: u32
  e_fstat :: "string \<Rightarrow> bool"
  e_mmap :: "string \<Rightarrow> bool"
  e_create :: "string \<Rightarrow> bool"
  e_written :: "string \<Rightarrow> nat \<Rightarrow> nat"
  e_malloc :: "nat \<Rightarrow> bool"
  e_spawn :: "command \<Rightarrow> spawn_result"
  e_unzip :: "command \<Rightarrow> (string \<rightharpoonup> byte list) \<Rightarrow> (string \<rightharpoonup> byte list)"
  e_engine :: "'s engine"
  e_evp :: evp
  e_bytes :: "nat \<Rightarrow> byte"
  e_window :: "int \<Rightarrow> byte"
  e_state :: encode_state
  e_char :: char
  e_chars :: "nat \<Rightarrow> char"
  e_word :: u32
  e_wild :: nat

text \<open>
  The variable \<open>fd\<close>: 0, the number of the open file, the number of a file that has been closed, or -1. Closing the last two has
  no effect. \<open>w_files\<close> has the files but that of the data base, which is behind the engine, as \<open>w_db\<close>. \<open>w_stdin\<close> is whether the descriptor 0, the standard input, is open. \<open>w_out\<close> has the lines of the listings; messages on
  progress and errors are left out.
\<close>

datatype descriptor = FD_ZERO | FD_OPEN | FD_STALE | FD_NONE

record 's world =
  w_files :: "string \<rightharpoonup> byte list"
  w_fd :: descriptor
  w_stdin :: bool
  w_db :: 's
  w_out :: "string list"

definition close_fd :: "'s world \<Rightarrow> 's world" where
  "close_fd w = (case w_fd w of
     FD_ZERO \<Rightarrow> w\<lparr>w_stdin := False\<rparr>
   | FD_OPEN \<Rightarrow> w\<lparr>w_fd := FD_STALE\<rparr>
   | _ \<Rightarrow> w)"

subsection \<open>Support functions\<close>

definition map_size :: "u32 \<Rightarrow> u32 \<Rightarrow> u32" where
  "map_size page fileSize = (if fileSize mod page = 0 then (fileSize div page + 1) * page else fileSize)"

text \<open>
  The bytes that can be read of a mapping: the file, followed by zeros up to the end of its last page. Pages of the mapping behind
  that one cannot be read.
\<close>

definition page_up :: "nat \<Rightarrow> nat \<Rightarrow> nat" where
  "page_up page n = (n + page - 1) div page * page"

definition mapped :: "u32 \<Rightarrow> byte list \<Rightarrow> u32 \<Rightarrow> byte list" where
  "mapped page bs mapSize = take (page_up (unat page) (unat mapSize))
     (bs @ replicate (page_up (unat page) (length bs) - length bs) 0)"

text \<open>The memory, \<open>*fileSize\<close> and \<open>*mapSize\<close>; \<open>None\<close> is a null pointer.\<close>

definition MapFileToMemory :: "'s env \<Rightarrow> string option \<Rightarrow> 's world \<Rightarrow> (byte list \<times> u32 \<times> u32) option \<times> 's world" where
  "MapFileToMemory env name w0 = (case name of
     None \<Rightarrow> (None, w0)
   | Some fn \<Rightarrow>
       let w1 = (if w_fd w0 \<noteq> FD_ZERO then close_fd w0 else w0) in
       (case w_files w1 fn of
          None \<Rightarrow> (None, w1\<lparr>w_fd := FD_NONE\<rparr>)
        | Some bs \<Rightarrow>
            let w2 = w1\<lparr>w_fd := FD_OPEN\<rparr> in
            if \<not> e_fstat env fn then (None, close_fd w2)
            else
              let fileSize = word_of_nat (length bs); mapSize = map_size (e_page env) fileSize in
              if mapSize \<noteq> 0 \<and> e_mmap env fn
              then (Some (mapped (e_page env) bs mapSize, fileSize, mapSize), w2)
              else (None, close_fd w2)))"

definition UnmapFileFromMemory :: "u32 \<Rightarrow> 's world \<Rightarrow> 's world" where
  "UnmapFileFromMemory mapSize w =
     (if mapSize = 0 then w else if w_fd w \<noteq> FD_ZERO then (close_fd w)\<lparr>w_fd := FD_ZERO\<rparr> else w)"

definition WriteDataToFile :: "'s env \<Rightarrow> string \<Rightarrow> buffer \<Rightarrow> u32 \<Rightarrow> 's world \<Rightarrow> (int \<times> 's world) exec" where
  "WriteDataToFile env fn dat len w =
     (if dat = NullBuf \<or> len = 0 then ret (- 1, w)
      else if \<not> e_create env fn then ret (- 1, w)
      else seq (read_buf dat (unat len)) (\<lambda>bs.
        let n = min (length bs) (e_written env fn (length bs)) in
        ret (if n = length bs then 0 else - 1, w\<lparr>w_files := (w_files w)(fn \<mapsto> take n bs)\<rparr>)))"

subsection \<open>Decryption and encryption\<close>

text \<open>The length, padded to a multiple of the size of a block.\<close>

definition padded :: "u32 \<Rightarrow> u32" where
  "padded len = (if len mod 16 \<noteq> 0 then len + (16 - len mod 16) else len)"

text \<open>The end of \<open>DecryptIMG3Data\<close>: decompression of what has been decrypted, if it looks compressed.\<close>

definition decompress_decrypted :: "'s env \<Rightarrow> byte list \<Rightarrow> u32 \<Rightarrow> (buffer \<times> buffer \<times> u32) exec" where
  "decompress_decrypted env out len =
     seq (IsFileCompressed (Some out) LZSS_NONE) (\<lambda>c.
       if fst c = 0 then
         seq (LzssDecompress (e_bytes env) (e_window env) (snd c) (Some out) (unat len) True) (\<lambda>a.
           case lz_out a of
             Some (buf, n) \<Rightarrow> if lz_return a \<noteq> 0 then ret (NullBuf, FreedBuf, len) else ret (Buf buf, Buf buf, word_of_nat n)
           | None \<Rightarrow> ret (NullBuf, FreedBuf, len))
       else ret (Buf out, Buf out, len))"

text \<open>
  The result, and what \<open>*decryptedData\<close> and \<open>*decryptedLength\<close> hold; the pointer is null before the call. The names of the device and
  the version come as blocks, since the program may hand over blocks without a terminator.
\<close>

definition DecryptIMG3Data ::
    "'s env \<Rightarrow> byte list option \<Rightarrow> u32 \<Rightarrow> string option \<Rightarrow> string option \<Rightarrow> string option \<Rightarrow> u32 \<Rightarrow> 's world \<Rightarrow>
     (buffer \<times> buffer \<times> u32 \<times> 's world) exec" where
  "DecryptIMG3Data env dat len device version sec len0 w =
     (if dat = None \<or> device = None \<or> version = None \<or> sec = None then ret (NullBuf, NullBuf, len0, w)
      else
        seq (cstr (the device) 0) (\<lambda>d. seq (cstr (the version) 0) (\<lambda>v.
        seq (RetrieveKeyAndIV (e_engine env) (new_sqlite (w_db w)) (Some d) (Some v) sec) (\<lambda>(rc, iv, key, sq).
          let w = w\<lparr>w_db := store (destroy_sqlite sq)\<rparr> in
          if rc \<noteq> 0 then ret (NullBuf, NullBuf, len0, w)
          else
            seq (if len mod 16 \<noteq> 0 then slice (the dat) 0 (unat (padded len)) else ret (the dat)) (\<lambda>dataToDecrypt.
            seq (SetKeyAndIV (e_word env) key iv new_openssl) (\<lambda>(rk, ssl).
              if rk \<noteq> 0 then seq (destroy_openssl ssl) (\<lambda>ssl. ret (NullBuf, NullBuf, padded len, w))
              else
                seq (DecryptData (e_evp env) ssl (Some dataToDecrypt) (unat (padded len)) None) (\<lambda>(rd, out).
                case out of
                  None \<Rightarrow> seq (destroy_openssl ssl) (\<lambda>ssl. ret (NullBuf, NullBuf, padded len, w))
                | Some o' \<Rightarrow>
                    if rd \<noteq> 0 then seq (destroy_openssl ssl) (\<lambda>ssl. ret (NullBuf, Buf o', padded len, w))
                    else seq (decompress_decrypted env o' (padded len)) (\<lambda>(r, d, n).
                      seq (destroy_openssl ssl) (\<lambda>ssl. ret (r, d, n, w))))))))))"

text \<open>
  \<open>compress\<close> is 0 or 1. The result, and what \<open>*encryptedData\<close> and \<open>*encryptedLength\<close> hold; the pointer is null before the call.
  \<open>EncryptData\<close> returns the size of the last write, and every value but 0 is taken for an error.
\<close>

definition EncryptIMG3Data ::
    "'s env \<Rightarrow> byte list option \<Rightarrow> u32 \<Rightarrow> string option \<Rightarrow> string option \<Rightarrow> string option \<Rightarrow> bool \<Rightarrow> u32 \<Rightarrow> 's world \<Rightarrow>
     (buffer \<times> buffer \<times> u32 \<times> 's world) exec" where
  "EncryptIMG3Data env dat len device version sec compress len0 w =
     (if dat = None \<or> device = None \<or> version = None \<or> sec = None then ret (NullBuf, NullBuf, len0, w)
      else
        seq (if compress then
               seq (LzssCompress (e_bytes env) (e_state env) (e_window env) LZSS_NONE dat (ucast len) True) (\<lambda>a.
                 ret (if lz_return a \<noteq> 0 then None else lz_out a))
             else ret (Some (the dat, unat len))) (\<lambda>comp.
        case comp of
          None \<Rightarrow> ret (NullBuf, NullBuf, len0, w)
        | Some (dataToEncrypt, used) \<Rightarrow>
            seq (RetrieveKeyAndIV (e_engine env) (new_sqlite (w_db w)) device version sec) (\<lambda>(rc, iv, key, sq).
              let w = w\<lparr>w_db := store (destroy_sqlite sq)\<rparr>; n = padded (word_of_nat used) in
              if rc \<noteq> 0 then ret (NullBuf, NullBuf, len0, w)
              else
                seq (SetKeyAndIV (e_word env) key iv new_openssl) (\<lambda>(rk, ssl).
                  if rk \<noteq> 0 then seq (destroy_openssl ssl) (\<lambda>ssl. ret (NullBuf, NullBuf, n, w))
                  else
                    seq (EncryptData (e_evp env) ssl (Some dataToEncrypt) (unat n) None) (\<lambda>(rd, out).
                    seq (destroy_openssl ssl) (\<lambda>ssl.
                      let enc = (case out of None \<Rightarrow> NullBuf | Some o' \<Rightarrow> Buf o') in
                      ret (if rd \<noteq> 0 then NullBuf else enc, enc, n, w)))))))"

subsection \<open>Operations on archives\<close>

text \<open>What \<open>printf("%s")\<close> and the other uses of the listed names read.\<close>

fun names_at :: "string heap \<Rightarrow> nat list \<Rightarrow> string list exec" where
  "names_at names [] = ret []"
| "names_at names (p # ps) = seq (h_get names p) (\<lambda>buf. seq (cstr buf 0) (\<lambda>n. seq (names_at names ps) (\<lambda>ns. ret (n # ns))))"

text \<open>A local archive object, analysed; and the destructor before the return.\<close>

definition analyze :: "'s env \<Rightarrow> string \<Rightarrow> 's world \<Rightarrow> (bool \<times> zip) exec" where
  "analyze env archive w = AnalyzeFile (w_files w) (e_char env) (e_wild env) (Some archive) new_zip"

definition leave_zip :: "zip \<Rightarrow> 'a \<Rightarrow> 'a exec" where
  "leave_zip z r = seq (destroy_zip z) (\<lambda>z. ret r)"

definition unzipped :: "'s env \<Rightarrow> command list \<Rightarrow> 's world \<Rightarrow> 's world" where
  "unzipped env cmds w = w\<lparr>w_files := fold (e_unzip env) cmds (w_files w)\<rparr>"

definition ListArchiveFiles :: "'s env \<Rightarrow> string option \<Rightarrow> 's world \<Rightarrow> (int \<times> 's world) exec" where
  "ListArchiveFiles env archiveFileName w = (case archiveFileName of
     None \<Rightarrow> leave_zip new_zip (- 1, w)
   | Some archive \<Rightarrow>
       seq (analyze env archive w) (\<lambda>(found, z).
         if \<not> found then leave_zip z (- 1, w)
         else seq (names_at (z_names z) (z_files z)) (\<lambda>ns. leave_zip z (0, w\<lparr>w_out := w_out w @ ns\<rparr>))))"

definition ExtractFileFromArchive :: "'s env \<Rightarrow> string option \<Rightarrow> string option \<Rightarrow> 's world \<Rightarrow> (int \<times> 's world) exec" where
  "ExtractFileFromArchive env archiveFileName sec w = (case archiveFileName of
     None \<Rightarrow> leave_zip new_zip (- 1, w)
   | Some archive \<Rightarrow>
       seq (analyze env archive w) (\<lambda>(found, z).
         if \<not> found then leave_zip z (- 1, w)
         else if sec \<noteq> None then
           seq (ExtractFiles (e_spawn env) (Some archive) sec z) (\<lambda>(r, cmds, z). leave_zip z (0, unzipped env cmds w))
         else (case ExtractAllFiles (e_spawn env) (Some archive) z of (r, cmds, z) \<Rightarrow> leave_zip z (0, unzipped env cmds w))))"

text \<open>
  The files \<open>DecryptIMG3File\<close> and \<open>PatchKernelFile\<close> work on: the archive itself when it is not one, the files extracted from
  it (their names have been read by then), a null list when the extraction fails; or none, when the analysis fails for another reason.
\<close>

datatype found_files = NotAnalyzed | NullList | Files "string list"

definition files_of :: "'s env \<Rightarrow> string \<Rightarrow> string option \<Rightarrow> 's world \<Rightarrow> (found_files \<times> zip \<times> 's world) exec" where
  "files_of env archive sec w =
     seq (analyze env archive w) (\<lambda>(found, z).
       if \<not> found then ret (if z_error z = ZIP_NOT_A_ZIP_FILE then Files [archive] else NotAnalyzed, z, w)
       else
         seq (ExtractFiles (e_spawn env) (Some archive) sec z) (\<lambda>(r, cmds, z). case r of
           None \<Rightarrow> ret (NullList, z, unzipped env cmds w)
         | Some ps \<Rightarrow> seq (names_at (z_names z) ps) (\<lambda>ns. ret (Files ns, z, unzipped env cmds w))))"

text \<open>The loop of \<open>DecryptIMG3File\<close>; \<open>fileInterface\<close> and \<open>decryptedLength\<close> live through all of it.\<close>

fun decrypt_files ::
    "'s env \<Rightarrow> string \<Rightarrow> string option \<Rightarrow> string \<Rightarrow> string \<Rightarrow> string \<Rightarrow> string list \<Rightarrow> file_iface \<Rightarrow> u32 \<Rightarrow> 's world \<Rightarrow>
     (int \<times> file_iface \<times> 's world) exec" where
  "decrypt_files env archive output device version sec [] fi len w = ret (0, fi, w)"
| "decrypt_files env archive output device version sec (f # fs) fi len w =
     (case MapFileToMemory env (Some f) w of
        (None, w) \<Rightarrow> ret (- 1, fi, w)
      | (Some (mem, fileSize, mapSize), w) \<Rightarrow>
          seq (ParseFile (e_malloc env) (Some mem) fileSize fi) (\<lambda>(rc, fi).
            if rc \<noteq> 0 then ret (- 1, fi, UnmapFileFromMemory mapSize w)
            else seq (FileGetSectionData fi IMG3_DATA) (\<lambda>enc.
              if enc = None then ret (- 1, fi, UnmapFileFromMemory mapSize w)
              else seq (FileGetSectionDataLength fi IMG3_DATA) (\<lambda>encLen.
                if encLen = 0 then ret (- 1, fi, UnmapFileFromMemory mapSize w)
                else seq (WriteDataToFile env ''data_section.bin'' (Buf (the enc)) encLen w) (\<lambda>(r, w).
                  seq (DecryptIMG3Data env enc encLen (Some device) (Some version) (Some sec) len w) (\<lambda>(p, dec, len, w).
                  if dec = NullBuf then ret (- 1, fi, UnmapFileFromMemory mapSize w)
                  else
                    seq (WriteDataToFile env (case output of None \<Rightarrow> archive @ ''_decrypted'' | Some out \<Rightarrow> out) dec len w) (\<lambda>(r, w).
                    seq (delete_buf dec) (\<lambda>d.
                      decrypt_files env archive output device version sec fs fi len (UnmapFileFromMemory mapSize w)))))))))"

text \<open>The destructors of the two local objects.\<close>

definition leave_files :: "zip \<Rightarrow> file_iface \<Rightarrow> 'a \<Rightarrow> 'a exec" where
  "leave_files z fi r = seq (delete_sections fi) (\<lambda>fi. leave_zip z r)"

definition DecryptIMG3File ::
    "'s env \<Rightarrow> string option \<Rightarrow> string option \<Rightarrow> string option \<Rightarrow> string option \<Rightarrow> string option \<Rightarrow> 's world \<Rightarrow>
     (int \<times> 's world) exec" where
  "DecryptIMG3File env archiveFileName outputFileName deviceName deviceVersion sec w =
     (case (archiveFileName, deviceName, deviceVersion, sec) of
        (Some archive, Some device, Some version, Some s) \<Rightarrow>
          seq (files_of env archive (Some s) w) (\<lambda>(fs, z, w). case fs of
            NotAnalyzed \<Rightarrow> leave_files z new_file_iface (- 1, w)
          | NullList \<Rightarrow> crash NullDeref
          | Files ns \<Rightarrow>
              seq (decrypt_files env archive outputFileName device version s ns new_file_iface (e_word env) w) (\<lambda>(rc, fi, w).
                leave_files z fi (rc, w)))
      | _ \<Rightarrow> leave_files new_zip new_file_iface (- 1, w))"

subsection \<open>Patching\<close>

text \<open>
  \<open>sscanf(line, "%x %x", ...)\<close>: each number is a hexadecimal one, with a sign and a prefix \<^verbatim>\<open>0x\<close> if need be, after white space; it is
  read in 64 bits, where it saturates, and stored in 32. \<open>None\<close> when fewer than two numbers are found.
\<close>

fun hex_digits :: "nat \<Rightarrow> string \<Rightarrow> nat \<times> string" where
  "hex_digits acc [] = (acc, [])"
| "hex_digits acc (c # cs) = (case hex_value c of Some d \<Rightarrow> hex_digits (16 * acc + d) cs | None \<Rightarrow> (acc, c # cs))"

definition scan_magnitude :: "bool \<Rightarrow> string \<Rightarrow> (u32 \<times> string) option" where
  "scan_magnitude neg s =
     (let t = (if take 2 s \<in> {''0x'', ''0X''} then drop 2 s else s) in
      case t of
        [] \<Rightarrow> None
      | c # cs \<Rightarrow>
          if hex_value c = None then None
          else let (n, r) = hex_digits 0 t
               in Some (if 2 ^ 64 \<le> n then - 1 else if neg then - word_of_nat n else word_of_nat n, r))"

definition scan_hex :: "string \<Rightarrow> (u32 \<times> string) option" where
  "scan_hex s = (case dropWhile is_space s of
     [] \<Rightarrow> None
   | c # cs \<Rightarrow>
       if c = CHR ''-'' then scan_magnitude True cs
       else if c = CHR ''+'' then scan_magnitude False cs
       else scan_magnitude False (c # cs))"

definition scan_patch :: "string \<Rightarrow> (u32 \<times> u32) option" where
  "scan_patch line = (case scan_hex (takeWhile (\<lambda>c. c \<noteq> NUL) line) of
     None \<Rightarrow> None
   | Some (patchAddress, r) \<Rightarrow> map_option (\<lambda>vr. (patchAddress, fst vr)) (scan_hex r))"

text \<open>The lines \<open>fgets\<close> reads into a buffer of 128 characters: up to the line feed, and at most 127.\<close>

definition fgets_line :: "string \<Rightarrow> string" where
  "fgets_line s = (let l = takeWhile (\<lambda>c. c \<noteq> CHR 0x0A) s in take 127 (if length l < length s then l @ [CHR 0x0A] else l))"

function fgets_lines :: "string \<Rightarrow> string list" where
  "fgets_lines [] = []"
| "fgets_lines (c # cs) = fgets_line (c # cs) # fgets_lines (drop (length (fgets_line (c # cs))) (c # cs))"
  by pat_completeness auto
termination
  by (relation "measure length") (auto simp: fgets_line_def Let_def)

text \<open>
  A patch line has an address and a value, which is written in four bytes, little-endian, when the address is not greater than the
  length.
\<close>

fun apply_patches :: "u32 \<Rightarrow> string list \<Rightarrow> byte list \<Rightarrow> byte list exec" where
  "apply_patches len [] dat = ret dat"
| "apply_patches len (line # ls) dat = (case scan_patch line of
     None \<Rightarrow> ret dat
   | Some (addr, val) \<Rightarrow>
       if addr > len then apply_patches len ls dat
       else seq (blit dat (unat addr) (le32_bytes val)) (\<lambda>dat. apply_patches len ls dat))"

text \<open>The labels at the end of \<open>PatchKernelFile\<close>, on the two streams.\<close>

definition close_output :: "handle \<Rightarrow> 'a \<Rightarrow> 'a exec" where
  "close_output output r = seq (fclose output) (\<lambda>h. ret r)"

definition close_patch :: "handle \<Rightarrow> handle \<Rightarrow> 'a \<Rightarrow> 'a exec" where
  "close_patch patch output r = seq (fclose patch) (\<lambda>h. close_output output r)"

definition patched_name :: "string \<Rightarrow> string option \<Rightarrow> string" where
  "patched_name archive output = (case output of None \<Rightarrow> take 2047 (archive @ ''_patched'') | Some out \<Rightarrow> out)"

text \<open>
  From the decryption of the section to the writing of the file: \<open>encData\<close> is the block \<open>encryptedData\<close> points to, and \<open>block\<close> the
  copy of the file. The new section is copied to \<open>encryptedData\<close>; what is written is the copy of the file. The two lengths that the calls
  fill in are set whenever the pointers are.
\<close>

definition patch_section ::
    "'s env \<Rightarrow> string \<Rightarrow> string \<Rightarrow> string \<Rightarrow> string \<Rightarrow> byte list \<Rightarrow> u32 \<Rightarrow> u32 \<Rightarrow> byte list \<Rightarrow> 's world \<Rightarrow> (int \<times> 's world) exec" where
  "patch_section env out patchFileName device version encData len fileSize block w =
     seq (DecryptIMG3Data env (Some encData) len (Some device) (Some version) (Some ''kernelcache'') (e_word env) w)
       (\<lambda>(p, dec, dlen, w).
     if dec = NullBuf then ret (- 1, w)
     else
       seq (case dec of Buf x \<Rightarrow> ret x | NullBuf \<Rightarrow> crash NullDeref | FreedBuf \<Rightarrow> crash Dangling) (\<lambda>x.
       seq (apply_patches dlen (fgets_lines (string_of_bytes (case w_files w patchFileName of None \<Rightarrow> [] | Some bs \<Rightarrow> bs))) x) (\<lambda>x.
       seq (cstr device 0) (\<lambda>d. seq (cstr version 0) (\<lambda>v.
       seq (EncryptIMG3Data env (Some x) dlen (Some d) (Some v) (Some ''kernelcache'') True (e_word env) w) (\<lambda>(p, enc, elen, w).
       if enc = NullBuf then ret (- 1, w)
       else
         seq (read_buf enc (unat elen)) (\<lambda>c. seq (blit encData 0 c) (\<lambda>encData. seq (slice block 0 (unat fileSize)) (\<lambda>bs.
           let n = min (length bs) (e_written env out (length bs)) in
           ret (if n = length bs then 0 else - 1, w\<lparr>w_files := (w_files w)(out \<mapsto> take n bs)\<rparr>))))))))))"

text \<open>
  One round of the loop. \<open>located\<close> is whether the two calls that would set \<open>encryptedData\<close> and \<open>encryptedLength\<close>, which are commented out in the
  code, are in place. They give the section's own copy of the data and its length.
\<close>

definition fetch_section :: "bool \<Rightarrow> file_iface \<Rightarrow> (byte list option \<times> u32) exec" where
  "fetch_section located fi =
     (if located then seq (FileGetSectionData fi IMG3_DATA) (\<lambda>enc. seq (FileGetSectionDataLength fi IMG3_DATA) (\<lambda>len. ret (enc, len)))
      else ret (None, 0))"

definition patch_file ::
    "'s env \<Rightarrow> bool \<Rightarrow> string \<Rightarrow> string option \<Rightarrow> string \<Rightarrow> string \<Rightarrow> string \<Rightarrow> string \<Rightarrow> file_iface \<Rightarrow> 's world \<Rightarrow>
     (int \<times> file_iface \<times> 's world) exec" where
  "patch_file env located archive outputFileName patchFileName device version f fi w0 =
     (let out = patched_name archive outputFileName in
      if \<not> e_create env out then ret (- 1, fi, w0)
      else
        let w1 = w0\<lparr>w_files := (w_files w0)(out \<mapsto> [])\<rparr> in
        if w_files w1 patchFileName = None then close_output OpenHandle (- 1, fi, w1)
        else (case MapFileToMemory env (Some f) w1 of
           (None, w2) \<Rightarrow> close_patch OpenHandle OpenHandle (- 1, fi, w2)
         | (Some (mem, fileSize, mapSize), w2) \<Rightarrow>
             seq (slice mem 0 (unat fileSize)) (\<lambda>bs.
             let block = bs @ replicate (unat mapSize - unat fileSize) 0 in
             seq (ParseFile (e_malloc env) (Some block) fileSize fi) (\<lambda>(rc, fi).
               let fail = close_patch OpenHandle OpenHandle (- 1, fi, UnmapFileFromMemory mapSize w2) in
               if rc \<noteq> 0 then fail
               else seq (fetch_section located fi) (\<lambda>(enc, len). case enc of
                  None \<Rightarrow> fail
                | Some encData \<Rightarrow>
                    if len = 0 then fail
                    else seq (patch_section env out patchFileName device version encData len fileSize block w2) (\<lambda>(rc, w3).
                      close_patch OpenHandle OpenHandle (rc, fi, UnmapFileFromMemory mapSize w3)))))))"

fun patch_files ::
    "'s env \<Rightarrow> bool \<Rightarrow> string \<Rightarrow> string option \<Rightarrow> string \<Rightarrow> string \<Rightarrow> string \<Rightarrow> string list \<Rightarrow> file_iface \<Rightarrow>
     's world \<Rightarrow> (int \<times> file_iface \<times> 's world) exec" where
  "patch_files env located archive output patch device version [] fi w = ret (0, fi, w)"
| "patch_files env located archive output patch device version (f # fs) fi w =
     seq (patch_file env located archive output patch device version f fi w) (\<lambda>(rc, fi, w).
       if rc \<noteq> 0 then ret (- 1, fi, w) else patch_files env located archive output patch device version fs fi w)"

text \<open>\<open>encryptedData\<close> is null from its declaration on.\<close>

definition PatchKernelFile ::
    "'s env \<Rightarrow> string option \<Rightarrow> string option \<Rightarrow> string option \<Rightarrow> string option \<Rightarrow> string option \<Rightarrow> 's world \<Rightarrow>
     (int \<times> 's world) exec" where
  "PatchKernelFile env archiveFileName outputFileName patchFileName deviceName deviceVersion w =
     (case (archiveFileName, patchFileName, deviceName, deviceVersion) of
        (Some archive, Some patch, Some device, Some version) \<Rightarrow>
          seq (files_of env archive (Some ''kernelcache'') w) (\<lambda>(fs, z, w). case fs of
            NotAnalyzed \<Rightarrow> seq (close_patch NoHandle NoHandle (- 1, w)) (leave_files z new_file_iface)
          | NullList \<Rightarrow> seq (close_patch NoHandle NoHandle (- 1, w)) (leave_files z new_file_iface)
          | Files ns \<Rightarrow>
              seq (patch_files env False archive outputFileName patch device version ns new_file_iface w) (\<lambda>(rc, fi, w).
                leave_files z fi (rc, w)))
      | _ \<Rightarrow> leave_files new_zip new_file_iface (- 1, w))"

subsection \<open>The other operations\<close>

definition UpdateIMG3Database :: "'s env \<Rightarrow> string option \<Rightarrow> string option \<Rightarrow> string option \<Rightarrow> string option \<Rightarrow> 's world \<Rightarrow> (int \<times> 's world) exec" where
  "UpdateIMG3Database env archiveFileName deviceName deviceVersion deviceBuild w =
     (case MapFileToMemory env archiveFileName w of
        (None, w) \<Rightarrow> seq (destroy_html_parser new_html_parser) (\<lambda>hp. ret (- 1, close_fd w))
      | (Some (mem, fileSize, mapSize), w) \<Rightarrow>
          let hp = fold (\<lambda>f hp. snd (AddFilter (e_char env) (Some f) hp)) [''a'', ''li'', ''span'', ''ul''] new_html_parser in
          seq (ParseHtmlTags (e_chars env) (string_of_bytes mem) fileSize hp) (\<lambda>(ok, hp).
            if \<not> ok then seq (destroy_html_parser hp) (\<lambda>hp. ret (- 1, close_fd (UnmapFileFromMemory mapSize w)))
            else
              seq (UpdateDatabase (e_engine env) (new_sqlite (w_db w)) deviceName deviceBuild deviceVersion (decryptionList hp)) (\<lambda>(r, sq).
              seq (destroy_html_parser hp) (\<lambda>hp.
                ret (0, close_fd (UnmapFileFromMemory mapSize (w\<lparr>w_db := store (destroy_sqlite sq)\<rparr>)))))))"

definition ParseIMG3File :: "'s env \<Rightarrow> string option \<Rightarrow> 's world \<Rightarrow> 's world exec" where
  "ParseIMG3File env file w = (case MapFileToMemory env file w of
     (None, w) \<Rightarrow> seq (delete_sections new_file_iface) (\<lambda>fi. ret w)
   | (Some (mem, fileSize, mapSize), w) \<Rightarrow>
       seq (ParseFile (e_malloc env) (Some mem) fileSize new_file_iface) (\<lambda>(rc, fi).
       seq (PrintSections fi) (\<lambda>ls.
       seq (delete_sections fi) (\<lambda>fi. ret (UnmapFileFromMemory mapSize (w\<lparr>w_out := w_out w @ ls\<rparr>))))))"

text \<open>When the file is not compressed, a null pointer is handed to \<open>WriteDataToFile\<close>, with a length that has not been set.\<close>

definition DecompressLZSSFile :: "'s env \<Rightarrow> string option \<Rightarrow> 's world \<Rightarrow> (int \<times> 's world) exec" where
  "DecompressLZSSFile env file w = (case MapFileToMemory env file w of
     (None, w) \<Rightarrow> ret (- 1, w)
   | (Some (mem, fileSize, mapSize), w) \<Rightarrow>
       seq (IsFileCompressed (Some mem) LZSS_NONE) (\<lambda>c.
       seq (if fst c = 0
            then seq (LzssDecompress (e_bytes env) (e_window env) (snd c) (Some mem) (unat fileSize) True) (\<lambda>a.
              ret (if lz_return a \<noteq> 0 then None else Some (case lz_out a of None \<Rightarrow> (NullBuf, e_word env) | Some (b, n) \<Rightarrow> (Buf b, word_of_nat n))))
            else ret (Some (NullBuf, e_word env))) (\<lambda>r. case r of
         None \<Rightarrow> ret (- 1, UnmapFileFromMemory mapSize w)
       | Some (buf, len) \<Rightarrow>
           seq (WriteDataToFile env (the file @ ''_decompressed'') buf len w) (\<lambda>(rc, w). ret (0, UnmapFileFromMemory mapSize w)))))"

subsection \<open>Mapped files\<close>

lemma page_up_ge: "0 < p \<Longrightarrow> n \<le> page_up p n"
proof -
  assume p: "0 < p"
  have "(n + p - 1) div p * p + (n + p - 1) mod p = n + p - 1" by (rule div_mult_mod_eq)
  then show "n \<le> page_up p n" unfolding page_up_def using mod_less_divisor [OF p, of "n + p - 1"] p by linarith
qed

lemma page_up_mono: "m \<le> n \<Longrightarrow> page_up p m \<le> page_up p n"
  by (simp add: page_up_def div_le_mono)

lemma map_size_ge:
  assumes "0 < unat p" "unat n + unat p < 2 ^ 32"
  shows "unat n \<le> unat (map_size p n)" "map_size p n \<noteq> 0"
proof -
  have n: "unat n div unat p * unat p \<le> unat n" by simp
  have u: "unat (map_size p n) = (unat n div unat p + 1) * unat p" if "n mod p = 0"
  proof -
    have "unat n div unat p < 2 ^ 32 - 1" by (rule le_less_trans [OF div_le_dividend]) (use assms in simp)
    then have "unat (n div p) + unat (1 :: u32) < 2 ^ 32" by (simp add: unat_div)
    then have "unat (n div p + 1) = unat n div unat p + 1" by (subst unat_plus_less) (simp_all add: unat_div)
    moreover have "(unat n div unat p + 1) * unat p < 2 ^ 32" unfolding add_mult_distrib using n assms(2) by linarith
    ultimately show ?thesis using that by (simp add: map_size_def unat_word_ariths)
  qed
  show "unat n \<le> unat (map_size p n)"
  proof (cases "n mod p = 0")
    case True
    have "unat n \<le> (unat n div unat p + 1) * unat p"
      using div_mult_mod_eq [of "unat n" "unat p"] mod_less_divisor [OF assms(1), of "unat n"] by (simp only: add_mult_distrib)
    then show ?thesis using u [OF True] by simp
  next
    case False
    then show ?thesis by (simp add: map_size_def)
  qed
  show "map_size p n \<noteq> 0"
  proof (cases "n mod p = 0")
    case True
    then have "0 < unat (map_size p n)" using u assms(1) by simp
    then show ?thesis by auto
  next
    case False
    then show ?thesis by (auto simp: map_size_def)
  qed
qed

lemma mapped_ok:
  assumes "0 < unat page" "length bs + unat page < 2 ^ 32"
  shows "\<exists>k. mapped page bs (map_size page (word_of_nat (length bs))) = bs @ replicate k 0"
proof -
  have l: "unat (word_of_nat (length bs) :: u32) = length bs" using assms(2) by (simp add: unat_small)
  then have "length bs \<le> unat (map_size page (word_of_nat (length bs)))" using map_size_ge(1) [of page "word_of_nat (length bs)"] assms by simp
  then have "page_up (unat page) (length bs) \<le> page_up (unat page) (unat (map_size page (word_of_nat (length bs))))" by (rule page_up_mono)
  moreover have "length bs \<le> page_up (unat page) (length bs)" using assms(1) by (rule page_up_ge)
  ultimately show ?thesis by (auto simp: mapped_def)
qed

text \<open>A file the system lets the program map, of a length that leaves room for the extra page.\<close>

definition mappable :: "'s env \<Rightarrow> 's world \<Rightarrow> string \<Rightarrow> byte list \<Rightarrow> bool" where
  "mappable env w fn bs \<longleftrightarrow> w_files w fn = Some bs \<and> e_fstat env fn \<and> e_mmap env fn \<and> 0 < unat (e_page env) \<and>
     length bs + unat (e_page env) < 2 ^ 32"

lemma MapFileToMemory_ok:
  assumes "mappable env w fn bs"
  shows "\<exists>k ms. MapFileToMemory env (Some fn) w = (Some (bs @ replicate k 0, word_of_nat (length bs), ms), w\<lparr>w_fd := FD_OPEN\<rparr>) \<and> ms \<noteq> 0"
proof -
  let ?n = "word_of_nat (length bs) :: u32"
  from assms obtain k where k: "mapped (e_page env) bs (map_size (e_page env) ?n) = bs @ replicate k 0"
    using mapped_ok [of "e_page env" bs] by (auto simp: mappable_def)
  have "unat ?n = length bs" using assms by (simp add: mappable_def unat_small)
  then have m: "map_size (e_page env) ?n \<noteq> 0" using map_size_ge(2) [of "e_page env" ?n] assms by (simp add: mappable_def)
  have "(if w_fd w \<noteq> FD_ZERO then close_fd w else w)\<lparr>w_fd := FD_OPEN\<rparr> = w\<lparr>w_fd := FD_OPEN\<rparr>"
    "w_files (if w_fd w \<noteq> FD_ZERO then close_fd w else w) = w_files w"
    by (simp_all add: close_fd_def split: descriptor.split)
  with assms k m show ?thesis
    by (intro exI [of _ k] exI [of _ "map_size (e_page env) ?n"]) (simp add: MapFileToMemory_def mappable_def Let_def)
qed

lemma Unmap_opened: "ms \<noteq> 0 \<Longrightarrow> w_fd w = FD_OPEN \<Longrightarrow> UnmapFileFromMemory ms w = w\<lparr>w_fd := FD_ZERO\<rparr>"
  by (simp add: UnmapFileFromMemory_def close_fd_def)

definition writable :: "'s env \<Rightarrow> string \<Rightarrow> bool" where
  "writable env fn \<longleftrightarrow> e_create env fn \<and> (\<forall>n. e_written env fn n = n)"

lemma WriteDataToFile_ok:
  assumes "writable env fn" "0 < length bs" "length bs < 2 ^ 32"
  shows "WriteDataToFile env fn (Buf bs) (word_of_nat (length bs)) w = ret (0, w\<lparr>w_files := (w_files w)(fn \<mapsto> bs)\<rparr>)"
proof -
  have l: "unat (word_of_nat (length bs) :: u32) = length bs" using assms(3) by (simp add: unat_small)
  then have "(word_of_nat (length bs) :: u32) \<noteq> 0" using assms(2) by (metis length_greater_0_conv list.size(3) unat_0)
  with l assms(1) show ?thesis by (simp add: WriteDataToFile_def writable_def read_buf_def Let_def)
qed

end
