(* ===== verification/Pipeline.thy ===== *)
theory Pipeline imports Functions begin

text \<open>
  What the operations of Functions achieve, on files and the data base: decryption of an img3 file from end to end, the operations that
  cannot succeed, listings and decompression.
\<close>

subsection \<open>Decrypting a file\<close>

text \<open>The state after the data base has been opened, which may create its file.\<close>

definition opened :: "'s env \<Rightarrow> 's world \<Rightarrow> 's world" where
  "opened env w = w\<lparr>w_db := snd (db_open (e_engine env) (w_db w))\<rparr>"

lemma opened_simps [simp]: "w_files (opened env w) = w_files w" "w_fd (opened env w) = w_fd w" "w_out (opened env w) = w_out w"
  "w_stdin (opened env w) = w_stdin w" "opened env (w\<lparr>w_files := f\<rparr>) = (opened env w)\<lparr>w_files := f\<rparr>"
  "opened env (w\<lparr>w_fd := x\<rparr>) = (opened env w)\<lparr>w_fd := x\<rparr>"
  by (simp_all add: opened_def)

text \<open>What the data base answers for a device, version and section: the printed forms of a 256-bit key and an IV.\<close>

definition key_stored :: "'s env \<Rightarrow> 's world \<Rightarrow> string \<Rightarrow> string \<Rightarrow> string \<Rightarrow> byte list \<Rightarrow> byte list \<Rightarrow> bool" where
  "key_stored env w d v s key iv \<longleftrightarrow> length key = 32 \<and> length iv = 16 \<and>
     RetrieveKeyAndIV (e_engine env) (new_sqlite (w_db w)) (Some d) (Some v) (Some s) =
       ret (0, Some (to_hex iv), Some (to_hex key), \<lparr>connected = True, store = w_db (opened env w)\<rparr>)"

lemma key_stored_tables:
  assumes "queries_ok (e_engine env) tab" "plain d" "plain v" "plain s" "db_opens (e_engine env) tab (w_db w)"
    and "tab (w_db w) d = Some t" "t (v, s) = Some (to_hex iv, to_hex key)" "length d + length v + length s \<le> 1900"
    and "length key = 32" "length iv = 16"
  shows "key_stored env w d v s key iv"
  using sql_tables.retrieve_new [OF sql_tables.intro [OF assms(1)] assms(2-8)] assms(9,10) by (simp add: key_stored_def opened_def)

lemma key_stored_files [simp]: "key_stored env (w\<lparr>w_files := f\<rparr>) d v s key iv = key_stored env w d v s key iv"
  "key_stored env (w\<lparr>w_fd := x\<rparr>) d v s key iv = key_stored env w d v s key iv"
  by (simp_all add: key_stored_def opened_def)

text \<open>What the bytes that come out of the cipher are turned into.\<close>

definition unpacks :: "'s env \<Rightarrow> byte list \<Rightarrow> byte list \<Rightarrow> bool" where
  "unpacks env p x \<longleftrightarrow>
     decompress_decrypted env p (word_of_nat (length p)) = ret (Buf x, Buf x, word_of_nat (length x))"

lemma unpacks_plain:
  assumes "8 \<le> length p" "be32 (take 4 p) \<noteq> COMP_SIGNATURE" "be32 (take 4 (drop 4 p)) \<noteq> LZSS_SIGNATURE"
  shows "unpacks env p p"
  using assms by (simp add: unpacks_def decompress_decrypted_def IsFileCompressed_ok)

lemma unpacks_compressed:
  assumes "384 \<le> length x" "length x < 2 ^ 31 - 192"
    and "LzssCompress new_out new_sp junk err (Some x) (word_of_nat (length x)) True =
      ret \<lparr>lz_return = 0, lz_error = err, lz_out = Some (buf, n)\<rparr>"
  shows "n + length rest < 2 ^ 32 \<Longrightarrow> unpacks env (take n buf @ rest) x" "length (take n buf) = n" "384 \<le> n" "n mod 16 = 0" "n < 2 ^ 32"
proof -
  from LzssCompress_readable [OF assms(1,2), of new_out new_sp junk err] assms(3)
  have n: "384 \<le> n" "n mod 16 = 0" "n \<le> length buf" "n \<le> 2 * length x + 384" and sig: "be32 (take 4 buf) = COMP_SIGNATURE"
    and D: "\<And>new_out' junk' err' rest m. 384 \<le> m \<Longrightarrow> LzssDecompress new_out' junk' err' (Some (take n buf @ rest)) m True =
      ret \<lparr>lz_return = 0, lz_error = err', lz_out = Some (x, length x)\<rparr>"
    by (auto simp: ret_def)
  show l: "length (take n buf) = n" and "n < 2 ^ 32" using n assms(2) by simp_all
  show "384 \<le> n" "n mod 16 = 0" by (fact n)+
  show "unpacks env (take n buf @ rest) x" if lim: "n + length rest < 2 ^ 32"
  proof -
    have "unat (word_of_nat (n + length rest) :: u32) = n + length rest" using lim by (simp add: unat_small del: of_nat_add)
    moreover have "length (take n buf @ rest) = n + length rest" using l by simp
    moreover have "IsFileCompressed (Some (take n buf @ rest)) LZSS_NONE = ret (0, LZSS_NONE)"
      using l n(1) sig by (subst IsFileCompressed_ok) simp_all
    ultimately show ?thesis
      using D [of "n + length rest" "e_bytes env" "e_window env" LZSS_NONE rest] n(1)
      by (simp add: unpacks_def decompress_decrypted_def del: length_append of_nat_add)
  qed
qed

lemma padded_multiple: "n mod 16 = 0 \<Longrightarrow> n < 2 ^ 32 \<Longrightarrow> padded (word_of_nat n) = word_of_nat n"
proof -
  assume n: "n mod 16 = 0" "n < 2 ^ 32"
  then have "unat ((word_of_nat n :: u32) mod 16) = 0" by (simp add: unat_mod unat_small)
  then show ?thesis by (simp add: padded_def unat_eq_zero)
qed

text \<open>A section made of \<open>p\<close>: what of \<open>p\<close> survives the cipher is unpacked.\<close>

lemma DecryptIMG3Data_ok:
  assumes law: "evp_law (e_evp env) keeps" and k: "key_stored env w d v s key iv" and t: "terminated d" "terminated v"
    and p: "p \<noteq> []" "length p mod 16 = 0" "length p < 2 ^ 32"
  shows "\<exists>q. survives keeps p q \<and> (\<forall>x. unpacks env q x \<longrightarrow>
    DecryptIMG3Data env (Some (encrypted (e_evp env) key iv p @ rest)) (word_of_nat (length p)) (Some (d @ [NUL])) (Some (v @ [NUL]))
      (Some s) len0 w = ret (Buf x, Buf x, word_of_nat (length x), opened env w))"
proof -
  let ?c = "encrypted (e_evp env) key iv p"
  have l: "unat (word_of_nat (length p) :: u32) = length p" using p(3) by (simp add: unat_small)
  have m: "(word_of_nat (length p) :: u32) mod 16 = 0" using p(2,3) by (simp add: unat_eq_zero [symmetric] unat_mod l)
  from k have kl: "length key = 32" "length iv = 16" by (simp_all add: key_stored_def)
  let ?ssl = "new_openssl\<lparr>ssl_key := Buf key, ssl_iv := Buf iv, keySize := 32, ivSize := 16\<rparr>"
  have set: "SetKeyAndIV (e_word env) (Some (to_hex key)) (Some (to_hex iv)) new_openssl = ret (0, ?ssl)"
    using SetKeyAndIV_ok [of new_openssl key iv "e_word env"] kl by (simp add: fresh_buffers_def new_openssl_def)
  have ssl: "ssl_key ?ssl = Buf key" "ssl_iv ?ssl = Buf iv" by simp_all
  from DecryptData_ok [OF law ssl(1) kl(1) ssl(2) kl(2) p(1,2), of rest] obtain q where q: "survives keeps p q"
    and run: "DecryptData (e_evp env) ?ssl (Some (?c @ rest)) (length p) None = ret (0, Some q)" by blast
  have lq: "length q = length p" using q by (rule survives_length)
  have del: "\<exists>ssl. destroy_openssl ?ssl = ret ssl" by (simp add: destroy_openssl_def delete_buf_def new_openssl_def)
  have w: "w\<lparr>w_db := w_db (opened env w)\<rparr> = opened env w" by (simp add: opened_def)
  have "DecryptIMG3Data env (Some (?c @ rest)) (word_of_nat (length p)) (Some (d @ [NUL])) (Some (v @ [NUL])) (Some s) len0 w =
      ret (Buf x, Buf x, word_of_nat (length x), opened env w)" if "unpacks env q x" for x
    using k set run del that
    by (auto simp: DecryptIMG3Data_def key_stored_def m padded_multiple [OF p(2,3)] l unpacks_def lq destroy_sqlite_def
      DisconnectFromDatabase_def w cstr_terminated [OF t(1)] cstr_terminated [OF t(2)])
  with q show ?thesis by blast
qed

text \<open>A single img3 file (not an archive) with an encrypted data section, and a system that lets the results be written.\<close>

definition img3_file :: "'s env \<Rightarrow> 's world \<Rightarrow> string \<Rightarrow> entry list \<Rightarrow> byte list \<Rightarrow> bool" where
  "img3_file env w a es c \<longleftrightarrow> (\<exists>shsh name bs m fill. bs = img3_bytes shsh name es \<and> mappable env w a bs \<and>
     find_marker (last_bytes bs) 0 = None \<and> (\<forall>e \<in> set es. is_tag (fst e)) \<and>
     List.find (\<lambda>e. fst e = IMG3_DATA_MAGIC) es = Some (m, c, fill) \<and> (\<forall>n. e_malloc env n))"

definition decrypted_name :: "string \<Rightarrow> string option \<Rightarrow> string" where
  "decrypted_name a output = (case output of None \<Rightarrow> a @ ''_decrypted'' | Some out \<Rightarrow> out)"

lemma entry_in_file: "e \<in> set es \<Longrightarrow> length (fst (snd e)) \<le> length (entries_bytes es)"
proof (induction es)
  case (Cons e' es)
  then show ?case by (cases e'; cases e) (auto simp: entries_bytes_def entry_bytes_def)
qed simp

lemma img3_file_data:
  assumes "img3_file env w a es c" shows "length c < 2 ^ 32"
proof -
  from assms obtain shsh name m fill where map: "mappable env w a (img3_bytes shsh name es)"
    and data: "List.find (\<lambda>e. fst e = IMG3_DATA_MAGIC) es = Some (m, c, fill)" by (auto simp: img3_file_def)
  have "(m, c, fill) \<in> set es" using data by (auto simp: find_Some_iff)
  from entry_in_file [OF this] map show ?thesis by (simp add: mappable_def length_img3_bytes)
qed

text \<open>Such a file comes as far as the decryption of its data section, which is also written to a file of its own.\<close>

lemma DecryptIMG3File_single:
  assumes f: "img3_file env w a es c" and wr: "writable env ''data_section.bin''" and c: "c \<noteq> []"
  shows "\<exists>ms. ms \<noteq> 0 \<and> DecryptIMG3File env (Some a) output (Some device) (Some version) (Some s) w =
    seq (DecryptIMG3Data env (Some c) (word_of_nat (length c)) (Some device) (Some version) (Some s) (e_word env)
        (w\<lparr>w_fd := FD_OPEN, w_files := (w_files w)(''data_section.bin'' \<mapsto> c)\<rparr>)) (\<lambda>(p, dec, len, w).
      if dec = NullBuf then ret (- 1, UnmapFileFromMemory ms w)
      else seq (WriteDataToFile env (decrypted_name a output) dec len w) (\<lambda>(r, w).
        seq (delete_buf dec) (\<lambda>d. ret (0, UnmapFileFromMemory ms w))))"
proof -
  from f obtain shsh name m fill where map: "mappable env w a (img3_bytes shsh name es)"
    and none: "find_marker (last_bytes (img3_bytes shsh name es)) 0 = None" and tags: "\<forall>e \<in> set es. is_tag (fst e)"
    and data: "List.find (\<lambda>e. fst e = IMG3_DATA_MAGIC) es = Some (m, c, fill)" and malloc: "\<And>n. e_malloc env n"
    by (auto simp: img3_file_def)
  let ?bs = "img3_bytes shsh name es"
  have lb: "length ?bs = 20 + length (entries_bytes es)" by (rule length_img3_bytes)
  then have size: "20 + length (entries_bytes es) < 2 ^ 32" using map by (simp add: mappable_def)
  have cl: "length c < 2 ^ 32" by (rule img3_file_data [OF f])
  have "?bs \<noteq> []" using lb by auto
  then have files: "files_of env a (Some s) w = ret (Files [a], new_zip\<lparr>z_error := ZIP_NOT_A_ZIP_FILE\<rparr>, w)"
    using AnalyzeFile_no_archive [of "w_files w" a ?bs "e_char env" "e_wild env"] map none lb
    by (auto simp: files_of_def analyze_def mappable_def)
  from MapFileToMemory_ok [OF map] obtain z ms where m: "MapFileToMemory env (Some a) w =
      (Some (?bs @ replicate z 0, word_of_nat (20 + length (entries_bytes es)), ms), w\<lparr>w_fd := FD_OPEN\<rparr>)" "ms \<noteq> 0"
    unfolding lb by blast
  from ParseFile_entries [OF new_file_iface_ok(1) tags size, where malloc_ok = "e_malloc env" and shsh = shsh and name = name
      and post = "replicate z 0"] malloc obtain fi where
    fi: "ParseFile (e_malloc env) (Some (?bs @ replicate z 0)) (word_of_nat (20 + length (entries_bytes es))) new_file_iface = ret (0, fi)"
      "fi_ok fi" "contents fi = base_section es # parsed_entries es 20" by blast
  note look = data_section_lookup [OF fi(2,3) data c]
  have nz: "(word_of_nat (length c) :: u32) \<noteq> 0"
    using c cl unat_small [of "length c"] by (metis length_0_conv unat_0)
  have w1: "WriteDataToFile env ''data_section.bin'' (Buf c) (word_of_nat (length c)) (w\<lparr>w_fd := FD_OPEN\<rparr>) =
      ret (0, w\<lparr>w_fd := FD_OPEN, w_files := (w_files w)(''data_section.bin'' \<mapsto> c)\<rparr>)"
    using WriteDataToFile_ok [OF wr, of c] c cl by simp
  from delete_sections_ok [OF fi(2)] obtain fi' where del: "delete_sections fi = ret fi'" by blast
  show ?thesis
    using m(2) by (intro exI [of _ ms]) (auto simp: DecryptIMG3File_def files m(1) fi(1) look nz w1 decrypted_name_def [symmetric]
      leave_files_def del leave_zip_def destroy_new_zip seq_seq split_def if_distrib simp del: of_nat_add intro!: seq_cong)
qed

lemma DecryptIMG3File_ok:
  assumes law: "evp_law (e_evp env) keeps" and f: "img3_file env w a es (encrypted (e_evp env) key iv p)"
    and wr: "writable env ''data_section.bin''" "writable env (decrypted_name a output)"
    and k: "key_stored env w d v s key iv" and t: "terminated d" "terminated v" and p: "p \<noteq> []" "length p mod 16 = 0"
  shows "\<exists>q. survives keeps p q \<and> length p < 2 ^ 32 \<and> (\<forall>x. unpacks env q x \<longrightarrow> x \<noteq> [] \<longrightarrow> length x < 2 ^ 32 \<longrightarrow>
    DecryptIMG3File env (Some a) output (Some (d @ [NUL])) (Some (v @ [NUL])) (Some s) w = ret (0, (opened env w)\<lparr>w_fd := FD_ZERO,
      w_files := (w_files w)(''data_section.bin'' \<mapsto> encrypted (e_evp env) key iv p, decrypted_name a output \<mapsto> x)\<rparr>))"
proof -
  let ?c = "encrypted (e_evp env) key iv p"
  let ?w1 = "w\<lparr>w_fd := FD_OPEN, w_files := (w_files w)(''data_section.bin'' \<mapsto> ?c)\<rparr>"
  from k have "length key = 32" "length iv = 16" by (simp_all add: key_stored_def)
  then have lc: "length ?c = length p" using law p(2) by (simp add: evp_law_def Let_def)
  then have c: "?c \<noteq> []" using p(1) by auto
  have lp: "length p < 2 ^ 32" using img3_file_data [OF f] lc by simp
  from DecryptIMG3File_single [OF f wr(1) c] obtain ms where ms: "ms \<noteq> 0"
    and D: "DecryptIMG3File env (Some a) output (Some (d @ [NUL])) (Some (v @ [NUL])) (Some s) w =
      seq (DecryptIMG3Data env (Some ?c) (word_of_nat (length ?c)) (Some (d @ [NUL])) (Some (v @ [NUL])) (Some s) (e_word env) ?w1)
        (\<lambda>(p, dec, len, w). if dec = NullBuf then ret (- 1, UnmapFileFromMemory ms w)
          else seq (WriteDataToFile env (decrypted_name a output) dec len w) (\<lambda>(r, w).
            seq (delete_buf dec) (\<lambda>d. ret (0, UnmapFileFromMemory ms w))))" by blast
  have k1: "key_stored env ?w1 d v s key iv" using k by simp
  from DecryptIMG3Data_ok [OF law k1 t p lp, of "[]" "e_word env"] obtain q where q: "survives keeps p q"
    and dat: "\<And>x. unpacks env q x \<Longrightarrow> DecryptIMG3Data env (Some ?c) (word_of_nat (length p)) (Some (d @ [NUL])) (Some (v @ [NUL]))
      (Some s) (e_word env) ?w1 = ret (Buf x, Buf x, word_of_nat (length x), opened env ?w1)" by auto
  have "DecryptIMG3File env (Some a) output (Some (d @ [NUL])) (Some (v @ [NUL])) (Some s) w = ret (0, (opened env w)\<lparr>w_fd := FD_ZERO,
      w_files := (w_files w)(''data_section.bin'' \<mapsto> ?c, decrypted_name a output \<mapsto> x)\<rparr>)"
    if x: "unpacks env q x" "x \<noteq> []" "length x < 2 ^ 32" for x
  proof -
    have "WriteDataToFile env (decrypted_name a output) (Buf x) (word_of_nat (length x)) (opened env ?w1) =
        ret (0, (opened env ?w1)\<lparr>w_files := (w_files w)(''data_section.bin'' \<mapsto> ?c, decrypted_name a output \<mapsto> x)\<rparr>)"
      using WriteDataToFile_ok [OF wr(2), of x "opened env ?w1"] x(2,3) by simp
    then show ?thesis using ms unfolding D lc dat [OF x(1)] by (simp add: delete_buf_def Unmap_opened)
  qed
  with q lp show ?thesis by blast
qed

subsection \<open>A sample environment\<close>

text \<open>The reference engine, the reference library, in which padding that is switched off too early may come back, and one file with one data section
  followed by zeros.\<close>

definition sample_env :: "bool \<Rightarrow> ref_state env" where
  "sample_env keeps = \<lparr>e_page = 4096, e_fstat = \<lambda>f. True, e_mmap = \<lambda>f. True, e_create = \<lambda>f. True, e_written = \<lambda>f n. n,
     e_malloc = \<lambda>n. True, e_spawn = \<lambda>c. Spawned, e_unzip = \<lambda>c fs. fs, e_engine = ref_engine,
     e_evp = ref_evp keeps,
     e_bytes = \<lambda>n. 0, e_window = \<lambda>i. 0, e_state = blank_state, e_char = CHR ''x'', e_chars = \<lambda>n. CHR ''x'', e_word = 0, e_wild = 0\<rparr>"

definition sample_world :: "byte list \<Rightarrow> ref_state world" where
  "sample_world bs = \<lparr>w_files = [''k.img3'' \<mapsto> bs], w_fd = FD_ZERO, w_stdin = True,
     w_db = [(''iPhone3,1'', [((''4.3'', ''llb''), to_hex (replicate 16 2), to_hex (replicate 32 1))])], w_out = []\<rparr>"

definition sample_entries :: "byte list \<Rightarrow> entry list" where
  "sample_entries c = [(IMG3_DATA_MAGIC, c, replicate 2000 0)]"

lemma zeros_no_marker: "find_marker (replicate n 0) i = None"
proof (induction "n - i" arbitrary: i)
  case 0
  then show ?case by (subst find_marker.simps) simp
next
  case (Suc k)
  then have "find_marker (replicate n 0) (i + 1) = None" by simp
  moreover have "le32 (replicate 4 0) = 0" by (simp add: le32_def be32_def eval_nat_numeral)
  moreover have "take 4 (drop i (replicate n (0 :: byte))) = replicate 4 0" if "i + 3 < n"
    using that by (simp add: min_absorb1)
  ultimately show ?case by (subst find_marker.simps) simp
qed

lemma zeros_not_archive: "find_marker (last_bytes (pre @ replicate 2000 0)) 0 = None"
  by (simp add: last_bytes_def zeros_no_marker)

lemma sample_mappable: "length bs < 2 ^ 31 \<Longrightarrow> mappable (sample_env keeps) (sample_world bs) ''k.img3'' bs"
  by (simp add: mappable_def sample_env_def sample_world_def)

lemma sample_img3_file:
  assumes "length c < 2 ^ 30"
  shows "img3_file (sample_env keeps) (sample_world (img3_bytes 0 0 (sample_entries c))) ''k.img3'' (sample_entries c) c"
proof -
  have len: "length (img3_bytes 0 0 (sample_entries c)) < 2 ^ 31"
    using assms by (simp add: length_img3_bytes entries_bytes_def entry_bytes_def sample_entries_def)
  have "img3_bytes 0 0 (sample_entries c) = (header_of IMG3_MAGIC (20 + length (entries_bytes (sample_entries c)))
      (length (entries_bytes (sample_entries c))) @ le32_bytes 0 @ le32_bytes 0 @ header_of IMG3_DATA_MAGIC (12 + length c + 2000) (length c)
      @ c) @ replicate 2000 0"
    by (simp add: img3_bytes_def entries_bytes_def entry_bytes_def sample_entries_def section_bytes_def)
  then have "find_marker (last_bytes (img3_bytes 0 0 (sample_entries c))) 0 = None" by (simp only: zeros_not_archive)
  moreover have "mappable (sample_env keeps) (sample_world (img3_bytes 0 0 (sample_entries c))) ''k.img3'' (img3_bytes 0 0 (sample_entries c))"
    by (rule sample_mappable [OF len])
  moreover have "\<forall>e \<in> set (sample_entries c). is_tag (fst e)" by (simp add: sample_entries_def is_tag_def)
  moreover have "List.find (\<lambda>e. fst e = IMG3_DATA_MAGIC) (sample_entries c) = Some (IMG3_DATA_MAGIC, c, replicate 2000 0)"
    by (simp add: sample_entries_def)
  moreover have "\<forall>n. e_malloc (sample_env keeps) n" by (simp add: sample_env_def)
  ultimately show ?thesis unfolding img3_file_def by blast
qed

lemma sample_key_stored: "key_stored (sample_env keeps) (sample_world bs) ''iPhone3,1'' ''4.3'' ''llb'' (replicate 32 1) (replicate 16 2)"
proof (rule key_stored_tables [of _ ref_tab])
  show "queries_ok (e_engine (sample_env keeps)) ref_tab" using ref_queries_ok by (simp add: sample_env_def)
  show "ref_tab (w_db (sample_world bs)) ''iPhone3,1'' = Some [(''4.3'', ''llb'') \<mapsto> (to_hex (replicate 16 2), to_hex (replicate 32 1))]"
    by (simp add: sample_world_def)
qed (simp_all add: sample_env_def ref_engine_def plain_def db_opens_def)

text \<open>A payload that does not look compressed.\<close>

lemma sample_payload: "32 \<le> length (replicate 48 (9 :: byte))" "length (replicate 48 (9 :: byte)) mod 16 = 0"
  "be32 (take 4 (replicate 48 9)) \<noteq> COMP_SIGNATURE" "be32 (take 4 (drop 4 (replicate 48 9))) \<noteq> LZSS_SIGNATURE"
proof -
  have "replicate 4 (9 :: byte) = [9, 9, 9, 9]" by code_simp
  then have "take 4 (replicate 48 (9 :: byte)) = [9, 9, 9, 9]" "take 4 (drop 4 (replicate 48 (9 :: byte))) = [9, 9, 9, 9]"
    by (simp_all add: min_absorb1)
  then show "be32 (take 4 (replicate 48 9)) \<noteq> COMP_SIGNATURE" "be32 (take 4 (drop 4 (replicate 48 9))) \<noteq> LZSS_SIGNATURE"
    by (simp_all only: be32_def) simp_all
qed simp_all

lemma sample_opened: "opened (sample_env keeps) w = w"
  by (simp add: opened_def sample_env_def ref_engine_def)

lemma sample_cipher: "evp_law (e_evp (sample_env keeps)) keeps"
  "encrypted (e_evp (sample_env keeps)) k v d = map (\<lambda>b. b + hd k) d"
  by (simp_all add: sample_env_def ref_evp_law ref_encrypted)

lemma sample_terminated: "terminated ''iPhone3,1''" "terminated ''4.3''"
  by (simp_all add: terminated_def)

lemma sample_writable: "writable (sample_env keeps) fn"
  by (simp add: writable_def sample_env_def)

text \<open>A payload of whole blocks that is not taken for a compressed one comes back as the cipher leaves it.\<close>

lemma DecryptIMG3File_recovers:
  assumes law: "evp_law (e_evp env) keeps" and f: "img3_file env w a es (encrypted (e_evp env) key iv p)"
    and k: "key_stored env w d v s key iv" and t: "terminated d" "terminated v"
    and wr: "writable env ''data_section.bin''" "writable env (decrypted_name a output)"
    and p: "32 \<le> length p" "length p mod 16 = 0" "be32 (take 4 p) \<noteq> COMP_SIGNATURE" "be32 (take 4 (drop 4 p)) \<noteq> LZSS_SIGNATURE"
  shows "\<exists>q. survives keeps p q \<and>
    DecryptIMG3File env (Some a) output (Some (d @ [NUL])) (Some (v @ [NUL])) (Some s) w = ret (0, (opened env w)\<lparr>w_fd := FD_ZERO,
      w_files := (w_files w)(''data_section.bin'' \<mapsto> encrypted (e_evp env) key iv p, decrypted_name a output \<mapsto> q)\<rparr>)"
proof -
  have ne: "p \<noteq> []" using p(1) by auto
  from DecryptIMG3File_ok [OF law f wr k t ne p(2)] obtain q where q: "survives keeps p q" "length p < 2 ^ 32"
    and D: "\<And>x. unpacks env q x \<Longrightarrow> x \<noteq> [] \<Longrightarrow> length x < 2 ^ 32 \<Longrightarrow>
      DecryptIMG3File env (Some a) output (Some (d @ [NUL])) (Some (v @ [NUL])) (Some s) w = ret (0, (opened env w)\<lparr>w_fd := FD_ZERO,
        w_files := (w_files w)(''data_section.bin'' \<mapsto> encrypted (e_evp env) key iv p, decrypted_name a output \<mapsto> x)\<rparr>)" by auto
  have lq: "length q = length p" using q(1) by (rule survives_length)
  have "take 8 q = take 8 p" using survives_take [OF q(1), of 8] p(1) by simp
  then have "take 4 (take 8 q) = take 4 (take 8 p)" "drop 4 (take 8 q) = drop 4 (take 8 p)" by simp_all
  then have "take 4 q = take 4 p" "take 4 (drop 4 q) = take 4 (drop 4 p)" by (simp_all add: drop_take)
  then have "unpacks env q q" using p lq by (intro unpacks_plain) simp_all
  moreover have "q \<noteq> []" "length q < 2 ^ 32" using lq p(1) q(2) by auto
  ultimately show ?thesis using D q(1) by blast
qed



lemma seq_not_ret: "(\<And>x. m = ret x \<Longrightarrow> k x \<noteq> ret y) \<Longrightarrow> seq m k \<noteq> ret y"
  by (auto simp: seq_eq_ret)

lemma leave_zip_ret: "leave_zip z r = ret r' \<Longrightarrow> z_fd z \<noteq> ClosedHandle \<and> r = r'"
  using destroy_closed by (auto simp: leave_zip_def seq_eq_ret)

lemma leave_files_ret: "leave_files z fi r = ret r' \<Longrightarrow> z_fd z \<noteq> ClosedHandle \<and> r = r'"
  by (auto simp: leave_files_def seq_eq_ret dest: leave_zip_ret)

lemma analyze_found: "analyze env a w = ret (True, z) \<Longrightarrow> z_fd z = ClosedHandle"
  unfolding analyze_def by (rule AnalyzeFile_closes)

lemma ExtractFiles_fd: "ExtractFiles sp a s z = ret (r, cmds, z') \<Longrightarrow> z_fd z' = z_fd z"
  by (auto simp: ExtractFiles_def seq_eq_ret split: option.splits)

lemma ExtractAllFiles_fd: "ExtractAllFiles sp a z = (r, cmds, z') \<Longrightarrow> z_fd z' = z_fd z"
  by (auto simp: ExtractAllFiles_def Let_def split: option.splits spawn_result.splits)

text \<open>Files other than the argument itself come from an archive, and its stream is closed.\<close>

lemma files_of_archive:
  assumes "files_of env a sec w = ret (fs, z, w')" "fs = NullList \<or> fs = Files [] \<or> fs \<noteq> NotAnalyzed \<and> fs \<noteq> Files [a]"
  shows "z_fd z = ClosedHandle"
proof -
  from assms(1) obtain found z1 where a: "analyze env a w = ret (found, z1)"
    by (auto simp: files_of_def seq_eq_ret)
  show ?thesis
  proof (cases found)
    case True
    with a have "z_fd z1 = ClosedHandle" using analyze_found by simp
    with True a assms(1) show ?thesis
      by (auto simp: files_of_def seq_eq_ret split: option.splits dest!: ExtractFiles_fd)
  next
    case False
    with a assms show ?thesis by (auto simp: files_of_def split: if_splits)
  qed
qed

lemma patch_file_fails: "patch_file env False a output p d v f fi w = ret r \<Longrightarrow> fst r = - 1"
  by (auto simp: patch_file_def fetch_section_def Let_def close_output_def close_patch_def seq_eq_ret split: if_splits option.splits prod.splits)

text \<open>C26: \<open>PatchKernelFile\<close> never succeeds, whatever it is given.\<close>

theorem PatchKernelFile_never_succeeds: "PatchKernelFile env archive output patch device version w \<noteq> ret (0, w')"
proof (cases "archive = None \<or> patch = None \<or> device = None \<or> version = None")
  case True
  then show ?thesis
    by (auto simp: PatchKernelFile_def split: option.splits dest!: leave_files_ret)
next
  case False
  then obtain a p d v where args: "archive = Some a" "patch = Some p" "device = Some d" "version = Some v" by auto
  show ?thesis
    unfolding PatchKernelFile_def args option.case prod.case
  proof (rule seq_not_ret)
    fix r assume "files_of env a (Some ''kernelcache'') w = ret r"
    then obtain fs z w1 where r: "r = (fs, z, w1)" "files_of env a (Some ''kernelcache'') w = ret (fs, z, w1)" by (cases r) auto
    have "seq (patch_files env False a output p d v ns new_file_iface w1) (\<lambda>(rc, fi, w). leave_files z fi (rc, w)) \<noteq> ret (0, w')"
      if "fs = Files ns" for ns
    proof (cases ns)
      case Nil
      then show ?thesis using files_of_archive [OF r(2)] that by (auto dest!: leave_files_ret)
    next
      case (Cons f fs')
      show ?thesis unfolding Cons
        by (rule seq_not_ret) (auto simp: seq_eq_ret dest!: patch_file_fails leave_files_ret split: prod.splits)
    qed
    then show "(case r of (fs, z, w) \<Rightarrow> case fs of
            NotAnalyzed \<Rightarrow> seq (close_patch NoHandle NoHandle (- 1, w)) (leave_files z new_file_iface)
          | NullList \<Rightarrow> seq (close_patch NoHandle NoHandle (- 1, w)) (leave_files z new_file_iface)
          | Files ns \<Rightarrow> seq (patch_files env False a output p d v ns new_file_iface w) (\<lambda>(rc, fi, w). leave_files z fi (rc, w)))
        \<noteq> ret (0, w')"
      by (simp add: r(1) close_patch_def fclose_def split: found_files.split)
  qed
qed

text \<open>C27: listing the files of an archive, or extracting some, never succeeds either: whenever the analysis does, its
  stream is closed twice.\<close>

theorem archive_operations_never_succeed:
  "ListArchiveFiles env archive w \<noteq> ret (0, w') \<and> ExtractFileFromArchive env archive sec w \<noteq> ret (0, w')"
proof (cases archive)
  case None
  then show ?thesis by (auto simp: ListArchiveFiles_def ExtractFileFromArchive_def dest!: leave_zip_ret)
next
  case (Some a)
  have list: "(case r of (found, z) \<Rightarrow> if \<not> found then leave_zip z (- 1, w)
         else seq (names_at (z_names z) (z_files z)) (\<lambda>ns. leave_zip z (0, w\<lparr>w_out := w_out w @ ns\<rparr>))) \<noteq> ret (0 :: int, w')"
    if "analyze env a w = ret r" for r
    using that by (cases r) (auto simp: seq_eq_ret dest!: leave_zip_ret analyze_found)
  have "seq (ExtractFiles (e_spawn env) (Some a) sec z) (\<lambda>(r, cmds, z). leave_zip z (0, unzipped env cmds w)) \<noteq> ret (0 :: int, w')"
    "(case ExtractAllFiles (e_spawn env) (Some a) z of (r, cmds, z) \<Rightarrow> leave_zip z (0, unzipped env cmds w)) \<noteq> ret (0 :: int, w')"
    if "z_fd z = ClosedHandle" for z
    using that by (auto simp: seq_eq_ret dest!: leave_zip_ret ExtractFiles_fd ExtractAllFiles_fd split: prod.split)
  then have "(case r of (found, z) \<Rightarrow> if \<not> found then leave_zip z (- 1, w)
         else if sec \<noteq> None then
           seq (ExtractFiles (e_spawn env) (Some a) sec z) (\<lambda>(r, cmds, z). leave_zip z (0, unzipped env cmds w))
         else (case ExtractAllFiles (e_spawn env) (Some a) z of (r, cmds, z) \<Rightarrow> leave_zip z (0, unzipped env cmds w))) \<noteq> ret (0 :: int, w')"
    if "analyze env a w = ret r" for r
    using that analyze_found [of env a w] by (cases r) (auto dest!: leave_zip_ret)
  with list Some show ?thesis
    by (simp add: ListArchiveFiles_def ExtractFileFromArchive_def seq_not_ret)
qed

subsection \<open>The other operations\<close>

lemma ParseFile_and_print:
  assumes "\<forall>e \<in> set es. is_tag (fst e)" "20 + length (entries_bytes es) < 2 ^ 32" "\<And>n. malloc_ok n"
  shows "\<exists>fi fi'. ParseFile malloc_ok (Some (img3_bytes shsh name es @ post)) (word_of_nat (20 + length (entries_bytes es)))
      new_file_iface = ret (0, fi) \<and>
    PrintSections fi = ret (''Found BASE section.'' # map (\<lambda>e. ''Found '' @ section_name (section_type (fst e)) @ '' section.'') es) \<and>
    delete_sections fi = ret fi'"
proof -
  obtain fi where fi: "ParseFile malloc_ok (Some (img3_bytes shsh name es @ post)) (word_of_nat (20 + length (entries_bytes es)))
      new_file_iface = ret (0, fi)" "fi_ok fi" "contents fi = base_section es # parsed_entries es 20"
    using ParseFile_entries [OF new_file_iface_ok(1) assms(1,2), where malloc_ok = malloc_ok] assms(3) by blast
  have lines: "section_lines h ps = ret (map (\<lambda>s. ''Found '' @ section_name (GetSectionType s) @ '' section.'') (map (\<lambda>p. the (h_obj h p)) ps))"
    if "heap_ok h" "set ps \<subseteq> live h" for h ps
    using that(2)
  proof (induction ps)
    case (Cons p ps)
    then obtain x where "h_obj h p = Some x" by (auto simp: live_def)
    moreover from this that(1) have "p \<noteq> 0" by (auto simp: heap_ok_def)
    ultimately show ?case using Cons by (simp add: h_get_def)
  qed simp
  have types: "map GetSectionType (parsed_entries es i) = map (\<lambda>e. section_type (fst e)) es" for i
    by (induction es i rule: parsed_entries.induct) (auto simp: GetSectionType_def parsed_section_def)
  have "PrintSections fi = ret (map (\<lambda>s. ''Found '' @ section_name (GetSectionType s) @ '' section.'') (contents fi))"
  proof -
    have "sections fi \<noteq> []" using fi(3) by (auto simp: contents_def)
    then show ?thesis using lines [of "fi_heap fi" "sections fi"] fi(2) by (simp only: PrintSections_def fi_ok_def contents_def if_False)
  qed
  also have "map (\<lambda>s. ''Found '' @ section_name (GetSectionType s) @ '' section.'') (contents fi) =
      map (\<lambda>k. ''Found '' @ section_name k @ '' section.'') (map GetSectionType (contents fi))" by simp
  also have "map GetSectionType (contents fi) = IMG3_BASE # map (\<lambda>e. section_type (fst e)) es"
    by (simp add: fi(3) types) (simp add: GetSectionType_def base_section_def section_type_def)
  finally have "PrintSections fi = ret (''Found BASE section.'' # map (\<lambda>e. ''Found '' @ section_name (section_type (fst e)) @ '' section.'') es)"
    by (simp add: section_name_def comp_def)
  with fi(1) delete_sections_ok [OF fi(2)] show ?thesis by blast
qed

text \<open>\<open>ParseIMG3File\<close> lists the types of the sections of a well-formed file in their order, changes no file and leaves no mapping open.\<close>

theorem ParseIMG3File_lists:
  assumes "mappable env w a (img3_bytes shsh name es)" "\<forall>e \<in> set es. is_tag (fst e)" "\<And>n. e_malloc env n"
  shows "ParseIMG3File env (Some a) w = ret (w\<lparr>w_fd := FD_ZERO, w_out := w_out w @
    ''Found BASE section.'' # map (\<lambda>e. ''Found '' @ section_name (section_type (fst e)) @ '' section.'') es\<rparr>)"
proof -
  have size: "20 + length (entries_bytes es) < 2 ^ 32" using assms(1) by (simp add: mappable_def length_img3_bytes)
  from MapFileToMemory_ok [OF assms(1)] obtain k ms where m: "MapFileToMemory env (Some a) w =
      (Some (img3_bytes shsh name es @ replicate k 0, word_of_nat (20 + length (entries_bytes es)), ms), w\<lparr>w_fd := FD_OPEN\<rparr>)" "ms \<noteq> 0"
    unfolding length_img3_bytes by blast
  from ParseFile_and_print [OF assms(2) size, where malloc_ok = "e_malloc env" and shsh = shsh and name = name and post = "replicate k 0"]
    assms(3) obtain fi fi' where
    "ParseFile (e_malloc env) (Some (img3_bytes shsh name es @ replicate k 0)) (word_of_nat (20 + length (entries_bytes es))) new_file_iface =
      ret (0, fi)"
    "PrintSections fi = ret (''Found BASE section.'' # map (\<lambda>e. ''Found '' @ section_name (section_type (fst e)) @ '' section.'') es)"
    "delete_sections fi = ret fi'" by blast
  with m show ?thesis by (simp add: ParseIMG3File_def Unmap_opened del: of_nat_add)
qed

theorem ParseIMG3File_lists_witness:
  "ParseIMG3File (sample_env False) (Some ''k.img3'') (sample_world (img3_bytes 0 0 [(IMG3_TYPE_MAGIC, [1, 2], []), (IMG3_DATA_MAGIC, [3], [0])])) =
    ret ((sample_world (img3_bytes 0 0 [(IMG3_TYPE_MAGIC, [1, 2], []), (IMG3_DATA_MAGIC, [3], [0])]))\<lparr>w_fd := FD_ZERO,
      w_out := [''Found BASE section.'', ''Found TYPE section.'', ''Found DATA section.'']\<rparr>)"
proof -
  let ?es = "[(IMG3_TYPE_MAGIC, [1, 2], []), (IMG3_DATA_MAGIC, [3], [0])] :: entry list"
  have "mappable (sample_env False) (sample_world (img3_bytes 0 0 ?es)) ''k.img3'' (img3_bytes 0 0 ?es)"
    by (rule sample_mappable) (simp add: length_img3_bytes entries_bytes_def entry_bytes_def)
  from ParseIMG3File_lists [OF this] show ?thesis
    by (simp add: is_tag_def plain_magics_def sample_env_def section_name_def section_type_def) (simp add: sample_world_def)
qed

text \<open>C31: a file that \<open>LzssCompress\<close> wrote is decompressed into the file with the suffix \<^verbatim>\<open>_decompressed\<close>.\<close>

theorem DecompressLZSSFile_recovers:
  assumes x: "384 \<le> length x" "length x < 2 ^ 31 - 192"
    and comp: "LzssCompress new_out new_sp junk err (Some x) (word_of_nat (length x)) True =
      ret \<lparr>lz_return = 0, lz_error = err, lz_out = Some (buf, n)\<rparr>"
    and map: "mappable env w a (take n buf)" and wr: "writable env (a @ ''_decompressed'')"
  shows "DecompressLZSSFile env (Some a) w = ret (0, w\<lparr>w_fd := FD_ZERO, w_files := (w_files w)(a @ ''_decompressed'' \<mapsto> x)\<rparr>)"
proof -
  from LzssCompress_readable [OF x, of new_out new_sp junk err] comp
  have n: "384 \<le> n" "n \<le> length buf" "n \<le> 2 * length x + 384" and sig: "be32 (take 4 buf) = COMP_SIGNATURE"
    and D: "\<And>new_out' junk' err' rest m. 384 \<le> m \<Longrightarrow> LzssDecompress new_out' junk' err' (Some (take n buf @ rest)) m True =
      ret \<lparr>lz_return = 0, lz_error = err', lz_out = Some (x, length x)\<rparr>"
    by (auto simp: ret_def)
  have l: "length (take n buf) = n" "unat (word_of_nat n :: u32) = n" using n x by (simp_all add: unat_small)
  from MapFileToMemory_ok [OF map] obtain k ms where m: "MapFileToMemory env (Some a) w =
      (Some (take n buf @ replicate k 0, word_of_nat n, ms), w\<lparr>w_fd := FD_OPEN\<rparr>)" "ms \<noteq> 0"
    unfolding l(1) by blast
  have "x \<noteq> []" using x by auto
  have "IsFileCompressed (Some (take n buf @ replicate k 0)) LZSS_NONE = ret (0, LZSS_NONE)"
    using n sig by (subst IsFileCompressed_ok) simp_all
  moreover have "WriteDataToFile env (a @ ''_decompressed'') (Buf x) (word_of_nat (length x)) (w\<lparr>w_fd := FD_OPEN\<rparr>) =
      ret (0, w\<lparr>w_fd := FD_OPEN, w_files := (w_files w)(a @ ''_decompressed'' \<mapsto> x)\<rparr>)"
    using WriteDataToFile_ok [OF wr, of x "w\<lparr>w_fd := FD_OPEN\<rparr>"] x \<open>x \<noteq> []\<close> by simp
  ultimately show ?thesis
    using D [OF n(1), of "e_bytes env" "e_window env" LZSS_NONE "replicate k 0"] m l(2) by (simp add: DecompressLZSSFile_def Unmap_opened)
qed

theorem DecompressLZSSFile_recovers_witness:
  "\<exists>buf n w'. LzssCompress (\<lambda>n. 0) blank_state (\<lambda>i. 0) LZSS_NONE (Some (replicate 400 7)) 400 True =
      ret \<lparr>lz_return = 0, lz_error = LZSS_NONE, lz_out = Some (buf, n)\<rparr> \<and>
    DecompressLZSSFile (sample_env False) (Some ''k.img3'') (sample_world (take n buf)) = ret (0, w') \<and>
    w_files w' ''k.img3_decompressed'' = Some (replicate 400 7)"
proof -
  let ?x = "replicate 400 7 :: byte list"
  have x: "384 \<le> length ?x" "length ?x < 2 ^ 31 - 192" by simp_all
  from LzssCompress_readable [OF x, of "\<lambda>n. 0" blank_state "\<lambda>i. 0" LZSS_NONE] obtain buf n where
    comp: "LzssCompress (\<lambda>n. 0) blank_state (\<lambda>i. 0) LZSS_NONE (Some ?x) (word_of_nat (length ?x)) True =
      ret \<lparr>lz_return = 0, lz_error = LZSS_NONE, lz_out = Some (buf, n)\<rparr>" and n: "n \<le> length buf" "n \<le> 2 * length ?x + 384" by blast
  have "mappable (sample_env False) (sample_world (take n buf)) ''k.img3'' (take n buf)" using n by (intro sample_mappable) simp
  from DecompressLZSSFile_recovers [OF x comp this sample_writable] show ?thesis
    using comp by (intro exI [of _ buf] exI [of _ n]) simp
qed

text \<open>A file that is not compressed makes the operation return 0 all the same, without writing anything.\<close>

theorem DecompressLZSSFile_silent:
  assumes map: "mappable env w a bs" and bs: "8 \<le> length bs" "be32 (take 4 bs) \<noteq> COMP_SIGNATURE" "be32 (take 4 (drop 4 bs)) \<noteq> LZSS_SIGNATURE"
  shows "DecompressLZSSFile env (Some a) w = ret (0, w\<lparr>w_fd := FD_ZERO\<rparr>)"
proof -
  from MapFileToMemory_ok [OF map] obtain k ms where m: "MapFileToMemory env (Some a) w =
      (Some (bs @ replicate k 0, word_of_nat (length bs), ms), w\<lparr>w_fd := FD_OPEN\<rparr>)" "ms \<noteq> 0" by blast
  have "IsFileCompressed (Some (bs @ replicate k 0)) LZSS_NONE = ret (- 1, LZSS_FILE_NOT_A_LZSS_FILE)"
    using bs by (subst IsFileCompressed_ok) simp_all
  with m show ?thesis by (simp add: DecompressLZSSFile_def WriteDataToFile_def Unmap_opened)
qed

theorem DecompressLZSSFile_silent_witness:
  "DecompressLZSSFile (sample_env False) (Some ''k.img3'') (sample_world [1, 2, 3, 4, 5, 6, 7, 8, 9]) =
    ret (0, (sample_world [1, 2, 3, 4, 5, 6, 7, 8, 9])\<lparr>w_fd := FD_ZERO\<rparr>)"
  using DecompressLZSSFile_silent [OF sample_mappable, of "[1, 2, 3, 4, 5, 6, 7, 8, 9]"] by (simp add: be32_def)

text \<open>An update of the data base that returns 0 has closed the standard input of the program.\<close>

theorem UpdateIMG3Database_closes_stdin:
  assumes "UpdateIMG3Database env a d v b w = ret (0, w')"
  shows "\<not> w_stdin w' \<and> w_files w' = w_files w"
proof -
  obtain m w1 where map: "MapFileToMemory env a w = (m, w1)" by force
  have files: "w_files w1 = w_files w"
    using map by (auto simp: MapFileToMemory_def close_fd_def Let_def split: option.splits if_splits descriptor.splits)
  have close: "w_files (close_fd (UnmapFileFromMemory ms w2)) = w_files w2 \<and> \<not> w_stdin (close_fd (UnmapFileFromMemory ms w2))"
    if "w_fd w2 = FD_OPEN" "ms \<noteq> 0" for ms and w2 :: "'a world"
    using that by (simp add: UnmapFileFromMemory_def close_fd_def)
  have opened: "w_fd w1 = FD_OPEN \<and> snd (snd mm) \<noteq> 0" if "m = Some mm" for mm
    using map that by (auto simp: MapFileToMemory_def Let_def split: option.splits if_splits)
  show ?thesis
    using assms map files opened close
    by (auto simp: UpdateIMG3Database_def Let_def seq_eq_ret split: option.splits if_splits prod.splits)
qed

theorem UpdateIMG3Database_closes_stdin_witness:
  "\<exists>w'. UpdateIMG3Database (sample_env False) (Some ''k.img3'') (Some ''iPhone3,1'') (Some ''4.3'') (Some ''8F190'') (sample_world [104, 105, 0]) = ret (0, w') \<and>
    \<not> w_stdin w'"
proof -
  have "mappable (sample_env False) (sample_world [104, 105, 0]) ''k.img3'' [104, 105, 0]" by (rule sample_mappable) simp
  from MapFileToMemory_ok [OF this] obtain k ms where m: "MapFileToMemory (sample_env False) (Some ''k.img3'') (sample_world [104, 105, 0]) =
      (Some ([104, 105, 0] @ replicate k 0, word_of_nat (length [104, 105, 0 :: byte]), ms), (sample_world [104, 105, 0])\<lparr>w_fd := FD_OPEN\<rparr>)" by blast
  let ?mem = "string_of_bytes ([104, 105, 0] @ replicate k 0)"
  have mem: "?mem = ''hi'' @ NUL # string_of_bytes (replicate k 0)"
    by (simp add: string_of_bytes_def) code_simp
  have "scan_tags ?mem 3 0 hp = ret hp" for hp
    unfolding mem by (subst scan_tags.simps) (simp add: strchr.simps)
  moreover have "combine_all hp = ret (0, hp)" if "openingTags hp = []" for hp
    using that by (subst combine_all.simps) (simp add: CombineTags_def)
  ultimately have parse: "ParseHtmlTags junk ?mem 3 hp = ret (True, hp)"
    if "openingTags hp = []" "completeTags hp = []" "sortedTags hp = []" for junk hp
    using that by (simp add: ParseHtmlTags_def RetrieveDataBetweenTags_def SortTagsById_def ExtractDecryptionInfo_def
      GetAllSortedTagsByName_def del: fold_simps)
  have "UpdateDatabase (e_engine (sample_env False)) (new_sqlite st) d b v [] = ret (0, \<lparr>connected = True, store = st\<rparr>)" for st d b v
    by (simp add: UpdateDatabase_def ConnectToDatabase_def sample_env_def ref_engine_def new_sqlite_def)
  then have "\<exists>w'. UpdateIMG3Database (sample_env False) (Some ''k.img3'') (Some ''iPhone3,1'') (Some ''4.3'') (Some ''8F190'')
      (sample_world [104, 105, 0]) = ret (0, w')"
    unfolding UpdateIMG3Database_def m by (simp add: parse [simplified] AddFilter_def new_html_parser_def destroy_html_parser_def)
  then show ?thesis using UpdateIMG3Database_closes_stdin by blast
qed

text \<open>The bounds check on patches lets an address through that is up to the length of the data: with less than four bytes left,
  the patch is written past the end. Any patch before that replaces just its four bytes.\<close>

theorem apply_patches_bounds:
  assumes "scan_patch line = Some (addr, val)" "unat len = length dat"
  shows "(unat addr + 4 \<le> length dat \<longrightarrow> apply_patches len [line] dat =
      ret (take (unat addr) dat @ le32_bytes val @ drop (unat addr + 4) dat)) \<and>
    (length dat < unat addr + 4 \<longrightarrow> unat addr \<le> length dat \<longrightarrow> apply_patches len [line] dat = crash OutOfBounds) \<and>
    (length dat < unat addr \<longrightarrow> apply_patches len [line] dat = ret dat)"
  using assms by (auto simp: word_less_nat_alt blit_def)

theorem apply_patches_bounds_witness:
  "apply_patches 8 [''6 1020304''] (replicate 8 0) = crash OutOfBounds"
proof -
  have "scan_patch ''6 1020304'' = Some (6, 0x01020304)"
    by (simp add: scan_patch_def scan_hex_def scan_magnitude_def hex_value_def is_space_def)
  then show ?thesis using apply_patches_bounds [of "''6 1020304''" 6 "0x01020304" 8 "replicate 8 0"] by simp
qed

end
