(* ===== verification/Main_Program.thy ===== *)
theory Main_Program imports Arguments Pipeline begin

text \<open>
  \<open>main\<close> of IMG3_Main.cpp: the command line is parsed and the operation is run on the globals; and what the program as a whole does on
  a command line.
\<close>

subsection \<open>The program\<close>

text \<open>The results of the operations are not looked at.\<close>

definition run_operation :: "'s env \<Rightarrow> options \<Rightarrow> 's world \<Rightarrow> 's world exec" where
  "run_operation env opts w = (case operation opts of
     DECRYPT_IMG3_FILE \<Rightarrow>
       seq (DecryptIMG3File env (archiveFileName opts) None (deviceName opts) (deviceVersion opts) (sectionName opts) w) (\<lambda>(r, w). ret w)
   | LIST_ARCHIVE_FILES \<Rightarrow> seq (ListArchiveFiles env (archiveFileName opts) w) (\<lambda>(r, w). ret w)
   | EXTRACT_FILE \<Rightarrow> seq (ExtractFileFromArchive env (archiveFileName opts) (sectionName opts) w) (\<lambda>(r, w). ret w)
   | UPDATE_IMG3_DATABASE \<Rightarrow>
       seq (cstr (the (deviceName opts)) 0) (\<lambda>device. seq (cstr (the (deviceVersion opts)) 0) (\<lambda>version.
       seq (UpdateIMG3Database env (archiveFileName opts) (Some device) (Some version) (deviceBuild opts) w) (\<lambda>(r, w). ret w)))
   | PATCH_KERNEL \<Rightarrow>
       seq (PatchKernelFile env (archiveFileName opts) None (patchFileName opts) (deviceName opts) (deviceVersion opts) w) (\<lambda>(r, w). ret w)
   | PARSE_FILE \<Rightarrow> ParseIMG3File env (archiveFileName opts) w
   | DECOMPRESS_FILE \<Rightarrow> seq (DecompressLZSSFile env (archiveFileName opts) w) (\<lambda>(r, w). ret w))"

text \<open>The exit code and the state; \<open>input\<close> is the standard input.\<close>

definition main_program :: "'s env \<Rightarrow> string \<Rightarrow> string list \<Rightarrow> 's world \<Rightarrow> (int \<times> 's world) exec" where
  "main_program env input argv w =
     seq (ParseArguments (e_chars env) input argv) (\<lambda>(rc, opts, help).
       let w = w\<lparr>w_out := w_out w @ help\<rparr> in
       if rc \<noteq> 0 then ret (1, w) else seq (run_operation env opts w) (\<lambda>w. ret (0, w)))"

subsection \<open>Command lines\<close>

definition option_args :: "(char \<times> string) list \<Rightarrow> string list" where
  "option_args kvs = concat (map (\<lambda>(l, x). [[CHR ''-'', l], x]) kvs)"

lemma parse_options_pairs:
  assumes "\<forall>(l, x) \<in> set kvs. l \<in> set known" "length pre + 2 * length kvs \<le> limit"
  shows "parse_options strict limit known (pre @ option_args kvs @ [file]) (length pre) opts =
    (True, fold (\<lambda>(l, x). store_option l x) kvs opts)"
  using assms
proof (induction kvs arbitrary: pre opts)
  case Nil
  then show ?case by (subst parse_options.simps) (simp add: option_args_def)
next
  case (Cons kv kvs)
  obtain l x where kv: "kv = (l, x)" by force
  let ?argv = "pre @ option_args (kv # kvs) @ [file]"
  have argv: "?argv = (pre @ [[CHR ''-'', l], x]) @ option_args kvs @ [file]" by (simp add: option_args_def kv)
  have "?argv ! length pre = [CHR ''-'', l]" "?argv ! (length pre + 1) = x"
    by (simp_all add: option_args_def kv nth_append)
  moreover have "option_letter known [CHR ''-'', l] = Some l" using Cons.prems(1) by (simp add: option_letter_def kv)
  ultimately have "parse_options strict limit known ?argv (length pre) opts =
      parse_options strict limit known ?argv (length pre + 2) (store_option l x opts)"
    using Cons.prems(2) by (subst parse_options.simps) (simp add: option_args_def kv)
  also have "\<dots> = parse_options strict limit known ((pre @ [[CHR ''-'', l], x]) @ option_args kvs @ [file])
      (length (pre @ [[CHR ''-'', l], x])) (store_option l x opts)"
    by (simp only: argv) simp
  also have "\<dots> = (True, fold (\<lambda>(l, x). store_option l x) kvs (store_option l x opts))"
    using Cons.prems by (intro Cons.IH) auto
  finally show ?case by (simp add: kv)
qed

text \<open>Options that are given as pairs before the last argument are all taken over, later ones over earlier ones, whatever their
  values look like (also a value like \<^verbatim>\<open>-s\<close>), as long as the command has room for them.\<close>

theorem options_taken_over:
  assumes "\<forall>(l, x) \<in> set kvs. l \<in> set known" "2 + 2 * length kvs \<le> limit"
  shows "parse_options strict limit known (prog # cmd # option_args kvs @ [file]) 2 opts =
    (True, fold (\<lambda>(l, x). store_option l x) kvs opts)"
  using parse_options_pairs [where pre = "[prog, cmd]", OF assms(1)] assms(2) by (simp add: numeral_2_eq_2)

theorem options_taken_over_witness:
  "parse_options True 8 ''dbv'' [''img3'', ''update'', ''-d'', ''iPhone'', ''-v'', ''-d'', ''page''] 2 (no_options UPDATE_IMG3_DATABASE) =
    (True, (no_options UPDATE_IMG3_DATABASE)\<lparr>deviceName := Some (''iPhone'' @ [NUL]), deviceVersion := Some (''-d'' @ [NUL])\<rparr>)"
  using options_taken_over [of "[(CHR ''d'', ''iPhone''), (CHR ''v'', ''-d'')]" "''dbv''" 8 True "''img3''" "''update''" "''page''"
      "no_options UPDATE_IMG3_DATABASE"]
  by (simp add: option_args_def store_option_def strncpy_def no_options_def)

lemma main_decrypt_runs:
  "main_program env input [prog, ''decrypt'', ''-d'', d, ''-v'', v, ''-s'', s, a] w =
    seq (DecryptIMG3File env (Some a) None (Some (d @ [NUL])) (Some (v @ [NUL])) (Some (map lower s)) w) (\<lambda>(r, w). ret (0, w))"
proof -
  let ?argv = "[prog, ''decrypt'', ''-d'', d, ''-v'', v, ''-s'', s, a]"
  let ?opts = "(no_options DECRYPT_IMG3_FILE)\<lparr>deviceName := Some (d @ [NUL]), deviceVersion := Some (v @ [NUL]),
    sectionName := Some (map lower s), archiveFileName := Some a\<rparr>"
  have "parse_options True (length ?argv) ''dbvs'' ?argv 2 (no_options DECRYPT_IMG3_FILE) =
    (True, fold (\<lambda>(l, x). store_option l x) [(CHR ''d'', d), (CHR ''v'', v), (CHR ''s'', s)] (no_options DECRYPT_IMG3_FILE))"
    using parse_options_pairs [where pre = "[prog, ''decrypt'']" and kvs = "[(CHR ''d'', d), (CHR ''v'', v), (CHR ''s'', s)]"
        and known = "''dbvs''" and limit = "length ?argv"] by (simp add: option_args_def numeral_2_eq_2)
  then have "ParseArguments (e_chars env) input ?argv = ret (0, ?opts, [])"
    by (simp add: ParseArguments_def parse_decrypt_def Let_def store_option_def strncpy_exact no_options_def complete_names_def accept_def)
  then show ?thesis by (simp add: main_program_def run_operation_def no_options_def seq_seq split_def)
qed

lemma main_update_runs:
  assumes "terminated d" "terminated v"
  shows "main_program env input [prog, ''update'', ''-d'', d, ''-v'', v, ''-b'', b, pg] w =
    seq (UpdateIMG3Database env (Some pg) (Some d) (Some v) (Some b) w) (\<lambda>(r, w). ret (0, w))"
proof -
  let ?argv = "[prog, ''update'', ''-d'', d, ''-v'', v, ''-b'', b, pg]"
  let ?opts = "(no_options UPDATE_IMG3_DATABASE)\<lparr>deviceName := Some (d @ [NUL]), deviceVersion := Some (v @ [NUL]),
    deviceBuild := Some b, archiveFileName := Some pg\<rparr>"
  have "parse_options True 8 ''dbv'' ?argv 2 (no_options UPDATE_IMG3_DATABASE) =
    (True, fold (\<lambda>(l, x). store_option l x) [(CHR ''d'', d), (CHR ''v'', v), (CHR ''b'', b)] (no_options UPDATE_IMG3_DATABASE))"
    using parse_options_pairs [where pre = "[prog, ''update'']" and kvs = "[(CHR ''d'', d), (CHR ''v'', v), (CHR ''b'', b)]"
        and known = "''dbv''" and limit = 8] by (simp add: option_args_def numeral_2_eq_2)
  then have "ParseArguments (e_chars env) input ?argv = ret (0, ?opts, [])"
    by (simp add: ParseArguments_def parse_update_def Let_def store_option_def strncpy_exact no_options_def accept_def)
  then show ?thesis
    by (simp add: main_program_def run_operation_def no_options_def seq_seq split_def cstr_terminated [OF assms(1)] cstr_terminated [OF assms(2)])
qed



text \<open>C34: when the version is taken from the name of the archive, its block is left without a terminator, and the name of the device is
  cut to the length of the version.\<close>

theorem version_truncates_device:
  assumes a: "archive = pre @ CHR ''_'' # ver @ CHR ''_'' # post" "CHR ''_'' \<notin> set pre" "CHR ''_'' \<notin> set ver" "NUL \<notin> set pre" "NUL \<notin> set ver"
    and d: "deviceName opts = Some (dev @ [c])" "terminated dev" "length ver < length dev"
  shows "\<exists>opts'. version_from_name junk archive opts = ret (True, opts') \<and> cstr (the (deviceName opts')) 0 = ret (take (length ver) dev) \<and>
    deviceVersion opts' = Some (ver @ [junk 0])"
proof -
  let ?m = "archive @ [NUL]"
  have "strchr ?m 0 CHR ''_'' = ret (Some (0 + length pre))"
    using a by (intro strchr_found) (auto simp: nth_append in_set_conv_nth)
  moreover have "strchr ?m (length pre + 1) CHR ''_'' = ret (Some (length pre + 1 + length ver))"
    using a by (intro strchr_found) (auto simp: nth_append in_set_conv_nth)
  moreover have "(dev @ [c])[length ver := NUL] = take (length ver) dev @ NUL # drop (length ver + 1) (dev @ [c])"
    using d(3) by (simp add: upd_conv_take_nth_drop)
  moreover have "terminated (take (length ver) dev)" using d(2) by (auto simp: terminated_def dest: in_set_takeD)
  ultimately show ?thesis
    using d a(1) by (auto simp: version_from_name_def Let_def cstr_terminated)
qed

theorem version_truncates_device_witness:
  "\<exists>opts'. version_from_name (\<lambda>n. CHR ''x'') ''iPhone3,1_4.3_8F190_Restore.ipsw''
      ((no_options DECRYPT_IMG3_FILE)\<lparr>deviceName := Some (''iPhone_4'' @ [CHR ''x''])\<rparr>) = ret (True, opts') \<and>
    cstr (the (deviceName opts')) 0 = ret ''iPh'' \<and> deviceVersion opts' = Some ''4.3x''"
  using version_truncates_device [of "''iPhone3,1_4.3_8F190_Restore.ipsw''" "''iPhone3,1''" "''4.3''" "''8F190_Restore.ipsw''"
      "(no_options DECRYPT_IMG3_FILE)\<lparr>deviceName := Some (''iPhone_4'' @ [CHR ''x''])\<rparr>" "''iPhone_4''" "CHR ''x''" "\<lambda>n. CHR ''x''"]
  by (simp add: terminated_def)

text \<open>Once the arguments have been accepted the exit code is 0, however the operation ends.\<close>

theorem main_exit_code:
  assumes "ParseArguments (e_chars env) input argv = ret (0, opts, help)" "main_program env input argv w = ret (code, w')"
  shows "code = 0"
  using assms by (auto simp: main_program_def Let_def seq_eq_ret)

theorem main_exit_code_witness:
  "\<exists>w'. main_program (sample_env False) [] [''img3'', ''decompress'', ''missing''] (sample_world []) = ret (0, w') \<and>
    DecompressLZSSFile (sample_env False) (Some ''missing'') (sample_world []) = ret (- 1, w')"
proof -
  have p: "ParseArguments (e_chars (sample_env False)) [] [''img3'', ''decompress'', ''missing''] =
      ret (0, (no_options DECOMPRESS_FILE)\<lparr>archiveFileName := Some ''missing''\<rparr>, [])"
    by (simp add: ParseArguments_def parse_one_file_def accept_def)
  have d: "\<exists>w'. DecompressLZSSFile (sample_env False) (Some ''missing'') (sample_world []) = ret (- 1, w')"
    by (simp add: DecompressLZSSFile_def MapFileToMemory_def sample_world_def)
  then obtain w' where d: "DecompressLZSSFile (sample_env False) (Some ''missing'') (sample_world []) = ret (- 1, w')" by blast
  then have "\<exists>code. main_program (sample_env False) [] [''img3'', ''decompress'', ''missing''] (sample_world []) = ret (code, w')"
    by (simp add: main_program_def p run_operation_def no_options_def)
  then show ?thesis using main_exit_code [OF p] d by blast
qed

text \<open>The help text does not describe the program: the command \<^verbatim>\<open>dec\<close> it lists is refused, with that same text; \<^verbatim>\<open>-h\<close> behind
  \<^verbatim>\<open>extract\<close> is taken for the name of an archive, and behind \<^verbatim>\<open>decrypt\<close> it is refused without any text.\<close>

theorem usage_not_followed:
  "PrintUsage prog None ! 2 = ''extract'' @ TAB @ TAB @ ''list'' @ TAB @ TAB @ ''dec'' @ TAB @ TAB @ ''update'' @ TAB @ TAB @ ''patch'' @ NL @ NL \<and>
    (\<exists>opts. ParseArguments junk input (prog # ''dec'' # args) = ret (- 1, opts, PrintUsage prog None)) \<and>
    ParseArguments junk input [prog, ''extract'', ''-h''] = ret (0, (no_options EXTRACT_FILE)\<lparr>archiveFileName := Some ''-h''\<rparr>, []) \<and>
    (\<exists>opts. ParseArguments junk input [prog, ''decrypt'', ''-h''] = ret (- 1, opts, []))"
proof -
  have po: "parse_options strict limit known [prog, cmd, ''-h''] 2 opts = (True, opts)" for strict limit known cmd opts
    by (subst parse_options.simps) simp
  have s: "strchr [CHR ''-'', CHR ''h'', NUL] 0 CHR '','' = ret None" by (simp add: strchr.simps)
  show ?thesis
    by (simp add: PrintUsage_def usage_general_def ParseArguments_def refuse_def accept_def parse_extract_def parse_decrypt_def po
      complete_names_def device_from_name_def no_options_def s Let_def)
qed

end
