(* ===== verification/Html_Scan.thy ===== *)
theory Html_Scan imports Html_Parser begin

text \<open>
  What \<open>ParseHtmlTags\<close> makes of a whole page, given as a list of its parts: the scan collects the tags, the pairing finds the
  elements, and the lists of keys are read with the heading before them.
\<close>

subsection \<open>Pages\<close>

datatype item = Plain string | Comment string | Opening string "(string \<times> string) list" | Closing string

fun item_text :: "item \<Rightarrow> string" where
  "item_text (Plain t) = t"
| "item_text (Comment t) = ''<!--'' @ t @ ''-->''"
| "item_text (Opening n as) = CHR ''<'' # n @ attrs_text as @ ''>''"
| "item_text (Closing n) = ''</'' @ n @ ''>''"

definition page_text :: "item list \<Rightarrow> string" where
  "page_text its = concat (map item_text its)"

lemma page_text_simps [simp]: "page_text [] = []" "page_text (it # its) = item_text it @ page_text its"
  "page_text (its @ its') = page_text its @ page_text its'"
  by (simp_all add: page_text_def)

definition tag_name :: "string \<Rightarrow> bool" where
  "tag_name n \<longleftrightarrow> n \<noteq> [] \<and> set n \<inter> {CHR ''<'', CHR ''>'', CHR '' '', CHR ''/'', NUL} = {} \<and> take 3 n \<noteq> ''!--'' \<and> length n \<le> 128"

definition attr_ok :: "string \<times> string \<Rightarrow> bool" where
  "attr_ok a \<longleftrightarrow> name_ok (fst a) \<and> value_ok (snd a) \<and> CHR ''>'' \<notin> set (fst a) \<and> CHR ''>'' \<notin> set (snd a)"

fun item_ok :: "item \<Rightarrow> bool" where
  "item_ok (Plain t) = (set t \<inter> {CHR ''<'', NUL} = {})"
| "item_ok (Comment t) = (set t \<inter> {CHR ''<'', CHR ''>'', NUL} = {})"
| "item_ok (Opening n as) = (tag_name n \<and> list_all attr_ok as \<and> length (item_text (Opening n as)) \<le> 1028)"
| "item_ok (Closing n) = tag_name n"

subsection \<open>The tags a scan collects\<close>

definition opening_tag :: "nat \<Rightarrow> string \<Rightarrow> (string \<times> string) list \<Rightarrow> html_tag" where
  "opening_tag a n as = new_tag\<lparr>tag := Some (n @ [NUL]), tagAddress := Some (a + 1),
     attrs := (case as of [] \<Rightarrow> [] | x # xs \<Rightarrow> blocks x # map (blocks \<circ> spaced) xs)\<rparr>"

definition closing_tag :: "nat \<Rightarrow> string \<Rightarrow> html_tag" where
  "closing_tag a n = new_tag\<lparr>tag := Some (n @ [NUL]), tagAddress := Some (a + 2)\<rparr>"

lemma add_html_node_eq: "add_html_node t ty hp = (h_next (hp_heap hp), hp\<lparr>numberOfTags := numberOfTags hp + 1,
    hp_heap := snd (h_new (hp_heap hp) \<lparr>node_tag = t\<lparr>tag_type := ty\<rparr>, node_id = numberOfTags hp\<rparr>)\<rparr>)"
  by (simp add: add_html_node_def h_new_def SetType_def)

definition push_opening :: "html_tag \<Rightarrow> html_parser \<Rightarrow> html_parser" where
  "push_opening t hp = (snd (add_html_node t OPENING_TAG hp))\<lparr>openingTags := openingTags hp @ [h_next (hp_heap hp)]\<rparr>"

definition push_closing :: "html_tag \<Rightarrow> html_parser \<Rightarrow> html_parser" where
  "push_closing t hp = (snd (add_html_node t CLOSING_TAG hp))\<lparr>closingTags := closingTags hp @ [h_next (hp_heap hp)]\<rparr>"

fun collect :: "string list \<Rightarrow> nat \<Rightarrow> item list \<Rightarrow> html_parser \<Rightarrow> html_parser" where
  "collect fs a [] hp = hp"
| "collect fs a (Plain t # its) hp = collect fs (a + length t) its hp"
| "collect fs a (Comment t # its) hp = collect fs (a + length (item_text (Comment t))) its hp"
| "collect fs a (Opening n as # its) hp = collect fs (a + length (item_text (Opening n as))) its
     (if n \<in> set fs then push_opening (opening_tag a n as) hp else hp)"
| "collect fs a (Closing n # its) hp = collect fs (a + length (item_text (Closing n))) its
     (if n \<in> set fs then push_closing (closing_tag a n) hp else hp)"

definition filters_set :: "string list \<Rightarrow> html_parser \<Rightarrow> bool" where
  "filters_set fs hp \<longleftrightarrow> tagFilters hp = map (\<lambda>f. f @ [NUL]) fs \<and> list_all terminated fs"

lemma filters_set_push [simp]: "filters_set fs (push_opening t hp) = filters_set fs hp"
  "filters_set fs (push_closing t hp) = filters_set fs hp"
  by (simp_all add: filters_set_def push_opening_def push_closing_def add_html_node_eq)

lemma tag_in_filters_ok:
  "list_all terminated fs \<Longrightarrow> terminated n \<Longrightarrow> tag_in_filters (map (\<lambda>f. f @ [NUL]) fs) (n @ [NUL]) = ret (n \<in> set fs)"
proof (induction fs)
  case (Cons f fs)
  then show ?case using str_equal_terminated [of f n "[]" "[]"] by auto
qed simp

lemma interest:
  "filters_set fs hp \<Longrightarrow> tag_name n \<Longrightarrow> TagIsOfInterest hp (n @ [NUL]) = ret (n \<in> set fs)"
  by (auto simp: TagIsOfInterest_def filters_set_def tag_name_def terminated_def intro: tag_in_filters_ok)

subsection \<open>One tag\<close>

lemma strchr_none: "c \<notin> set n \<Longrightarrow> NUL \<notin> set n \<Longrightarrow> c \<noteq> NUL \<Longrightarrow> strchr (pre @ n @ NUL # post) (length pre) c = ret None"
proof (induction n arbitrary: pre)
  case Nil
  then show ?case by (subst strchr.simps) (simp add: nth_append)
next
  case (Cons x n)
  from Cons.IH [of "pre @ [x]"] Cons.prems show ?case by (subst strchr.simps) (auto simp: nth_append)
qed

lemma strchr_over:
  "c \<notin> set n \<Longrightarrow> NUL \<notin> set n \<Longrightarrow> strchr (pre @ n @ post) (length pre) c = strchr (pre @ n @ post) (length pre + length n) c"
proof (induction n arbitrary: pre)
  case (Cons x n)
  from Cons.IH [of "pre @ [x]"] Cons.prems show ?case by (subst strchr.simps) (auto simp: nth_append)
qed simp

text \<open>A search that does not find the character in the first part of a terminated block ends behind it, or in vain.\<close>

lemma strchr_beyond:
  assumes "c \<notin> set n" "NUL \<notin> set n" "NUL \<in> set post"
  shows "\<exists>r. strchr (pre @ n @ post) (length pre) c = ret r \<and> (\<forall>q. r = Some q \<longrightarrow> length pre + length n \<le> q)"
proof -
  let ?mem = "pre @ n @ post"
  have "NUL \<in> set (drop (length pre + length n) ?mem)" using assms(3) by simp
  from strchr_cases [OF this, of c] show ?thesis
    unfolding strchr_over [OF assms(1,2)] by auto
qed

lemma SetValue_name: "tag_name n \<Longrightarrow> SetValue (pre @ n @ post) (Some (length pre)) (length n) t =
    ret (0, t\<lparr>tag := Some (n @ [NUL]), tagAddress := Some (length pre)\<rparr>)"
  by (simp add: SetValue_def tag_name_def)

lemma attrs_text_chars:
  assumes "list_all attr_ok as" shows "CHR ''>'' \<notin> set (attrs_text as)"
  using assms by (induction as) (auto simp: attr_text_def attr_ok_def)

lemma AddClosingTag_ok:
  assumes n: "tag_name n" and f: "filters_set fs hp"
  shows "AddClosingTag (pre @ item_text (Closing n) @ post) (length pre) hp =
    ret (if n \<in> set fs then push_closing (closing_tag (length pre) n) hp else hp)"
proof -
  let ?mem = "(pre @ ''</'') @ n @ CHR ''>'' # post"
  have mem: "pre @ item_text (Closing n) @ post = ?mem" by simp
  have e: "strchr ?mem (length (pre @ ''</'')) CHR ''>'' = ret (Some (length (pre @ ''</'') + length n))"
    using n by (intro strchr_skip) (auto simp: tag_name_def)
  have s: "slice ?mem (length (pre @ ''</'')) (length n) = ret n" by simp
  have v: "SetValue ?mem (Some (length (pre @ ''</''))) (length n) new_tag =
      ret (0, new_tag\<lparr>tag := Some (n @ [NUL]), tagAddress := Some (length (pre @ ''</''))\<rparr>)" by (rule SetValue_name [OF n])
  have l: "length n \<le> 128" using n by (simp add: tag_name_def)
  have b: "length (pre @ ''</'') = length pre + 2" by simp
  show ?thesis
    unfolding mem using e s v l interest [OF f n]
    by (simp add: AddClosingTag_def Let_def b closing_tag_def push_closing_def add_html_node_eq del: append_assoc append.simps(2))
qed

lemma attrs_text_NUL:
  assumes "list_all attr_ok as" shows "NUL \<notin> set (attrs_text as)"
  using assms by (induction as) (auto simp: attr_text_def attr_ok_def name_ok_def value_ok_def)

lemma attrs_text_last: "xs \<noteq> [] \<Longrightarrow> \<exists>ys. attrs_text xs = ys @ [CHR 0x22]"
proof (induction xs)
  case (Cons x xs)
  show ?case
  proof (cases "xs = []")
    case True
    then show ?thesis by (simp add: attr_text_def)
  next
    case False
    with Cons.IH obtain ys where "attrs_text xs = ys @ [CHR 0x22]" by blast
    then have "attrs_text (x # xs) = (CHR '' '' # attr_text x @ ys) @ [CHR 0x22]" by simp
    then show ?thesis by blast
  qed
qed simp

lemma last_char: "xs \<noteq> [] \<Longrightarrow> rdl (pre @ xs @ c # post) (length pre + length xs - 1) = ret (last xs)"
  by (cases xs rule: rev_cases) (auto simp: rdl_def nth_append)

lemma opening_node_ok:
  assumes n: "tag_name n" and as: "list_all attr_ok as"
  shows "opening_node (pre @ item_text (Opening n as) @ post) (length pre + 1) (length n)
    (if as = [] then None else Some (length pre + 1 + length n + 1)) = ret (opening_tag (length pre) n as)"
proof -
  let ?mem = "pre @ item_text (Opening n as) @ post"
  have "?mem = (pre @ [CHR ''<'']) @ n @ attrs_text as @ CHR ''>'' # post" by simp
  then have v: "SetValue ?mem (Some (length pre + 1)) (length n) new_tag =
      ret (0, new_tag\<lparr>tag := Some (n @ [NUL]), tagAddress := Some (length pre + 1)\<rparr>)"
    using SetValue_name [OF n, of "pre @ [CHR ''<'']" "attrs_text as @ CHR ''>'' # post" new_tag] by simp
  show ?thesis
  proof (cases as)
    case Nil
    with v show ?thesis by (simp add: opening_node_def opening_tag_def new_tag_def)
  next
    case (Cons x xs)
    let ?pre = "pre @ CHR ''<'' # n @ [CHR '' '']" and ?at = "attr_text x @ attrs_text xs"
    have mem: "?mem = ?pre @ ?at @ CHR ''>'' # post" by (simp add: Cons)
    have lp: "length ?pre = length pre + 1 + length n + 1" by simp
    have e: "strchr ?mem (length ?pre) CHR ''>'' = ret (Some (length ?pre + length ?at))"
      unfolding mem using attrs_text_chars [OF as] attrs_text_NUL [OF as] by (intro strchr_skip) (auto simp: Cons)
    have a: "\<forall>a \<in> set (x # xs). name_ok (fst a) \<and> value_ok (snd a)" using as by (auto simp: Cons attr_ok_def list_all_iff)
    have "SetAttributes ?mem (Some (length ?pre)) (length ?at) t = ret (0, t\<lparr>attrs := attrs t @ blocks x # map (blocks \<circ> spaced) xs\<rparr>)" for t
      unfolding mem using SetAttributes_attrs [OF a, of ?pre "CHR ''>'' # post" t] by simp
    with v e show ?thesis
      unfolding lp by (simp add: Cons opening_node_def opening_tag_def new_tag_def)
  qed
qed

lemma AddOpeningTag_ok:
  assumes n: "tag_name n" and as: "list_all attr_ok as" and f: "filters_set fs hp" and post: "NUL \<in> set post"
  shows "AddOpeningTag (pre @ item_text (Opening n as) @ post) (length pre) (length (item_text (Opening n as))) hp =
    ret (if n \<in> set fs then push_opening (opening_tag (length pre) n as) hp else hp)"
proof -
  let ?mem = "pre @ item_text (Opening n as) @ post" and ?gt = "length pre + length (item_text (Opening n as)) - 1"
  have m: "?mem = (pre @ [CHR ''<'']) @ n @ attrs_text as @ CHR ''>'' # post" by simp
  have e: "?gt = length pre + 1 + length n + length (attrs_text as)" by simp
  obtain sp where sp: "strchr ?mem (length pre + 1) CHR '' '' = ret sp"
    "(case sp of None \<Rightarrow> True | Some q \<Rightarrow> ?gt < q) = (as = [])" "as \<noteq> [] \<Longrightarrow> sp = Some (length pre + 1 + length n)"
  proof (cases as)
    case Nil
    have "\<exists>r. strchr ((pre @ [CHR ''<'']) @ (n @ [CHR ''>'']) @ post) (length (pre @ [CHR ''<''])) CHR '' '' = ret r \<and>
        (\<forall>q. r = Some q \<longrightarrow> length (pre @ [CHR ''<'']) + length (n @ [CHR ''>'']) \<le> q)"
      using n post by (intro strchr_beyond) (auto simp: tag_name_def)
    then obtain r where "strchr ?mem (length pre + 1) CHR '' '' = ret r" "\<forall>q. r = Some q \<longrightarrow> length pre + 1 + length n + 1 \<le> q"
      by (auto simp: Nil)
    then show ?thesis by (intro that [of r]) (auto simp: Nil split: option.split)
  next
    case (Cons x xs)
    have "strchr ((pre @ [CHR ''<'']) @ n @ CHR '' '' # attr_text x @ attrs_text xs @ CHR ''>'' # post) (length (pre @ [CHR ''<''])) CHR '' '' =
        ret (Some (length (pre @ [CHR ''<'']) + length n))"
      using n by (intro strchr_skip) (auto simp: tag_name_def)
    then show ?thesis by (intro that [of "Some (length pre + 1 + length n)"]) (auto simp: Cons)
  qed
  have ve: "(if as = [] then ?gt else the sp) = length pre + 1 + length n" using sp(3) by (cases "as = []") simp_all
  have ats: "(if as = [] then None else Some (the sp + 1)) = (if as = [] then None else Some (length pre + 1 + length n + 1))"
    using sp(3) by simp
  have s: "slice ?mem (length pre + 1) (length pre + 1 + length n - (length pre + 1)) = ret n" by simp
  have c: "rdl ?mem (length pre + length (item_text (Opening n as)) - 2) = ret (last (CHR ''<'' # n @ attrs_text as))"
    using last_char [of "CHR ''<'' # n @ attrs_text as" pre "CHR ''>''" post] by simp
  have nc: "last (CHR ''<'' # n @ attrs_text as) \<noteq> CHR ''/''"
  proof (cases "as = []")
    case True
    have "n \<noteq> []" "CHR ''/'' \<notin> set n" using n by (auto simp: tag_name_def)
    then have "last n \<noteq> CHR ''/''" by (metis last_in_set)
    with True \<open>n \<noteq> []\<close> show ?thesis by simp
  next
    case False
    from attrs_text_last [OF False] show ?thesis by auto
  qed
  have l: "\<not> MAX_TAG_LENGTH \<le> length n" using n by (simp add: tag_name_def)
  show ?thesis
    unfolding AddOpeningTag_def Let_def sp(1) seq_ret sp(2) ve ats s
    using l interest [OF f n] opening_node_ok [OF n as, of pre post] c nc
    by (simp add: push_opening_def add_html_node_eq del: item_text.simps)
qed

subsection \<open>The whole page\<close>

text \<open>The test for a comment, on a tag that is none.\<close>

lemma not_a_comment:
  assumes "take 3 n \<noteq> ''!--''" "x \<noteq> CHR ''-''" "n \<noteq> []"
  shows "seq (rdl (pre @ CHR ''<'' # n @ x # post) (length pre + 1)) (\<lambda>c1.
    seq (if c1 = CHR ''!'' then rdl (pre @ CHR ''<'' # n @ x # post) (length pre + 2) else ret NUL) (\<lambda>c2.
    seq (if c2 = CHR ''-'' then rdl (pre @ CHR ''<'' # n @ x # post) (length pre + 3) else ret NUL) (\<lambda>c3.
      if c3 = CHR ''-'' then A else B c1))) = B (hd n)"
proof -
  obtain c n1 where n: "n = c # n1" using assms(3) by (cases n) auto
  show ?thesis
  proof (cases n1)
    case Nil
    with assms n show ?thesis by (auto simp: rdl_def nth_append)
  next
    case (Cons d n2)
    with assms n show ?thesis by (cases n2) (auto simp: rdl_def nth_append numeral_3_eq_3)
  qed
qed

lemma scan_tag:
  assumes gap: "CHR ''<'' \<notin> set gap" "NUL \<notin> set gap" and n: "take 3 n \<noteq> ''!--''" "n \<noteq> []" "set n \<inter> {CHR ''>'', NUL} = {}"
    and r: "CHR ''>'' \<notin> set r" "NUL \<notin> set r" "hd (r @ ''>'') \<noteq> CHR ''-''" and len: "length (n @ r) + 2 \<le> 1028"
    and mem: "mem = pre @ gap @ CHR ''<'' # n @ r @ CHR ''>'' # post" and e: "length pre + length gap < endPtr"
    and add: "(if hd n = CHR ''/'' then AddClosingTag mem (length pre + length gap) hp
      else AddOpeningTag mem (length pre + length gap) (length (n @ r) + 2) hp) = ret hp'"
  shows "scan_tags mem endPtr (length pre) hp = scan_tags mem endPtr (length (pre @ gap @ CHR ''<'' # n @ r)) hp'"
proof -
  let ?s = "length pre + length gap"
  have s: "strchr mem (length pre) CHR ''<'' = ret (Some ?s)" unfolding mem using gap by (intro strchr_skip)
  have "mem = (pre @ gap) @ (CHR ''<'' # n @ r) @ CHR ''>'' # post" by (simp add: mem)
  moreover have "strchr ((pre @ gap) @ (CHR ''<'' # n @ r) @ CHR ''>'' # post) (length (pre @ gap)) CHR ''>'' =
      ret (Some (length (pre @ gap) + length (CHR ''<'' # n @ r)))"
    using n r by (intro strchr_skip) auto
  ultimately have t: "strchr mem ?s CHR ''>'' = ret (Some (?s + length (n @ r) + 1))" by simp
  obtain x q where x: "r @ CHR ''>'' # post = x # q" "x \<noteq> CHR ''-''" using r(3) by (cases r) auto
  have m: "mem = (pre @ gap) @ CHR ''<'' # n @ x # q" by (simp add: mem flip: x(1))
  have l: "length (pre @ gap) = ?s" by simp
  note C = not_a_comment [OF n(1) x(2) n(2), of "pre @ gap" q, folded m, unfolded l]
  have next_pos: "length (pre @ gap @ CHR ''<'' # n @ r) = ?s + length (n @ r) + 1" by simp
  show ?thesis
  proof (cases "hd n = CHR ''/''")
    case True
    with s t e len add show ?thesis unfolding next_pos by (subst scan_tags.simps) (simp add: C [simplified])
  next
    case False
    with add have "AddOpeningTag mem ?s (length (n @ r) + 2) hp = ret hp'" by simp
    with False s t e len show ?thesis unfolding next_pos by (subst scan_tags.simps) (simp add: C [simplified])
  qed
qed

lemma take_drop_app: "take k xs @ drop k xs @ ys = xs @ ys"
  by (metis append_assoc append_take_drop_id)

text \<open>A comment without angle brackets is passed, though not in one step when other text comes before it: the position
  moves by the length of the comment, from where the search for it began.\<close>

lemma scan_comment:
  assumes gap: "CHR ''<'' \<notin> set gap" "NUL \<notin> set gap" and t: "item_ok (Comment t)"
    and mem: "mem = pre @ gap @ item_text (Comment t) @ post" and e: "length pre + length gap < endPtr"
  shows "\<exists>pre' gap'. pre' @ gap' = pre @ gap @ item_text (Comment t) \<and> CHR ''<'' \<notin> set gap' \<and> NUL \<notin> set gap' \<and>
    scan_tags mem endPtr (length pre) hp = scan_tags mem endPtr (length pre') hp"
  using gap mem e
proof (induction "length gap" arbitrary: pre gap rule: less_induct)
  case less
  let ?s = "length pre + length gap" and ?c = "''!--'' @ t @ ''--''"
  let ?l = "length (item_text (Comment t))"
  have m: "mem = (pre @ gap) @ (CHR ''<'' # ?c) @ CHR ''>'' # post" using less.prems(3) by simp
  have s: "strchr mem (length pre) CHR ''<'' = ret (Some ?s)"
    using less.prems(1,2) strchr_skip [of "CHR ''<''" gap pre "?c @ CHR ''>'' # post"] by (simp add: m)
  have "strchr ((pre @ gap) @ (CHR ''<'' # ?c) @ CHR ''>'' # post) (length (pre @ gap)) CHR ''>'' =
      ret (Some (length (pre @ gap) + length (CHR ''<'' # ?c)))"
    using t by (intro strchr_skip) auto
  then have g: "strchr mem ?s CHR ''>'' = ret (Some (?s + length t + 6))" by (simp add: m)
  have c: "rdl mem (Suc ?s) = ret CHR ''!''" "rdl mem (?s + 2) = ret CHR ''-''" "rdl mem (?s + 3) = ret CHR ''-''"
    by (simp_all add: m rdl_def nth_append)
  have step: "scan_tags mem endPtr (length pre) hp = scan_tags mem endPtr (length pre + ?l) hp"
    using less.prems(4) s g c by (subst scan_tags.simps) (simp add: eval_nat_numeral)
  show ?case
  proof (cases "?l \<le> length gap")
    case True
    let ?pre = "pre @ take ?l gap" and ?gap = "drop ?l gap"
    have "length ?gap < length gap" using True by simp
    moreover have "CHR ''<'' \<notin> set ?gap" "NUL \<notin> set ?gap" using less.prems(1,2) by (auto dest: in_set_dropD)
    ultimately have "\<exists>pre' gap'. pre' @ gap' = ?pre @ ?gap @ item_text (Comment t) \<and> CHR ''<'' \<notin> set gap' \<and> NUL \<notin> set gap' \<and>
        scan_tags mem endPtr (length ?pre) hp = scan_tags mem endPtr (length pre') hp"
      using less.prems(3,4) True by (intro less.hyps) (simp_all add: take_drop_app)
    moreover have "?pre @ ?gap @ item_text (Comment t) = pre @ gap @ item_text (Comment t)" "length ?pre = length pre + ?l"
      using True by (simp_all add: take_drop_app)
    ultimately show ?thesis by (simp only: step)
  next
    case False
    let ?k = "?l - length gap"
    let ?pre = "pre @ gap @ take ?k (item_text (Comment t))" and ?gap = "drop ?k (item_text (Comment t))"
    obtain j where j: "?k = Suc j" using False by (cases ?k) auto
    have "?gap = drop j (?c @ ''>'')" unfolding j by simp
    then have "set ?gap \<subseteq> set (?c @ ''>'')" by (metis set_drop_subset)
    then have "CHR ''<'' \<notin> set ?gap" "NUL \<notin> set ?gap" using t by auto
    moreover have "?pre @ ?gap = pre @ gap @ item_text (Comment t)" by (simp only: append_assoc append_take_drop_id)
    moreover have "length ?pre = length pre + ?l" using False by simp
    ultimately show ?thesis using step by metis
  qed
qed

lemma scan_items:
  assumes "list_all item_ok its" "filters_set fs hp" "CHR ''<'' \<notin> set gap" "NUL \<notin> set gap"
    and "mem = pre @ gap @ page_text its @ NUL # post" "endPtr = length pre + length gap + length (page_text its)"
  shows "scan_tags mem endPtr (length pre) hp = ret (collect fs (length pre + length gap) its hp)"
  using assms
proof (induction its arbitrary: pre gap hp)
  case Nil
  then show ?case using strchr_none [of "CHR ''<''" gap pre post] by (subst scan_tags.simps) simp
next
  case (Cons it its)
  have its: "list_all item_ok its" using Cons.prems(1) by simp
  have len: "endPtr = length pre + length gap + length (item_text it) + length (page_text its)"
    using Cons.prems(6) by simp
  let ?post = "page_text its @ NUL # post"
  have mem: "mem = pre @ gap @ item_text it @ ?post" using Cons.prems(5) by simp
  have nul: "NUL \<in> set ?post" by simp
  have mem': "mem = (pre @ gap) @ item_text it @ ?post" using mem by simp
  have lg: "length (pre @ gap) = length pre + length gap" by simp
  have slash: "hd n \<noteq> CHR ''/''" if "tag_name n" for n
    using that by (cases n) (auto simp: tag_name_def)
  show ?case
  proof (cases it)
    case (Plain t)
    have "scan_tags mem endPtr (length pre) hp = ret (collect fs (length pre + length (gap @ t)) its hp)"
      using Cons.prems its mem len Plain by (intro Cons.IH) auto
    with Plain show ?thesis by (simp add: add.assoc)
  next
    case (Comment t)
    have "\<exists>pre' gap'. pre' @ gap' = pre @ gap @ item_text it \<and> CHR ''<'' \<notin> set gap' \<and> NUL \<notin> set gap' \<and>
        scan_tags mem endPtr (length pre) hp = scan_tags mem endPtr (length pre') hp"
      unfolding Comment using Cons.prems(1,3,4) len mem Comment by (intro scan_comment) auto
    then obtain pre' gap' where p: "pre' @ gap' = pre @ gap @ item_text it" "CHR ''<'' \<notin> set gap'" "NUL \<notin> set gap'"
      "scan_tags mem endPtr (length pre) hp = scan_tags mem endPtr (length pre') hp" by blast
    have l: "length pre' + length gap' = length pre + length gap + length (item_text it)"
      using arg_cong [OF p(1), of length] by simp
    have "scan_tags mem endPtr (length pre') hp = ret (collect fs (length pre' + length gap') its hp)"
      using Cons.prems(2) its mem len l p(1-3) by (intro Cons.IH) (simp_all flip: append_assoc)
    with p(4) l Comment show ?thesis by simp
  next
    case (Opening n as)
    let ?hp = "if n \<in> set fs then push_opening (opening_tag (length pre + length gap) n as) hp else hp"
    have n: "tag_name n" and as: "list_all attr_ok as" and l: "length (item_text it) \<le> 1028" using Cons.prems(1) Opening by auto
    have "AddOpeningTag mem (length pre + length gap) (length (n @ attrs_text as) + 2) hp = ret ?hp"
      using AddOpeningTag_ok [OF n as Cons.prems(2) nul, of "pre @ gap"] unfolding mem' Opening lg by simp
    then have a: "(if hd n = CHR ''/'' then AddClosingTag mem (length pre + length gap) hp
      else AddOpeningTag mem (length pre + length gap) (length (n @ attrs_text as) + 2) hp) = ret ?hp" using slash [OF n] by simp
    have "hd (attrs_text as @ ''>'') \<noteq> CHR ''-''" by (cases as) simp_all
    then have "scan_tags mem endPtr (length pre) hp =
        scan_tags mem endPtr (length (pre @ gap @ CHR ''<'' # n @ attrs_text as)) ?hp"
      using n Cons.prems(3,4) attrs_text_chars [OF as] attrs_text_NUL [OF as] l mem len Opening
      by (intro scan_tag [OF _ _ _ _ _ _ _ _ _ _ _ a]) (auto simp: tag_name_def)
    also have "\<dots> = ret (collect fs (length (pre @ gap @ CHR ''<'' # n @ attrs_text as) + length ''>'') its ?hp)"
      using Cons.prems(2) its mem len Opening by (intro Cons.IH) auto
    finally show ?thesis by (simp add: Opening algebra_simps)
  next
    case (Closing n)
    let ?hp = "if n \<in> set fs then push_closing (closing_tag (length pre + length gap) n) hp else hp"
    have n: "tag_name n" using Cons.prems(1) Closing by auto
    have "AddClosingTag mem (length pre + length gap) hp = ret ?hp"
      using AddClosingTag_ok [OF n Cons.prems(2), of "pre @ gap"] unfolding mem' Closing lg .
    then have a: "(if hd (CHR ''/'' # n) = CHR ''/'' then AddClosingTag mem (length pre + length gap) hp
      else AddOpeningTag mem (length pre + length gap) (length ((CHR ''/'' # n) @ []) + 2) hp) = ret ?hp" by simp
    have "scan_tags mem endPtr (length pre) hp = scan_tags mem endPtr (length (pre @ gap @ CHR ''<'' # (CHR ''/'' # n) @ [])) ?hp"
      using n Cons.prems(3,4) mem len Closing
      by (intro scan_tag [OF _ _ _ _ _ _ _ _ _ _ _ a]) (auto simp: tag_name_def)
    also have "\<dots> = ret (collect fs (length (pre @ gap @ CHR ''<'' # (CHR ''/'' # n) @ []) + length ''>'') its ?hp)"
      using Cons.prems(2) its mem len Closing by (intro Cons.IH) auto
    finally show ?thesis by (simp add: Closing algebra_simps)
  qed
qed

text \<open>C13: on a page of text, comments, opening and closing tags, the loop of \<open>ParseHtmlTags\<close> collects what a reading of
  the parts one by one gives: a node, with its name, address and attributes, for every tag that has a filter, in the
  order of the page, and nothing for the rest.\<close>

theorem scan_tags_collects:
  assumes "list_all item_ok its" "filters_set fs hp"
  shows "scan_tags (page_text its @ NUL # post) (length (page_text its)) 0 hp = ret (collect fs 0 its hp)"
  using scan_items [OF assms, of "[]" _ "[]"] by simp

theorem scan_tags_collects_witness:
  "scan_tags (page_text [Comment ''x'', Opening ''ul'' [(''id'', ''a'')], Plain ''k'', Closing ''ul''] @ [NUL])
      (length (page_text [Comment ''x'', Opening ''ul'' [(''id'', ''a'')], Plain ''k'', Closing ''ul''])) 0
      (new_html_parser\<lparr>tagFilters := [''ul'' @ [NUL]]\<rparr>) =
    ret (collect [''ul''] 0 [Comment ''x'', Opening ''ul'' [(''id'', ''a'')], Plain ''k'', Closing ''ul'']
      (new_html_parser\<lparr>tagFilters := [''ul'' @ [NUL]]\<rparr>))"
proof -
  have "list_all item_ok [Comment ''x'', Opening ''ul'' [(''id'', ''a'')], Plain ''k'', Closing ''ul'']"
    by (simp add: tag_name_def attr_ok_def name_ok_def value_ok_def attr_text_def)
  moreover have "filters_set [''ul''] (new_html_parser\<lparr>tagFilters := [''ul'' @ [NUL]]\<rparr>)"
    by (simp add: filters_set_def terminated_def)
  ultimately show ?thesis by (rule scan_tags_collects)
qed

end
