(* ===== verification/Html_Page.thy ===== *)
theory Html_Page imports Html_Scan begin

text \<open>
  \<open>ParseHtmlTags\<close> on whole pages: a page is a list of pieces, elements whose tags are of interest, which may hold elements
  of other names, and the text, comments and tags between and inside them that are not. The scan gives two nodes per
  element, the pairing puts them together, their text is copied, sorting restores the order of the page, and the lists
  of keys are read.
\<close>

subsection \<open>Pieces\<close>

datatype piece = Other item | Element string "(string \<times> string) list" "piece list"

fun page_items :: "piece list \<Rightarrow> item list" where
  "page_items [] = []"
| "page_items (Other it # ps) = it # page_items ps"
| "page_items (Element n as body # ps) = Opening n as # page_items body @ Closing n # page_items ps"

text \<open>An item that gives no node.\<close>

fun dull :: "string list \<Rightarrow> item \<Rightarrow> bool" where
  "dull fs (Opening n as) = (n \<notin> set fs)"
| "dull fs (Closing n) = (n \<notin> set fs)"
| "dull fs _ = True"

fun element_names :: "piece list \<Rightarrow> string list" where
  "element_names [] = []"
| "element_names (Other it # ps) = element_names ps"
| "element_names (Element n as body # ps) = n # element_names body @ element_names ps"

text \<open>No element holds an element of its own name.\<close>

fun page_ok :: "string list \<Rightarrow> piece list \<Rightarrow> bool" where
  "page_ok fs [] = True"
| "page_ok fs (Other it # ps) = (item_ok it \<and> dull fs it \<and> page_ok fs ps)"
| "page_ok fs (Element n as body # ps) = (n \<in> set fs \<and> item_ok (Opening n as) \<and> n \<notin> set (element_names body) \<and>
     page_ok fs body \<and> page_ok fs ps)"

text \<open>An element: the numbers of its two tags, where it begins, and what it holds.\<close>

record element =
  el_id :: nat
  el_cid :: nat
  el_addr :: nat
  el_name :: string
  el_attrs :: "(string \<times> string) list"
  el_body :: "item list"

definition el_start :: "element \<Rightarrow> nat" where
  "el_start e = el_addr e + length (item_text (Opening (el_name e) (el_attrs e)))"

definition el_stop :: "element \<Rightarrow> nat" where
  "el_stop e = el_start e + length (page_text (el_body e))"

fun elements :: "nat \<Rightarrow> nat \<Rightarrow> piece list \<Rightarrow> element list" where
  "elements a i [] = []"
| "elements a i (Other it # ps) = elements (a + length (item_text it)) i ps"
| "elements a i (Element n as body # ps) =
     \<lparr>el_id = i, el_cid = i + 2 * length (element_names body) + 1, el_addr = a, el_name = n, el_attrs = as,
       el_body = page_items body\<rparr> #
     elements (a + length (item_text (Opening n as))) (i + 1) body @
     elements (a + length (item_text (Opening n as)) + length (page_text (page_items body)) + length (item_text (Closing n)))
       (i + 2 * length (element_names body) + 2) ps"

lemma elements_names: "map el_name (elements a i ps) = element_names ps"
  by (induction a i ps rule: elements.induct) simp_all

lemma element_ids:
  "e \<in> set (elements a i ps) \<Longrightarrow> i \<le> el_id e \<and> el_id e < el_cid e \<and> el_cid e < i + 2 * length (element_names ps)"
  by (induction a i ps rule: elements.induct) fastforce+

lemma elements_ordered: "sorted_wrt (<) (map el_id (elements a i ps))"
  by (induction a i ps rule: elements.induct) (fastforce simp: sorted_wrt_append dest: element_ids)+

definition tag_numbers :: "element list \<Rightarrow> nat list" where
  "tag_numbers es = concat (map (\<lambda>e. [el_id e, el_cid e]) es)"

lemma tag_numbers_simps [simp]: "tag_numbers [] = []" "tag_numbers (e # es) = el_id e # el_cid e # tag_numbers es"
  "tag_numbers (es @ es') = tag_numbers es @ tag_numbers es'"
  by (simp_all add: tag_numbers_def)

lemma tag_numbers_range:
  "x \<in> set (tag_numbers (elements a i ps)) \<Longrightarrow> i \<le> x \<and> x < i + 2 * length (element_names ps)"
  by (auto simp: tag_numbers_def dest: element_ids)

lemma elements_distinct: "distinct (tag_numbers (elements a i ps))"
  by (induction a i ps rule: elements.induct) (auto dest!: tag_numbers_range)

lemma names_not: "nm \<notin> set (element_names ps) \<Longrightarrow> filter (\<lambda>e. el_name e = nm) (elements a i ps) = []"
  unfolding elements_names [symmetric, of ps a i] by (auto simp: filter_empty_conv)

text \<open>Elements of one name follow one another.\<close>

lemma elements_apart:
  assumes "page_ok fs ps"
  shows "sorted_wrt (\<lambda>e e'. el_cid e < el_id e') (filter (\<lambda>e. el_name e = nm) (elements a i ps))"
  using assms
proof (induction a i ps rule: elements.induct)
  case (3 a i n as body ps)
  then show ?case
    by (cases "n = nm") (fastforce simp: names_not sorted_wrt_append dest!: element_ids)+
qed simp_all

text \<open>Where an element lies on the page.\<close>

lemma element_at:
  assumes "e \<in> set (elements a i ps)"
  shows "\<exists>pre post. page_text (page_items ps) = pre @ item_text (Opening (el_name e) (el_attrs e)) @ page_text (el_body e) @
    item_text (Closing (el_name e)) @ post \<and> el_addr e = a + length pre"
  using assms
proof (induction a i ps rule: elements.induct)
  case (2 a i it ps)
  then obtain pre post where "page_text (page_items ps) = pre @ item_text (Opening (el_name e) (el_attrs e)) @
      page_text (el_body e) @ item_text (Closing (el_name e)) @ post" "el_addr e = a + length (item_text it) + length pre" by auto
  then show ?case by (intro exI [of _ "item_text it @ pre"] exI [of _ post]) (simp del: item_text.simps)
next
  case (3 a i n as body ps)
  let ?first = "\<lparr>el_id = i, el_cid = i + 2 * length (element_names body) + 1, el_addr = a, el_name = n, el_attrs = as,
       el_body = page_items body\<rparr>"
  let ?on = "item_text (Opening n as)" and ?cn = "item_text (Closing n)" and ?body = "page_text (page_items body)"
  consider "e = ?first" | "e \<in> set (elements (a + length ?on) (i + 1) body)"
    | "e \<in> set (elements (a + length ?on + length ?body + length ?cn) (i + 2 * length (element_names body) + 2) ps)"
    using "3.prems" by auto
  then show ?case
  proof cases
    case 1
    then show ?thesis by (intro exI [of _ "[]"] exI [of _ "page_text (page_items ps)"]) (simp del: item_text.simps)
  next
    case 2
    from "3.IH"(1) [OF this] obtain pre post where "?body = pre @ item_text (Opening (el_name e) (el_attrs e)) @
        page_text (el_body e) @ item_text (Closing (el_name e)) @ post" "el_addr e = a + length ?on + length pre" by blast
    then show ?thesis by (intro exI [of _ "?on @ pre"] exI [of _ "post @ ?cn @ page_text (page_items ps)"]) (simp del: item_text.simps)
  next
    case 3
    from "3.IH"(2) [OF this] obtain pre post where "page_text (page_items ps) = pre @ item_text (Opening (el_name e) (el_attrs e)) @
        page_text (el_body e) @ item_text (Closing (el_name e)) @ post"
      "el_addr e = a + length ?on + length ?body + length ?cn + length pre" by blast
    then show ?thesis by (intro exI [of _ "?on @ ?body @ ?cn @ pre"] exI [of _ post]) (simp del: item_text.simps)
  qed
qed simp

lemma page_items_ok: "page_ok fs ps \<Longrightarrow> list_all item_ok (page_items ps)"
  by (induction ps rule: page_items.induct) auto

lemma element_ok:
  assumes "e \<in> set (elements a i ps)" "page_ok fs ps"
  shows "tag_name (el_name e)" "list_all attr_ok (el_attrs e)" "list_all item_ok (el_body e)"
  using assms by (induction a i ps rule: elements.induct) (auto simp: page_items_ok)

lemma elements_few: "2 * length (element_names ps) \<le> length (page_text (page_items ps))"
  by (induction ps rule: element_names.induct) auto

subsection \<open>The state after the scan\<close>

text \<open>The tags of interest in their order, opening (\<^verbatim>\<open>True\<close>) and closing.\<close>

type_synonym event = "bool \<times> html_tag"

fun events :: "string list \<Rightarrow> nat \<Rightarrow> item list \<Rightarrow> event list" where
  "events fs a [] = []"
| "events fs a (Opening n as # its) = (if n \<in> set fs then [(True, opening_tag a n as)] else []) @
     events fs (a + length (item_text (Opening n as))) its"
| "events fs a (Closing n # its) = (if n \<in> set fs then [(False, closing_tag a n)] else []) @
     events fs (a + length (item_text (Closing n))) its"
| "events fs a (it # its) = events fs (a + length (item_text it)) its"

definition push :: "event \<Rightarrow> html_parser \<Rightarrow> html_parser" where
  "push e hp = (if fst e then push_opening (snd e) hp else push_closing (snd e) hp)"

lemma collect_events: "collect fs a its hp = fold push (events fs a its) hp"
  by (induction fs a its hp rule: collect.induct) (simp_all add: push_def del: item_text.simps(2-))

lemma events_append: "events fs a (xs @ ys) = events fs a xs @ events fs (a + length (page_text xs)) ys"
  by (induction fs a xs rule: events.induct) (simp_all add: add.assoc del: item_text.simps)

definition opening_el :: "element \<Rightarrow> event" where
  "opening_el e = (True, opening_tag (el_addr e) (el_name e) (el_attrs e))"

definition closing_el :: "element \<Rightarrow> event" where
  "closing_el e = (False, closing_tag (el_stop e) (el_name e))"

lemma tags_simps [simp]: "tag (opening_tag a n as) = Some (n @ [NUL])" "tag (closing_tag a n) = Some (n @ [NUL])"
  "tagAddress (opening_tag a n as) = Some (a + 1)" "tagAddress (closing_tag a n) = Some (a + 2)"
  by (simp_all add: opening_tag_def closing_tag_def)

abbreviation page_events :: "string list \<Rightarrow> nat \<Rightarrow> piece list \<Rightarrow> event list" where
  "page_events fs a ps \<equiv> events fs a (page_items ps)"

lemma events_piece:
  assumes "n \<in> set fs"
  shows "page_events fs a (Element n as body # ps) = (True, opening_tag a n as) #
    page_events fs (a + length (item_text (Opening n as))) body @
    (False, closing_tag (a + length (item_text (Opening n as)) + length (page_text (page_items body))) n) #
    page_events fs (a + length (item_text (Opening n as)) + length (page_text (page_items body)) + length (item_text (Closing n))) ps"
  using assms by (simp add: events_append del: item_text.simps)

lemma events_other: "dull fs it \<Longrightarrow> events fs a (it # its) = events fs (a + length (item_text it)) its"
  by (cases it) simp_all

lemma events_length: "page_ok fs ps \<Longrightarrow> length (page_events fs a ps) = 2 * length (element_names ps)"
  by (induction ps arbitrary: a rule: element_names.induct) (simp_all add: events_other events_append del: item_text.simps)

text \<open>The numbers of the opening tags are those of the elements, in order; so are, for each name, those of the closing tags.\<close>

lemma openings_elements:
  assumes "page_ok fs ps"
  shows "map fst (filter (\<lambda>p. fst (snd p)) (enumerate i (page_events fs a ps))) = map el_id (elements a i ps)"
  using assms
proof (induction a i ps rule: elements.induct)
  case (2 a i it ps)
  then show ?case by (simp add: events_other)
next
  case (3 a i n as body ps)
  then show ?case by (simp add: events_piece enumerate_append_eq events_length del: item_text.simps page_items.simps)
qed simp

definition closes :: "string \<Rightarrow> nat \<times> event \<Rightarrow> bool" where
  "closes nm p \<longleftrightarrow> \<not> fst (snd p) \<and> tag (snd (snd p)) = Some (nm @ [NUL])"

lemma closings_elements:
  assumes "page_ok fs ps"
  shows "map fst (filter (closes nm) (enumerate i (page_events fs a ps))) =
    map el_cid (filter (\<lambda>e. el_name e = nm) (elements a i ps))"
  using assms
proof (induction a i ps rule: elements.induct)
  case (2 a i it ps)
  then show ?case by (simp add: events_other)
next
  case (3 a i n as body ps)
  then show ?case
    by (cases "n = nm")
      (simp_all add: events_piece enumerate_append_eq events_length names_not closes_def del: item_text.simps page_items.simps)
qed simp

lemma element_events:
  assumes "page_ok fs ps" "e \<in> set (elements a i ps)"
  shows "(el_id e, opening_el e) \<in> set (enumerate i (page_events fs a ps)) \<and>
    (el_cid e, closing_el e) \<in> set (enumerate i (page_events fs a ps))"
  using assms
proof (induction a i ps rule: elements.induct)
  case (2 a i it ps)
  then show ?case by (simp add: events_other)
next
  case (3 a i n as body ps)
  then show ?case
    by (auto simp: events_piece enumerate_append_eq events_length opening_el_def closing_el_def el_start_def el_stop_def
        simp del: item_text.simps page_items.simps)
qed simp

lemma event_tags:
  assumes "(b, t) \<in> set (events fs a its)" "list_all item_ok its"
  shows "\<exists>n. tag t = Some (n @ [NUL]) \<and> terminated n"
  using assms by (induction fs a its rule: events.induct) (auto simp: tag_name_def terminated_def split: if_splits)

definition fresh_parser :: "string list \<Rightarrow> html_parser" where
  "fresh_parser fs = new_html_parser\<lparr>tagFilters := map (\<lambda>f. f @ [NUL]) fs\<rparr>"

definition node_of :: "nat \<times> event \<Rightarrow> html_node" where
  "node_of p = \<lparr>node_tag = (snd (snd p))\<lparr>tag_type := (if fst (snd p) then OPENING_TAG else CLOSING_TAG)\<rparr>,
     node_id = word_of_nat (fst p)\<rparr>"

definition nodes :: "event list \<Rightarrow> nat \<Rightarrow> html_node option" where
  "nodes E p = (if 0 < p \<and> p \<le> length E then Some (node_of (p - 1, E ! (p - 1))) else None)"

definition scanned :: "string list \<Rightarrow> event list \<Rightarrow> html_parser" where
  "scanned fs E = (fresh_parser fs)\<lparr>openingTags := map (Suc \<circ> fst) (filter (\<lambda>p. fst (snd p)) (enumerate 0 E)),
     closingTags := map (Suc \<circ> fst) (filter (\<lambda>p. \<not> fst (snd p)) (enumerate 0 E)),
     numberOfTags := word_of_nat (length E), hp_heap := \<lparr>h_next = Suc (length E), h_obj = nodes E\<rparr>\<rparr>"

lemma nodes_at: "p \<in> set (enumerate 0 E) \<Longrightarrow> nodes E (Suc (fst p)) = Some (node_of p)"
  by (cases p) (auto simp: nodes_def in_set_enumerate_eq)

lemma nodes_snoc: "nodes (E @ [e]) = (nodes E)(Suc (length E) \<mapsto> node_of (length E, e))"
  by (auto simp: nodes_def nth_append fun_eq_iff)

lemma fold_push: "fold push E (fresh_parser fs) = scanned fs E"
proof (induction E rule: rev_induct)
  case Nil
  show ?case by (auto simp: scanned_def fresh_parser_def new_html_parser_def empty_heap_def nodes_def)
next
  case (snoc e E)
  then have "fold push (E @ [e]) (fresh_parser fs) = push e (scanned fs E)" by simp
  also have "\<dots> = scanned fs (E @ [e])"
    by (simp add: push_def push_opening_def push_closing_def add_html_node_eq scanned_def h_new_def nodes_snoc enumerate_append_eq
        node_of_def fresh_parser_def new_html_parser_def add.commute)
  finally show ?case .
qed

subsection \<open>Pairing\<close>

definition small_page :: "string list \<Rightarrow> piece list \<Rightarrow> bool" where
  "small_page fs ps \<longleftrightarrow> page_ok fs ps \<and> length (page_text (page_items ps)) < 2 ^ 32"

abbreviation events_of :: "string list \<Rightarrow> piece list \<Rightarrow> event list" where
  "events_of fs ps \<equiv> page_events fs 0 ps"

abbreviation els :: "piece list \<Rightarrow> element list" where
  "els ps \<equiv> elements 0 0 ps"

lemma scanned_simps [simp]: "completeTags (scanned fs E) = []" "sortedTags (scanned fs E) = []"
  "h_obj (hp_heap (scanned fs E)) = nodes E" "decryptionList (scanned fs E) = []"
  by (simp_all add: scanned_def fresh_parser_def new_html_parser_def)

lemma small_page_events: "small_page fs ps \<Longrightarrow> length (events_of fs ps) < 2 ^ 32"
  using elements_few [of ps] events_length [of fs ps 0] by (simp add: small_page_def)

lemma small_el:
  assumes "small_page fs ps" "e \<in> set (els ps)" shows "el_id e < el_cid e" "el_cid e < 2 ^ 32"
  using element_ids [OF assms(2)] elements_few [of ps] assms(1) by (auto simp: small_page_def)

lemma scanned_node:
  assumes "small_page fs ps" "p \<in> set (enumerate 0 (events_of fs ps))"
  shows "\<exists>n. tag (snd (snd p)) = Some (n @ [NUL]) \<and> nname (hp_heap (scanned fs (events_of fs ps))) (Suc (fst p)) = n"
    "good_node (hp_heap (scanned fs (events_of fs ps))) (Suc (fst p))"
    "nid (hp_heap (scanned fs (events_of fs ps))) (Suc (fst p)) = word_of_nat (fst p)" "fst p < 2 ^ 32"
proof -
  have e2: "fst p < length (events_of fs ps)" "events_of fs ps ! fst p = snd p"
    using assms(2) by (simp_all add: in_set_enumerate_eq)
  then have e: "(fst (snd p), snd (snd p)) \<in> set (events_of fs ps)" by (metis nth_mem prod.collapse)
  then obtain n where "tag (snd (snd p)) = Some (n @ [NUL])" "terminated n"
    using event_tags [OF e] page_items_ok assms(1) by (auto simp: small_page_def)
  with nodes_at [OF assms(2)] show
    "\<exists>n. tag (snd (snd p)) = Some (n @ [NUL]) \<and> nname (hp_heap (scanned fs (events_of fs ps))) (Suc (fst p)) = n"
    "good_node (hp_heap (scanned fs (events_of fs ps))) (Suc (fst p))"
    "nid (hp_heap (scanned fs (events_of fs ps))) (Suc (fst p)) = word_of_nat (fst p)"
    by (auto simp: nname_def good_node_def nid_def node_of_def)
  show "fst p < 2 ^ 32" using e2(1) small_page_events [OF assms(1)] by simp
qed

lemma scanned_el:
  assumes "small_page fs ps" "e \<in> set (els ps)"
  shows "nname (hp_heap (scanned fs (events_of fs ps))) (Suc (el_id e)) = el_name e"
    "nid (hp_heap (scanned fs (events_of fs ps))) (Suc (el_id e)) = word_of_nat (el_id e)"
    "nid (hp_heap (scanned fs (events_of fs ps))) (Suc (el_cid e)) = word_of_nat (el_cid e)"
  using element_events [of fs ps e 0 0] assms scanned_node(1,3) [OF assms(1)]
  by (fastforce simp: small_page_def opening_el_def closing_el_def)+

lemma scanned_openings:
  assumes "small_page fs ps"
  shows "openingTags (scanned fs (events_of fs ps)) = map (Suc \<circ> el_id) (els ps)"
  using openings_elements [of fs ps 0 0] assms by (simp add: scanned_def small_page_def flip: map_map)

lemma scanned_named:
  assumes "small_page fs ps"
  shows "opening_of (scanned fs (events_of fs ps)) nm = map (Suc \<circ> el_id) (filter (\<lambda>e. el_name e = nm) (els ps))"
    "closing_of (scanned fs (events_of fs ps)) nm = map (Suc \<circ> el_cid) (filter (\<lambda>e. el_name e = nm) (els ps))"
proof -
  let ?h = "hp_heap (scanned fs (events_of fs ps))" and ?en = "enumerate 0 (events_of fs ps)"
  show "opening_of (scanned fs (events_of fs ps)) nm = map (Suc \<circ> el_id) (filter (\<lambda>e. el_name e = nm) (els ps))"
    using scanned_el(1) [OF assms]
    by (auto simp: scanned_openings [OF assms] filter_map intro!: arg_cong [where f = "map _"] filter_cong)
  have "filter (\<lambda>p. nname ?h (Suc (fst p)) = nm) (filter (\<lambda>p. \<not> fst (snd p)) ?en) = filter (closes nm) ?en"
    unfolding filter_filter using scanned_node(1) [OF assms] by (fastforce simp: closes_def intro!: filter_cong)
  then have "closing_of (scanned fs (events_of fs ps)) nm = map Suc (map fst (filter (closes nm) ?en))"
    by (simp add: scanned_def filter_map comp_def)
  moreover have "map fst (filter (closes nm) ?en) = map el_cid (filter (\<lambda>e. el_name e = nm) (els ps))"
    using assms by (intro closings_elements) (simp add: small_page_def)
  ultimately show "closing_of (scanned fs (events_of fs ps)) nm = map (Suc \<circ> el_cid) (filter (\<lambda>e. el_name e = nm) (els ps))"
    by (simp only: map_map)
qed

lemma small_less: "a < 2 ^ 32 \<Longrightarrow> b < 2 ^ 32 \<Longrightarrow> (word_of_nat a :: u32) < word_of_nat b \<longleftrightarrow> a < b"
  "a < 2 ^ 32 \<Longrightarrow> b < 2 ^ 32 \<Longrightarrow> (word_of_nat a :: u32) \<le> word_of_nat b \<longleftrightarrow> a \<le> b"
  by (simp_all add: word_less_nat_alt word_le_nat_alt unat_small)

lemma small_eq: "a < 2 ^ 32 \<Longrightarrow> b < 2 ^ 32 \<Longrightarrow> (word_of_nat a :: u32) = word_of_nat b \<longleftrightarrow> a = b"
  by (metis unat_small)

lemma interleaved_ids:
  assumes "sorted_wrt (\<lambda>e e'. el_cid e < el_id e') xs" "\<forall>e \<in> set xs. el_id e < el_cid e \<and> el_cid e < 2 ^ 32"
  shows "interleaved (map (\<lambda>e. word_of_nat (el_id e)) xs) (map (\<lambda>e. word_of_nat (el_cid e)) xs)"
  using assms by (induction xs) (auto simp: small_less dest: less_trans)

lemma scanned_flat:
  assumes "small_page fs ps" shows "flat_page (scanned fs (events_of fs ps))"
proof -
  let ?h = "hp_heap (scanned fs (events_of fs ps))" and ?en = "enumerate 0 (events_of fs ps)"
  have d: "distinct (map (Suc \<circ> fst) (filter P ?en))" for P
  proof -
    have "distinct (map fst (filter P ?en))" by (rule distinct_map_filter) simp
    then show ?thesis by (simp add: distinct_map comp_inj_on)
  qed
  have i: "inj_on (nid ?h) (set (map (Suc \<circ> fst) (filter P ?en)))" for P
    using scanned_node(3,4) [OF assms] by (auto simp: inj_on_def small_eq)
  have "tags_ok (scanned fs (events_of fs ps))"
    unfolding tags_ok_def using d i scanned_node(2) [OF assms] by (auto simp: scanned_def)
  moreover have "interleaved (map (nid ?h) (opening_of (scanned fs (events_of fs ps)) nm))
      (map (nid ?h) (closing_of (scanned fs (events_of fs ps)) nm))" for nm
  proof -
    let ?xs = "filter (\<lambda>e. el_name e = nm) (els ps)"
    have "map (nid ?h) (map (Suc \<circ> el_id) ?xs) = map (\<lambda>e. word_of_nat (el_id e)) ?xs"
      "map (nid ?h) (map (Suc \<circ> el_cid) ?xs) = map (\<lambda>e. word_of_nat (el_cid e)) ?xs"
      using scanned_el(2,3) [OF assms] by auto
    moreover have "interleaved (map (\<lambda>e. word_of_nat (el_id e)) ?xs) (map (\<lambda>e. word_of_nat (el_cid e)) ?xs)"
      using elements_apart [of fs ps nm 0 0] small_el [OF assms] assms by (intro interleaved_ids) (auto simp: small_page_def)
    ultimately show ?thesis by (simp only: scanned_named [OF assms])
  qed
  ultimately show ?thesis by (simp add: flat_page_def)
qed

definition pair_of :: "element \<Rightarrow> nat \<times> nat" where
  "pair_of e = (Suc (el_id e), Suc (el_cid e))"

lemma mset_from_filters:
  assumes "\<And>v. filter (\<lambda>x. g x = v) xs = filter (\<lambda>x. g x = v) ys" shows "mset xs = mset ys"
proof (rule multiset_eqI)
  fix x
  have c: "count (mset zs) x = count (mset (filter (\<lambda>y. g y = g x) zs)) x" for zs by simp
  show "count (mset xs) x = count (mset ys) x" unfolding c [of xs] c [of ys] assms ..
qed

text \<open>The pairing of a scanned page: the elements, in an order of their own.\<close>

lemma combine_scanned:
  assumes "small_page fs ps"
  shows "\<exists>cs. combine_all (scanned fs (events_of fs ps)) =
      ret (0, (scanned fs (events_of fs ps))\<lparr>openingTags := [], closingTags := [], completeTags := cs\<rparr>) \<and>
    mset cs = mset (map pair_of (els ps))"
proof -
  let ?hp = "scanned fs (events_of fs ps)"
  from combine_all_ok [OF scanned_flat [OF assms]] obtain cs where
    cs: "combine_all ?hp = ret (0, ?hp\<lparr>openingTags := [], closingTags := [], completeTags := cs\<rparr>)"
    "\<And>nm. filter (\<lambda>pc. nname (hp_heap ?hp) (fst pc) = nm) cs = zip (opening_of ?hp nm) (closing_of ?hp nm)" by auto
  have "filter (\<lambda>pc. nname (hp_heap ?hp) (fst pc) = nm) (map pair_of (els ps)) = map pair_of (filter (\<lambda>e. el_name e = nm) (els ps))" for nm
    using scanned_el(1) [OF assms] by (auto simp: filter_map pair_of_def intro!: arg_cong [where f = "map _"] filter_cong)
  then have "mset cs = mset (map pair_of (els ps))"
    using cs(2) by (intro mset_from_filters [where g = "\<lambda>pc. nname (hp_heap ?hp) (fst pc)"])
      (simp add: scanned_named [OF assms] zip_map_map zip_same_conv_map pair_of_def)
  with cs(1) show ?thesis by blast
qed

subsection \<open>The text of the elements\<close>

definition trim :: "string \<Rightarrow> string" where
  "trim t = rev (dropWhile (\<lambda>c. c = CHR '' '') (rev (dropWhile (\<lambda>c. c = CHR '' '') t)))"

lemma drop_blanks: "\<exists>i. t = replicate i CHR '' '' @ dropWhile (\<lambda>c. c = CHR '' '') t"
proof -
  have "takeWhile (\<lambda>c. c = CHR '' '') t = replicate (length (takeWhile (\<lambda>c. c = CHR '' '') t)) CHR '' ''"
    by (rule replicate_length_same [symmetric]) (auto dest: set_takeWhileD)
  then show ?thesis by (metis takeWhile_dropWhile_id)
qed

lemma trim_split: "\<exists>i j. t = replicate i CHR '' '' @ trim t @ replicate j CHR '' ''"
proof -
  obtain i where i: "t = replicate i CHR '' '' @ dropWhile (\<lambda>c. c = CHR '' '') t" using drop_blanks by blast
  obtain j where "rev (dropWhile (\<lambda>c. c = CHR '' '') t) = replicate j CHR '' '' @ rev (trim t)"
    using drop_blanks [of "rev (dropWhile (\<lambda>c. c = CHR '' '') t)"] by (auto simp: trim_def)
  then have "dropWhile (\<lambda>c. c = CHR '' '') t = trim t @ replicate j CHR '' ''" by (simp add: rev_swap)
  with i show ?thesis by metis
qed

lemma trim_ends:
  assumes "trim t \<noteq> []" shows "hd (trim t) \<noteq> CHR '' ''" "last (trim t) \<noteq> CHR '' ''"
proof -
  let ?r = "dropWhile (\<lambda>c. c = CHR '' '') t"
  obtain i j where ij: "t = replicate i CHR '' '' @ trim t @ replicate j CHR '' ''" using trim_split by blast
  show l: "last (trim t) \<noteq> CHR '' ''"
    using assms hd_dropWhile [of "\<lambda>c. c = CHR '' ''" "rev ?r"] by (simp add: trim_def last_rev)
  obtain q where "rev ?r = q @ dropWhile (\<lambda>c. c = CHR '' '') (rev ?r)" by (metis takeWhile_dropWhile_id)
  then have r: "?r = trim t @ rev q" by (metis rev_append rev_rev_ident trim_def)
  then have "?r \<noteq> []" using assms by auto
  then have "hd ?r \<noteq> CHR '' ''" by (rule hd_dropWhile)
  with assms r show "hd (trim t) \<noteq> CHR '' ''" by simp
qed

definition el_text :: "element \<Rightarrow> string" where
  "el_text e = trim (page_text (el_body e))"

text \<open>Text that is copied: not of blanks only, and of a length that passes the two tests.\<close>

definition text_ok :: "element \<Rightarrow> bool" where
  "text_ok e \<longleftrightarrow> el_text e \<noteq> [] \<and> length (page_text (el_body e)) \<le> 1048576 \<and> length (page_text (el_body e)) \<noteq> 128"

lemma page_text_NUL: "list_all item_ok its \<Longrightarrow> NUL \<notin> set (page_text its)"
proof (induction its)
  case (Cons it its)
  then show ?case using attrs_text_NUL by (cases it) (auto simp: tag_name_def)
qed simp

lemma SetData_element:
  assumes ok: "text_ok e" "list_all item_ok (el_body e)" and mem: "mem = pre @ page_text (el_body e) @ post"
  shows "\<exists>rest. SetData junk mem (Some (length pre)) (word_of_nat (length (page_text (el_body e)))) t =
    ret (0, t\<lparr>tag_data := Some (el_text e @ NUL # rest)\<rparr>)"
proof -
  obtain i j where ij: "page_text (el_body e) = replicate i CHR '' '' @ el_text e @ replicate j CHR '' ''"
    unfolding el_text_def using trim_split by blast
  then have len: "length (page_text (el_body e)) = i + length (el_text e) + j" by (metis add.assoc length_append length_replicate)
  have "NUL \<notin> set (el_text e)" using page_text_NUL [OF ok(2)] unfolding ij by simp
  then have core: "el_text e \<noteq> []" "hd (el_text e) \<noteq> CHR '' ''" "last (el_text e) \<noteq> CHR '' ''" "terminated (el_text e)"
    using ok(1) trim_ends by (auto simp: text_ok_def el_text_def terminated_def)
  have "i + length (el_text e) + j + 1 < 2 ^ 32" "i + length (el_text e) + j \<noteq> 128"
    using ok(1) len by (auto simp: text_ok_def)
  from SetData_core [OF core this, of junk pre post t] show ?thesis
    unfolding mem len unfolding ij by (simp only: append_assoc)
qed

text \<open>The heap of a page during the copying: the nodes are those of the scan, but for the text.\<close>

definition bare :: "html_node \<Rightarrow> html_node" where
  "bare n = n\<lparr>node_tag := (node_tag n)\<lparr>tag_data := None\<rparr>\<rparr>"

definition page_heap :: "element list \<Rightarrow> html_node heap \<Rightarrow> bool" where
  "page_heap es h \<longleftrightarrow> (\<forall>e \<in> set es. (\<exists>n. h_get h (Suc (el_id e)) = ret n \<and> bare n = node_of (el_id e, opening_el e)) \<and>
     h_get h (Suc (el_cid e)) = ret (node_of (el_cid e, closing_el e)))"

definition has_text :: "html_node heap \<Rightarrow> element \<Rightarrow> bool" where
  "has_text h e \<longleftrightarrow> (\<exists>n rest. h_get h (Suc (el_id e)) = ret n \<and> tag_data (node_tag n) = Some (el_text e @ NUL # rest))"

lemma bare_simps:
  assumes "bare n = node_of (i, opening_el e)"
  shows "node_id n = word_of_nat i" "tag (node_tag n) = Some (el_name e @ [NUL])" "tagAddress (node_tag n) = Some (el_addr e + 1)"
proof -
  have "node_id (bare n) = node_id n" "tag (node_tag (bare n)) = tag (node_tag n)"
    "tagAddress (node_tag (bare n)) = tagAddress (node_tag n)" by (simp_all add: bare_def)
  then show "node_id n = word_of_nat i" "tag (node_tag n) = Some (el_name e @ [NUL])" "tagAddress (node_tag n) = Some (el_addr e + 1)"
    unfolding assms by (simp_all add: node_of_def opening_el_def)
qed

lemma bare_set [simp]: "bare (n\<lparr>node_tag := (node_tag n)\<lparr>tag_data := d\<rparr>\<rparr>) = bare n"
  by (simp add: bare_def)

lemma bare_node [simp]: "bare (node_of (i, opening_el e)) = node_of (i, opening_el e)"
  "bare (node_of (i, closing_el e)) = node_of (i, closing_el e)"
  by (simp_all add: bare_def node_of_def opening_el_def closing_el_def opening_tag_def closing_tag_def new_tag_def)

lemma page_heap_scanned:
  assumes "small_page fs ps" shows "page_heap (els ps) (hp_heap (scanned fs (events_of fs ps)))"
  unfolding page_heap_def
proof
  fix e assume "e \<in> set (els ps)"
  then have "(el_id e, opening_el e) \<in> set (enumerate 0 (events_of fs ps))" "(el_cid e, closing_el e) \<in> set (enumerate 0 (events_of fs ps))"
    using element_events [of fs ps e 0 0] assms by (auto simp: small_page_def)
  from nodes_at [OF this(1)] nodes_at [OF this(2)]
  show "(\<exists>n. h_get (hp_heap (scanned fs (events_of fs ps))) (Suc (el_id e)) = ret n \<and> bare n = node_of (el_id e, opening_el e)) \<and>
    h_get (hp_heap (scanned fs (events_of fs ps))) (Suc (el_cid e)) = ret (node_of (el_cid e, closing_el e))"
    by (simp add: h_get_def)
qed

definition on_page :: "string \<Rightarrow> element \<Rightarrow> bool" where
  "on_page mem e \<longleftrightarrow> (\<exists>pre post. mem = pre @ item_text (Opening (el_name e) (el_attrs e)) @ page_text (el_body e) @
     item_text (Closing (el_name e)) @ post \<and> el_addr e = length pre) \<and>
     tag_name (el_name e) \<and> list_all attr_ok (el_attrs e) \<and> list_all item_ok (el_body e)"

lemma opening_ends:
  assumes "on_page mem e" shows "strchr mem (el_addr e + 2) CHR ''>'' = ret (Some (el_start e - 1))"
proof -
  let ?as = "attrs_text (el_attrs e)"
  obtain pre post where m: "mem = pre @ item_text (Opening (el_name e) (el_attrs e)) @ page_text (el_body e) @
     item_text (Closing (el_name e)) @ post" "el_addr e = length pre" using assms by (auto simp: on_page_def)
  obtain c n where n: "el_name e = c # n" using assms by (cases "el_name e") (auto simp: on_page_def tag_name_def)
  have as: "list_all attr_ok (el_attrs e)" using assms by (simp add: on_page_def)
  have "mem = (pre @ [CHR ''<'', c]) @ (n @ ?as) @ CHR ''>'' # page_text (el_body e) @ item_text (Closing (el_name e)) @ post"
    by (simp add: m n)
  moreover have "strchr ((pre @ [CHR ''<'', c]) @ (n @ ?as) @ CHR ''>'' # page_text (el_body e) @ item_text (Closing (el_name e)) @ post)
      (length (pre @ [CHR ''<'', c])) CHR ''>'' = ret (Some (length (pre @ [CHR ''<'', c]) + length (n @ ?as)))"
    using assms attrs_text_chars [OF as] attrs_text_NUL [OF as] n
    by (intro strchr_skip) (auto simp: on_page_def tag_name_def)
  ultimately show ?thesis by (simp add: m(2) el_start_def n)
qed

text \<open>Writing the text of a node leaves the rest; the node of an opening tag is not that of a closing tag.\<close>

lemma page_heap_put:
  assumes h: "page_heap es h" and n: "h_get h p = ret n" "bare n = node_of (i, opening_el e)" and n': "bare n' = bare n"
    and g: "\<And>q. h_get h' q = (if q = p then ret n' else h_get h q)"
  shows "page_heap es h'"
  unfolding page_heap_def
proof (intro ballI conjI)
  fix x assume x: "x \<in> set es"
  show "\<exists>m. h_get h' (Suc (el_id x)) = ret m \<and> bare m = node_of (el_id x, opening_el x)"
    using h x n(1) n' by (cases "Suc (el_id x) = p") (auto simp: page_heap_def g)
  have c: "h_get h (Suc (el_cid x)) = ret (node_of (el_cid x, closing_el x))" using h x by (simp add: page_heap_def)
  moreover have "Suc (el_cid x) \<noteq> p"
  proof
    assume "Suc (el_cid x) = p"
    with n c have "bare (node_of (el_cid x, closing_el x)) = node_of (i, opening_el e)" by simp
    then have "tag_type (node_tag (node_of (el_cid x, closing_el x))) = tag_type (node_tag (node_of (i, opening_el e)))" by simp
    then show False by (simp add: node_of_def opening_el_def closing_el_def)
  qed
  ultimately show "h_get h' (Suc (el_cid x)) = ret (node_of (el_cid x, closing_el x))" by (simp add: g)
qed

lemma retrieve_step:
  assumes h: "page_heap es (hp_heap hp)" and e: "e \<in> set es" "on_page mem e" "text_ok e"
  shows "\<exists>h'. retrieve_data junk mem (pair_of e # rest) hp = retrieve_data junk mem rest (hp\<lparr>hp_heap := h'\<rparr>) \<and>
    page_heap es h' \<and> has_text h' e \<and> (\<forall>q. q \<noteq> Suc (el_id e) \<longrightarrow> h_get h' q = h_get (hp_heap hp) q)"
proof -
  let ?h = "hp_heap hp"
  obtain n where n: "h_get ?h (Suc (el_id e)) = ret n" "bare n = node_of (el_id e, opening_el e)" using h e(1) by (auto simp: page_heap_def)
  have c: "h_get ?h (Suc (el_cid e)) = ret (node_of (el_cid e, closing_el e))" using h e(1) by (simp add: page_heap_def)
  let ?len = "length (page_text (el_body e))"
  have a: "tag_address ?h (Suc (el_id e)) = ret (el_addr e + 1)" "tag_address ?h (Suc (el_cid e)) = ret (el_stop e + 2)"
    using n c bare_simps [OF n(2)] by (simp_all add: tag_address_def closing_el_def node_of_def)
  obtain pre post where m: "mem = pre @ item_text (Opening (el_name e) (el_attrs e)) @ page_text (el_body e) @
     item_text (Closing (el_name e)) @ post" "el_addr e = length pre" using e(2) by (auto simp: on_page_def)
  have st: "length (pre @ item_text (Opening (el_name e) (el_attrs e))) = el_start e" by (simp add: el_start_def m(2))
  have mem: "mem = (pre @ item_text (Opening (el_name e) (el_attrs e))) @ page_text (el_body e) @
     item_text (Closing (el_name e)) @ post" by (simp add: m(1))
  have "list_all item_ok (el_body e)" using e(2) by (simp add: on_page_def)
  from SetData_element [OF e(3) this mem, unfolded st] obtain r where
    d: "SetData junk mem (Some (el_start e)) (word_of_nat ?len) (node_tag n) =
      ret (0, (node_tag n)\<lparr>tag_data := Some (el_text e @ NUL # r)\<rparr>)" by blast
  let ?n = "n\<lparr>node_tag := (node_tag n)\<lparr>tag_data := Some (el_text e @ NUL # r)\<rparr>\<rparr>"
  define h' where "h' = ?h\<lparr>h_obj := (h_obj ?h)(Suc (el_id e) := Some ?n)\<rparr>"
  have g: "h_get h' q = (if q = Suc (el_id e) then ret ?n else h_get ?h q)" for q by (simp add: h_get_def h'_def)
  have put: "h_put ?h (Suc (el_id e)) ?n = ret h'" using n by (simp add: h_put_def h'_def)
  have "0 < el_start e" by (simp add: el_start_def)
  then have pos: "el_start e - 1 + 1 = el_start e" by simp
  have size: "word_of_int (int (el_stop e + 2) - int (el_start e) - 2) = (word_of_nat ?len :: u32)"
    by (simp add: el_stop_def)
  have len: "?len \<noteq> 0" "?len \<le> 1048576" using e(3) by (auto simp: text_ok_def el_text_def trim_def)
  then have u: "unat (word_of_nat ?len :: u32) = ?len" "(word_of_nat ?len :: u32) \<noteq> 0"
    by (auto simp: unat_small dest: arg_cong [of _ _ unat])
  have "set_node_data junk mem (Suc (el_id e)) (el_start e) (word_of_nat ?len) hp = ret (hp\<lparr>hp_heap := h'\<rparr>)"
    using n d put by (simp add: set_node_data_def)
  with a opening_ends [OF e(2)] pos size u len
  have "retrieve_data junk mem (pair_of e # rest) hp = retrieve_data junk mem rest (hp\<lparr>hp_heap := h'\<rparr>)"
    by (simp add: Let_def pair_of_def)
  moreover have "has_text h' e" by (auto simp: has_text_def g)
  moreover have "bare ?n = bare n" by simp
  then have "page_heap es h'" using g n by (intro page_heap_put [OF h]) auto
  ultimately show ?thesis by (intro exI [of _ h']) (simp add: g)
qed

lemma retrieve_pairs:
  assumes "page_heap es (hp_heap hp)" "\<forall>e \<in> set ks. e \<in> set es \<and> on_page mem e \<and> text_ok e" "inj_on el_id (set es)"
  shows "\<exists>h'. retrieve_data junk mem (map pair_of ks) hp = ret (hp\<lparr>hp_heap := h'\<rparr>) \<and> page_heap es h' \<and>
    (\<forall>e \<in> set es. e \<in> set ks \<or> has_text (hp_heap hp) e \<longrightarrow> has_text h' e)"
  using assms(1,2)
proof (induction ks arbitrary: hp)
  case Nil
  then show ?case by (intro exI [of _ "hp_heap hp"]) simp
next
  case (Cons k ks)
  then have k: "k \<in> set es" "on_page mem k" "text_ok k" by auto
  from retrieve_step [OF Cons.prems(1) k] obtain h1 where
    h1: "retrieve_data junk mem (map pair_of (k # ks)) hp = retrieve_data junk mem (map pair_of ks) (hp\<lparr>hp_heap := h1\<rparr>)"
    "page_heap es h1" "has_text h1 k" "\<And>q. q \<noteq> Suc (el_id k) \<Longrightarrow> h_get h1 q = h_get (hp_heap hp) q" by force
  from Cons.IH [of "hp\<lparr>hp_heap := h1\<rparr>"] h1(2) Cons.prems(2) obtain h2 where
    h2: "retrieve_data junk mem (map pair_of ks) (hp\<lparr>hp_heap := h1\<rparr>) = ret (hp\<lparr>hp_heap := h2\<rparr>)" "page_heap es h2"
    "\<And>e. e \<in> set es \<Longrightarrow> e \<in> set ks \<or> has_text h1 e \<Longrightarrow> has_text h2 e" by auto
  have "has_text h1 e" if "has_text (hp_heap hp) e" "e \<in> set es" "e \<noteq> k" for e
  proof -
    have "el_id e \<noteq> el_id k" using inj_onD [OF assms(3), of e k] that(2,3) k(1) by blast
    with that(1) h1(4) [of "Suc (el_id e)"] show ?thesis by (simp add: has_text_def)
  qed
  then have "has_text h2 e" if "e \<in> set es" "e \<in> set (k # ks) \<or> has_text (hp_heap hp) e" for e
    using that h1(3) h2(3) by (cases "e = k") auto
  then show ?case using h1(1) h2(1,2) by (intro exI [of _ h2] conjI ballI impI) auto
qed

lemma els_distinct: "distinct (map el_id (elements a i ps))"
  using elements_ordered strict_sorted_iff by blast

lemma retrieved:
  assumes "mset cs = mset (map pair_of es)" "completeTags hp = cs" "page_heap es (hp_heap hp)" "distinct (map el_id es)"
    and "\<forall>e \<in> set es. on_page mem e \<and> text_ok e"
  shows "\<exists>h. RetrieveDataBetweenTags junk mem hp = ret (hp\<lparr>hp_heap := h\<rparr>) \<and> page_heap es h \<and> (\<forall>e \<in> set es. has_text h e)"
proof -
  have inj: "inj_on el_id (set es)" using assms(4) by (simp add: distinct_map)
  have set: "set cs = pair_of ` set es" using arg_cong [OF assms(1), of set_mset] by simp
  then have "cs \<in> map pair_of ` lists (set es)" by (auto simp flip: lists_image simp: in_lists_conv_set)
  then obtain ks where ks: "cs = map pair_of ks" "set ks \<subseteq> set es" by (auto simp: in_lists_conv_set)
  have "e \<in> set ks" if e: "e \<in> set es" for e
  proof -
    from set e obtain k where k: "k \<in> set ks" "pair_of k = pair_of e" unfolding ks(1) by (metis image_eqI image_iff set_map)
    then have "k = e" using e ks(2) inj_onD [OF inj, of k e] by (auto simp: pair_of_def)
    with k(1) show ?thesis by simp
  qed
  with retrieve_pairs [OF assms(3) _ inj, of ks mem junk] ks(2) assms(2,5) show ?thesis
    by (fastforce simp: RetrieveDataBetweenTags_def ks(1))
qed

subsection \<open>Sorting and extraction\<close>

definition small_ids :: "element list \<Rightarrow> bool" where
  "small_ids es \<longleftrightarrow> sorted_wrt (<) (map el_id es) \<and> (\<forall>e \<in> set es. el_id e < 2 ^ 32 \<and> terminated (el_name e))"

lemma page_heap_ids:
  assumes "page_heap es h" "e \<in> set es"
  shows "pair_live h (pair_of e)" "pair_id h (pair_of e) = word_of_nat (el_id e)" "nid h (Suc (el_id e)) = word_of_nat (el_id e)"
    "\<exists>n. h_get h (Suc (el_id e)) = ret n \<and> node_id n = word_of_nat (el_id e)" "tag_value h (Suc (el_id e)) = ret (el_name e @ [NUL])"
proof -
  from assms obtain n where n: "h_get h (Suc (el_id e)) = ret n" "bare n = node_of (el_id e, opening_el e)" by (auto simp: page_heap_def)
  then have "h_obj h (Suc (el_id e)) = Some n" by (auto simp: h_get_def split: option.splits)
  with n bare_simps [OF n(2)] show "pair_live h (pair_of e)" "pair_id h (pair_of e) = word_of_nat (el_id e)"
    "nid h (Suc (el_id e)) = word_of_nat (el_id e)" "\<exists>n. h_get h (Suc (el_id e)) = ret n \<and> node_id n = word_of_nat (el_id e)"
    "tag_value h (Suc (el_id e)) = ret (el_name e @ [NUL])"
    by (auto simp: pair_live_def pair_id_def nid_def tag_value_def pair_of_def)
qed

lemma sort_page:
  assumes "small_ids es" "page_heap es h" "mset cs = mset (map pair_of es)"
  shows "sort_key (pair_id h) cs = map pair_of es"
proof -
  have set: "set cs = pair_of ` set es" using arg_cong [OF assms(3), of set_mset] by simp
  have id: "pair_id h (pair_of e) = word_of_nat (el_id e)" "el_id e < 2 ^ 32" if "e \<in> set es" for e
    using that page_heap_ids(2) [OF assms(2)] assms(1) by (auto simp: small_ids_def)
  have d: "inj_on el_id (set es)" using assms(1) by (auto simp: small_ids_def strict_sorted_iff distinct_map)
  have "inj_on (pair_id h) (set cs)"
    unfolding set
  proof (rule inj_onI)
    fix x y assume "x \<in> pair_of ` set es" "y \<in> pair_of ` set es" "pair_id h x = pair_id h y"
    then obtain e f where ef: "e \<in> set es" "f \<in> set es" "x = pair_of e" "y = pair_of f"
      "(word_of_nat (el_id e) :: u32) = word_of_nat (el_id f)" using id(1) by auto
    then have "el_id e = el_id f" using small_eq [of "el_id e" "el_id f"] id(2) by blast
    then show "x = y" using ef inj_onD [OF d, of e f] by blast
  qed
  moreover have "sorted (map (pair_id h) (map pair_of es))"
    using assms(1) id by (auto simp: small_ids_def sorted_wrt_map small_less elim!: sorted_wrt_mono_rel [rotated])
  ultimately show ?thesis using assms(3) by (intro sort_key_inj_key_eq)
qed

text \<open>The keys of a page: an element that is a list, with an IV and a key in its text, gives a record, whose section is
  the text of the element before it; a list without an IV and the other elements give none.\<close>

inductive keys_in :: "element option \<Rightarrow> element list \<Rightarrow> decryption_info list \<Rightarrow> bool" where
  keys_none: "keys_in prev [] []"
| keys_other: "el_name e \<noteq> ''ul'' \<Longrightarrow> keys_in (Some e) es is \<Longrightarrow> keys_in prev (e # es) is"
| keys_plain: "el_name e = ''ul'' \<Longrightarrow> find_sub ''<b>IV</b>'' (el_text e) = None \<Longrightarrow> keys_in (Some e) es is \<Longrightarrow>
    keys_in prev (e # es) is"
| keys_here: "el_name e = ''ul'' \<Longrightarrow> el_text e = key_text a k iv b k' key c \<Longrightarrow>
    find_sub ''<b>IV</b>'' (el_text e) = Some (length a) \<Longrightarrow> value_text iv \<Longrightarrow> value_text key \<Longrightarrow> CHR '':'' \<notin> set b \<Longrightarrow>
    keys_in (Some e) es is \<Longrightarrow>
    keys_in (Some p) (e # es) (\<lparr>di_section = map lower (el_text p) @ [NUL], di_iv = iv @ [NUL], di_key = key @ [NUL]\<rparr> # is)"

lemma page_node:
  assumes "page_heap es h" "small_ids es" "\<forall>e \<in> set es. has_text h e \<and> terminated (el_text e)" "e \<in> set es"
  shows "node_with h (Suc (el_id e)) (el_name e) (el_text e)"
proof -
  from assms obtain n where n: "h_get h (Suc (el_id e)) = ret n" "bare n = node_of (el_id e, opening_el e)" by (auto simp: page_heap_def)
  then have "h_obj h (Suc (el_id e)) = Some n" by (auto simp: h_get_def split: option.splits)
  moreover have "terminated (el_name e)" using assms(2,4) by (simp add: small_ids_def)
  ultimately show ?thesis using n(1) bare_simps [OF n(2)] assms(3,4) by (fastforce simp: node_with_def has_text_def nid_def)
qed

lemma keys_records:
  assumes "keys_in prev es infos"
  shows "records_in (map_option el_text prev) (map (\<lambda>e. (el_name e, el_text e)) es) infos"
  using assms
proof (induction rule: keys_in.induct)
  case (keys_plain e es infos prev)
  from records_plain [OF keys_plain.hyps(2)] keys_plain.IH keys_plain.hyps(1) show ?case by simp
next
  case (keys_here e a k iv b k' key c es infos p)
  from records_here [OF keys_here.hyps(2-6)] keys_here.IH keys_here.hyps(1) show ?case by simp
qed (simp_all add: records_none records_other)

lemma extract_keys:
  assumes keys: "keys_in None es infos" and es: "page_heap es (hp_heap hp)" "small_ids es" "sortedTags hp = map pair_of es"
    and has: "\<forall>e \<in> set es. has_text (hp_heap hp) e \<and> terminated (el_text e)"
  shows "ExtractDecryptionInfo hp = ret (hp\<lparr>decryptionList := decryptionList hp @ infos\<rparr>)"
proof (rule ExtractDecryptionInfo_tags)
  show "list_all2 (\<lambda>p t. node_with (hp_heap hp) (fst p) (fst t) (snd t)) (sortedTags hp) (map (\<lambda>e. (el_name e, el_text e)) es)"
    using page_node [OF es(1,2) has] by (auto simp: es(3) list_all2_conv_all_nth pair_of_def)
  have "map (\<lambda>p. nid (hp_heap hp) (fst p)) (sortedTags hp) = map (\<lambda>e. word_of_nat (el_id e)) es"
    using page_heap_ids(3) [OF es(1)] by (auto simp: es(3) pair_of_def)
  moreover have "distinct (map (\<lambda>e. word_of_nat (el_id e) :: u32) es)"
  proof -
    have d: "distinct (map el_id es)" "\<forall>e \<in> set es. el_id e < 2 ^ 32"
      using es(2) by (auto simp: small_ids_def strict_sorted_iff)
    then have "inj_on (\<lambda>e. word_of_nat (el_id e) :: u32) (set es)"
      by (intro inj_onI) (auto simp: distinct_map small_eq dest: inj_onD)
    with d(1) show ?thesis by (simp add: distinct_map)
  qed
  ultimately show "distinct (map (\<lambda>p. nid (hp_heap hp) (fst p)) (sortedTags hp))" by simp
  show "records_in None (map (\<lambda>e. (el_name e, el_text e)) es) infos" using keys_records [OF keys] by simp
qed

subsection \<open>A page with keys\<close>

lemma delete_all_ok:
  assumes "distinct ps" "\<forall>p \<in> set ps. p \<noteq> 0 \<and> h_obj h p \<noteq> None" shows "\<exists>h'. h_delete_all h ps = ret h'"
  using assms
proof (induction ps arbitrary: h)
  case (Cons p ps)
  then obtain x where x: "h_obj h p = Some x" "p \<noteq> 0" by auto
  have "\<exists>h'. h_delete_all (h\<lparr>h_obj := (h_obj h)(p := None)\<rparr>) ps = ret h'" using Cons.prems by (intro Cons.IH) auto
  with x show ?case by (simp add: h_delete_def h_get_def)
qed simp

text \<open>The destructor, on the nodes of a page.\<close>

lemma destroy_page:
  assumes "page_heap es (hp_heap hp)" "distinct (tag_numbers es)" "sortedTags hp = map pair_of es"
  shows "\<exists>hp'. destroy_html_parser hp = ret hp'"
proof -
  have c: "concat (map (\<lambda>(a, b). [a, b]) (map pair_of es)) = map Suc (tag_numbers es)"
    by (induction es) (simp_all add: pair_of_def)
  have "h_obj (hp_heap hp) (Suc (el_id e)) \<noteq> None \<and> h_obj (hp_heap hp) (Suc (el_cid e)) \<noteq> None" if "e \<in> set es" for e
    using assms(1) that by (force simp: page_heap_def h_get_def split: option.splits)
  then have "\<exists>h'. h_delete_all (hp_heap hp) (map Suc (tag_numbers es)) = ret h'"
    using assms(2) by (intro delete_all_ok) (auto simp: distinct_map tag_numbers_def)
  then show ?thesis by (auto simp: destroy_html_parser_def assms(3) c [simplified])
qed

text \<open>The parser with its filters, when the byte behind each copy happens to be zero.\<close>

lemma fresh_parser_filters:
  assumes "list_all (\<lambda>f. terminated f \<and> length f < 128) fs"
  shows "fold (\<lambda>f hp. snd (AddFilter NUL (Some f) hp)) fs new_html_parser = fresh_parser fs"
  using assms
proof (induction fs rule: rev_induct)
  case Nil
  show ?case by (simp add: fresh_parser_def new_html_parser_def)
next
  case (snoc f fs)
  then show ?case by (simp add: AddFilter_def fresh_parser_def strncpy_exact new_html_parser_def)
qed

lemma scanned_page:
  assumes "page_ok fs ps" "list_all terminated fs"
  shows "scan_tags (page_text (page_items ps) @ NUL # post) (length (page_text (page_items ps))) 0 (fresh_parser fs) =
    ret (scanned fs (events_of fs ps))"
proof -
  have "filters_set fs (fresh_parser fs)" using assms(2) by (simp add: filters_set_def fresh_parser_def)
  from scan_items [OF page_items_ok [OF assms(1)] this, of "[]" _ "[]"] show ?thesis
    by (simp add: collect_events fold_push)
qed

lemma small_page_els:
  assumes "small_page fs ps"
  shows "small_ids (els ps)" "\<forall>e \<in> set (els ps). on_page (page_text (page_items ps) @ NUL # post) e \<and> terminated (el_text e)"
proof -
  have ok: "page_ok fs ps" using assms by (simp add: small_page_def)
  show "small_ids (els ps)"
    using small_el [OF assms] element_ok(1) [OF _ ok] elements_ordered
    by (fastforce simp: small_ids_def tag_name_def terminated_def)
  show "\<forall>e \<in> set (els ps). on_page (page_text (page_items ps) @ NUL # post) e \<and> terminated (el_text e)"
  proof (intro ballI conjI)
    fix e assume e: "e \<in> set (els ps)"
    from element_at [OF e] obtain pre q where "page_text (page_items ps) = pre @ item_text (Opening (el_name e) (el_attrs e)) @
      page_text (el_body e) @ item_text (Closing (el_name e)) @ q" "el_addr e = length pre" by auto
    then show "on_page (page_text (page_items ps) @ NUL # post) e"
      unfolding on_page_def using element_ok [OF e ok]
      by (intro conjI exI [of _ pre] exI [of _ "q @ NUL # post"]) simp_all
    obtain i j where "page_text (el_body e) = replicate i CHR '' '' @ el_text e @ replicate j CHR '' ''"
      unfolding el_text_def using trim_split by blast
    then show "terminated (el_text e)"
      using page_text_NUL [OF element_ok(3) [OF e ok]] by (auto simp: terminated_def)
  qed
qed

lemma ParseHtmlTags_page:
  assumes page: "small_page fs ps" "list_all terminated fs" "list_all text_ok (els ps)" and keys: "keys_in None (els ps) infos"
  shows "\<exists>hp' hp''. ParseHtmlTags junk (page_text (page_items ps) @ NUL # post) (word_of_nat (length (page_text (page_items ps))))
      (fresh_parser fs) = ret (True, hp') \<and> decryptionList hp' = infos \<and> destroy_html_parser hp' = ret hp''"
proof -
  let ?mem = "page_text (page_items ps) @ NUL # post" and ?E = "events_of fs ps"
  have ok: "page_ok fs ps" "unat (word_of_nat (length (page_text (page_items ps))) :: u32) = length (page_text (page_items ps))"
    using page(1) by (simp_all add: small_page_def unat_small)
  note ids = small_page_els(1) [OF page(1)]
  from combine_scanned [OF page(1)] obtain cs where
    c: "combine_all (scanned fs ?E) = ret (0, (scanned fs ?E)\<lparr>openingTags := [], closingTags := [], completeTags := cs\<rparr>)"
    "mset cs = mset (map pair_of (els ps))" by blast
  let ?hp = "(scanned fs ?E)\<lparr>openingTags := [], closingTags := [], completeTags := cs\<rparr>"
  have els: "\<forall>e \<in> set (els ps). on_page ?mem e \<and> terminated (el_text e)" by (rule small_page_els(2) [OF page(1)])
  then obtain h where r: "RetrieveDataBetweenTags junk ?mem ?hp = ret (?hp\<lparr>hp_heap := h\<rparr>)"
    and h: "page_heap (els ps) h" "\<forall>e \<in> set (els ps). has_text h e"
    using retrieved [OF c(2), of ?hp ?mem junk] page_heap_scanned [OF page(1)] els_distinct [of 0 0 ps] page(3)
    by (auto simp: list_all_iff)
  have "\<forall>p \<in> set cs. pair_live h p"
    using page_heap_ids(1) [OF h(1)] arg_cong [OF c(2), of set_mset] by auto
  from sort_loop_ok [OF this refl, of "[]" "length cs"]
  have s: "SortTagsById (?hp\<lparr>hp_heap := h\<rparr>) = ret (?hp\<lparr>hp_heap := h, completeTags := [], sortedTags := map pair_of (els ps)\<rparr>)"
    by (simp add: SortTagsById_def sort_page [OF ids h(1) c(2)])
  let ?sorted = "?hp\<lparr>hp_heap := h, completeTags := [], sortedTags := map pair_of (els ps)\<rparr>"
  have x: "ExtractDecryptionInfo ?sorted = ret (?sorted\<lparr>decryptionList := infos\<rparr>)"
    using extract_keys [OF keys, of ?sorted] ids h els by simp
  obtain hp'' where gone: "destroy_html_parser (?sorted\<lparr>decryptionList := infos\<rparr>) = ret hp''"
    using destroy_page [of "els ps" "?sorted\<lparr>decryptionList := infos\<rparr>"] h(1) elements_distinct [of 0 0 ps] by auto
  show ?thesis
    unfolding ParseHtmlTags_def ok(2) scanned_page [OF ok(1) page(2)] seq_ret c(1) using r s x gone by simp
qed

text \<open>C5: from a page on which no element of interest holds one of its own name, \<open>ParseHtmlTags\<close> reads exactly the records of
  the page, in its order: one for every list with an IV and a key, under the name held by the element that begins before
  the list. Elements of different names may nest, and comments and other tags may stand around and inside them; no element
  holds just blanks, or text that fills the buffer of 128 characters (\<open>text_ok\<close>). The destructor then releases every node once.\<close>

theorem ParseHtmlTags_finds_keys:
  assumes page: "small_page fs ps" "list_all terminated fs" "list_all text_ok (els ps)" and keys: "keys_in None (els ps) infos"
  shows "\<exists>hp' hp''. ParseHtmlTags junk (page_text (page_items ps) @ NUL # post) (word_of_nat (length (page_text (page_items ps))))
      (fresh_parser fs) = ret (True, hp') \<and> decryptionList hp' = infos \<and> destroy_html_parser hp' = ret hp''"
  by (rule ParseHtmlTags_page [OF assms])

text \<open>A page with a heading, a comment, and a list of two entries, the IV and the key, under the filters of
  \<open>UpdateIMG3Database\<close>.\<close>

definition sample_page :: "piece list" where
  "sample_page = [Other (Opening ''p'' []), Element ''span'' [(''id'', ''iBoot'')] [Other (Plain ''iBoot'')], Other (Comment ''keys''),
     Element ''ul'' []
       [Element ''li'' [] [Other (Opening ''b'' []), Other (Plain ''IV''), Other (Closing ''b''), Other (Plain '': 11''), Other (Plain [CHR 0x0A])],
        Element ''li'' [] [Other (Opening ''b'' []), Other (Plain ''Key''), Other (Closing ''b''), Other (Plain '': 22''), Other (Plain [CHR 0x0A])]]]"

theorem ParseHtmlTags_finds_keys_witness:
  "\<exists>hp'. ParseHtmlTags (\<lambda>i. CHR ''?'') (page_text (page_items sample_page) @ [NUL])
      (word_of_nat (length (page_text (page_items sample_page)))) (fresh_parser [''a'', ''li'', ''span'', ''ul'']) = ret (True, hp') \<and>
    decryptionList hp' = [\<lparr>di_section = ''iboot'' @ [NUL], di_iv = ''11'' @ [NUL], di_key = ''22'' @ [NUL]\<rparr>]"
proof -
  have page: "small_page [''a'', ''li'', ''span'', ''ul''] sample_page" "list_all terminated [''a'', ''li'', ''span'', ''ul'']"
    "list_all text_ok (els sample_page)"
    by (simp_all add: sample_page_def small_page_def tag_name_def attr_ok_def name_ok_def value_ok_def attr_text_def terminated_def
        text_ok_def el_text_def trim_def)
  have low: "map lower ''iBoot'' = ''iboot''" by code_simp
  have t: "map el_name (els sample_page) = [''span'', ''ul'', ''li'', ''li'']"
    "map el_text (take 2 (els sample_page)) = [''iBoot'', key_text ''<li>'' 1 ''11'' ''</li><li><b>Key</b>'' 1 ''22'' ''</li>'']"
    by (simp_all add: sample_page_def el_text_def trim_def key_text_def)
  then obtain e u v w where e: "els sample_page = [e, u, v, w]" "el_name e = ''span''" "el_name u = ''ul''" "el_name v = ''li''"
    "el_name w = ''li''" "el_text e = ''iBoot''" "el_text u = key_text ''<li>'' 1 ''11'' ''</li><li><b>Key</b>'' 1 ''22'' ''</li>''"
    by (auto simp: map_eq_Cons_conv)
  have f: "find_sub ''<b>IV</b>'' (el_text u) = Some (length ''<li>'')" unfolding e(7) by (simp add: key_text_def)
  have "keys_in None [e, u, v, w] [\<lparr>di_section = map lower (el_text e) @ [NUL], di_iv = ''11'' @ [NUL], di_key = ''22'' @ [NUL]\<rparr>]"
    using e f by (intro keys_other [of e] keys_here [OF _ e(7)] keys_other [of v] keys_other [of w] keys_none)
      (simp_all add: value_text_def)
  then have "keys_in None (els sample_page) [\<lparr>di_section = ''iboot'' @ [NUL], di_iv = ''11'' @ [NUL], di_key = ''22'' @ [NUL]\<rparr>]"
    by (simp only: e(1,6) low)
  from ParseHtmlTags_finds_keys [OF page this] show ?thesis by blast
qed

end
