(* ===== verification/Page_Keys.thy ===== *)
theory Page_Keys imports Html_Page Pipeline begin

text \<open>
  The way of a key through the program: an update reads the keys of a page and stores them in the data base, where a later
  decryption finds them.
\<close>

subsection \<open>A page in a file\<close>

lemma page_up_mult: "0 < p \<Longrightarrow> page_up p n mod p = 0"
  by (simp add: page_up_def)

text \<open>When the length of the file is not a multiple of the size of a page, a zero follows it in memory.\<close>

lemma MapFileToMemory_padded:
  assumes m: "mappable env w fn bs" and n: "length bs mod unat (e_page env) \<noteq> 0"
  shows "\<exists>k ms. MapFileToMemory env (Some fn) w = (Some (bs @ 0 # replicate k 0, word_of_nat (length bs), ms), w\<lparr>w_fd := FD_OPEN\<rparr>) \<and> ms \<noteq> 0"
proof -
  let ?n = "word_of_nat (length bs) :: u32" and ?p = "unat (e_page env)"
  have p: "0 < ?p" "unat ?n = length bs" using m by (simp_all add: mappable_def unat_small)
  from MapFileToMemory_ok [OF m] obtain k ms where
    k: "MapFileToMemory env (Some fn) w = (Some (bs @ replicate k 0, ?n, ms), w\<lparr>w_fd := FD_OPEN\<rparr>)" "ms \<noteq> 0" by blast
  have "w_files (close_fd w) = w_files w" by (simp add: close_fd_def split: descriptor.split)
  with k have mem: "bs @ replicate k 0 = mapped (e_page env) bs (map_size (e_page env) ?n)"
    using m by (auto simp: MapFileToMemory_def mappable_def Let_def split: if_splits)
  have "unat (?n mod e_page env) \<noteq> 0" using n p(2) by (simp add: unat_mod)
  then have "?n mod e_page env \<noteq> 0" by (metis unat_0)
  then have "map_size (e_page env) ?n = ?n" unfolding map_size_def by (simp only: if_False)
  moreover have "length bs \<le> page_up ?p (length bs)" using p(1) by (rule page_up_ge)
  ultimately have "length bs + k = page_up ?p (length bs)"
    using arg_cong [OF mem, of length] p(2) by (simp add: mapped_def)
  then have "k \<noteq> 0" using n page_up_mult [OF p(1), of "length bs"] by (metis add.right_neutral)
  then obtain j where "k = Suc j" by (cases k) auto
  with k show ?thesis by (intro exI [of _ j] exI [of _ ms]) simp
qed

lemma char_zero: "char_of (0 :: nat) = NUL"
  by code_simp

definition page_file :: "'s env \<Rightarrow> 's world \<Rightarrow> string \<Rightarrow> piece list \<Rightarrow> bool" where
  "page_file env w a ps \<longleftrightarrow> (\<exists>bs. mappable env w a bs \<and> length bs mod unat (e_page env) \<noteq> 0 \<and>
     string_of_bytes bs = page_text (page_items ps))"

abbreviation key_filters :: "string list" where
  "key_filters \<equiv> [''a'', ''li'', ''span'', ''ul'']"

lemma key_filters_set:
  assumes "e_char env = NUL"
  shows "fold (\<lambda>f hp. snd (AddFilter (e_char env) (Some f) hp)) key_filters new_html_parser = fresh_parser key_filters"
  unfolding assms by (rule fresh_parser_filters) (simp add: terminated_def)

text \<open>The names of devices, versions and sections, the keys and the IVs that a command can hold.\<close>

definition storable :: "string \<Rightarrow> string \<Rightarrow> string \<Rightarrow> (string \<times> string \<times> string) list \<Rightarrow> bool" where
  "storable d b v xs \<longleftrightarrow> plain d \<and> plain b \<and> plain v \<and>
     (\<forall>(s, k, i) \<in> set xs. plain s \<and> plain k \<and> plain i \<and> length d + length b + length v + length s + length k + length i \<le> 1900)"

lemma UpdateIMG3Database_ok:
  assumes f: "page_file env w a ps" and junk: "e_char env = NUL"
    and page: "small_page key_filters ps" "list_all text_ok (els ps)" "keys_in None (els ps) (map info_of xs)"
    and db: "sql_engine (e_engine env) tab ident" "db_opens (e_engine env) tab (w_db w)"
      "d \<in> dom (tab (w_db w)) \<or> new_name (tab (w_db w)) d" "ident d"
    and st: "storable d b v xs"
  shows "\<exists>s. UpdateIMG3Database env (Some a) (Some d) (Some v) (Some b) w =
      ret (0, w\<lparr>w_fd := FD_ZERO, w_stdin := False, w_db := s\<rparr>) \<and> tab s = rows_set d v xs (tab (w_db w))"
proof -
  from f obtain bs where bs: "mappable env w a bs" "length bs mod unat (e_page env) \<noteq> 0"
    "string_of_bytes bs = page_text (page_items ps)" by (auto simp: page_file_def)
  have len: "length bs = length (page_text (page_items ps))" using arg_cong [OF bs(3), of length] by (simp add: string_of_bytes_def)
  from MapFileToMemory_padded [OF bs(1,2)] obtain k ms where
    m: "MapFileToMemory env (Some a) w = (Some (bs @ 0 # replicate k 0, word_of_nat (length bs), ms), w\<lparr>w_fd := FD_OPEN\<rparr>)" "ms \<noteq> 0" by blast
  have mem: "string_of_bytes (bs @ 0 # replicate k 0) = page_text (page_items ps) @ NUL # string_of_bytes (replicate k 0)"
    using bs(3) char_zero by (simp add: string_of_bytes_def)
  have t: "list_all terminated key_filters" by (simp add: terminated_def)
  from ParseHtmlTags_page [OF page(1) t page(2,3), of "e_chars env" "string_of_bytes (replicate k 0)"] obtain hp hp' where
    hp: "ParseHtmlTags (e_chars env) (string_of_bytes (bs @ 0 # replicate k 0)) (word_of_nat (length bs)) (fresh_parser key_filters) = ret (True, hp)"
    "decryptionList hp = map info_of xs" "destroy_html_parser hp = ret hp'" unfolding mem len by blast
  let ?sq = "\<lparr>connected = True, store = snd (db_open (e_engine env) (w_db w))\<rparr>"
  have tab: "tab (store ?sq) = tab (w_db w)" using db(2) by (simp add: db_opens_def)
  have "\<exists>s. update_infos (e_engine env) (Some d) (Some b) (Some v) (map info_of xs) ?sq = ret (0, ?sq\<lparr>store := s\<rparr>) \<and>
      tab s = rows_set d v xs (tab (store ?sq))"
    using st db by (intro sql_engine.updates_ok [OF db(1)]) (auto simp: storable_def tab [simplified])
  then obtain s where s: "update_infos (e_engine env) (Some d) (Some b) (Some v) (map info_of xs) ?sq = ret (0, ?sq\<lparr>store := s\<rparr>)"
    "tab s = rows_set d v xs (tab (w_db w))" unfolding tab by blast
  have "UpdateDatabase (e_engine env) (new_sqlite (w_db w)) (Some d) (Some b) (Some v) (map info_of xs) = ret (0, ?sq\<lparr>store := s\<rparr>)"
    using s(1) db(2) by (simp add: UpdateDatabase_def ConnectToDatabase_def new_sqlite_def db_opens_def split_def)
  then have "UpdateIMG3Database env (Some a) (Some d) (Some v) (Some b) w = ret (0, w\<lparr>w_fd := FD_ZERO, w_stdin := False, w_db := s\<rparr>)"
    unfolding UpdateIMG3Database_def m option.case prod.case Let_def key_filters_set [OF junk] hp(1) seq_ret
    using m(2) hp(2,3) by (simp add: Unmap_opened destroy_sqlite_def DisconnectFromDatabase_def close_fd_def)
  with s(2) show ?thesis by blast
qed

text \<open>C17: when the byte behind each copied filter happens to be zero (\<open>AddFilter\<close> does not write one, and with another byte there no tag is of
  interest), an update from a page stores in the data base, under the device and the version given, the key and the IV of every
  record of the page, later ones over earlier ones of the same section; it returns 0, changes no file and closes the standard
  input.\<close>

theorem UpdateIMG3Database_stores:
  assumes f: "page_file env w a ps" and junk: "e_char env = NUL"
    and page: "small_page key_filters ps" "list_all text_ok (els ps)" "keys_in None (els ps) (map info_of xs)"
    and db: "queries_ok (e_engine env) tab" "commands_ok (e_engine env) tab ident" "db_opens (e_engine env) tab (w_db w)"
      "d \<in> dom (tab (w_db w)) \<or> new_name (tab (w_db w)) d" "ident d"
    and st: "storable d b v xs"
  shows "\<exists>s. UpdateIMG3Database env (Some a) (Some d) (Some v) (Some b) w =
      ret (0, w\<lparr>w_fd := FD_ZERO, w_stdin := False, w_db := s\<rparr>) \<and> tab s = rows_set d v xs (tab (w_db w))"
  by (rule UpdateIMG3Database_ok [OF f junk page sql_engineI [OF db(1,2)] db(3-5) st])

subsection \<open>From the page to the data base and back\<close>

lemma rows_set_lookup:
  assumes "distinct (map fst xs)" "(s, k, i) \<in> set xs"
  shows "\<exists>r. rows_set d v xs t d = Some r \<and> r (v, s) = Some (i, k)"
  using assms
proof (induction xs rule: rev_induct)
  case (snoc x xs)
  have last: "rows_set d v (xs @ [x]) t = row_set (rows_set d v xs t) d v (fst x) (snd (snd x)) (fst (snd x))"
    by (simp add: rows_set_def)
  show ?case
  proof (cases "x = (s, k, i)")
    case True
    show ?thesis using last unfolding True by (simp add: row_set_def)
  next
    case False
    with snoc.prems have x: "(s, k, i) \<in> set xs" by auto
    then have "s \<in> fst ` set xs" by (force intro: rev_image_eqI)
    with snoc.prems(1) have "fst x \<noteq> s" by auto
    obtain r where "rows_set d v xs t d = Some r" "r (v, s) = Some (i, k)" using snoc x by auto
    from row_set_other [of "rows_set d v xs t" d r v s "(i, k)" d v "fst x", OF this] \<open>fst x \<noteq> s\<close> show ?thesis unfolding last by simp
  qed
qed simp

lemma key_stored_after_update:
  assumes "queries_ok (e_engine env) tab" "\<And>st. db_opens (e_engine env) tab st" "storable d b v xs" "distinct (map fst xs)"
    "(s, to_hex key, to_hex iv) \<in> set xs" "length key = 32" "length iv = 16" "tab (w_db w) = rows_set d v xs t"
  shows "key_stored env w d v s key iv"
proof -
  obtain r where r: "tab (w_db w) d = Some r" "r (v, s) = Some (to_hex iv, to_hex key)"
    unfolding assms(8) using rows_set_lookup [OF assms(4,5)] by blast
  from assms(3,5) have "plain d" "plain v" "plain s" "length d + length v + length s \<le> 1900"
    by (auto simp: storable_def)
  with r assms show ?thesis by (intro key_stored_tables [OF assms(1)])
qed

subsection \<open>A sample page and a sample file\<close>

definition bytes_of :: "string \<Rightarrow> byte list" where
  "bytes_of s = map (\<lambda>c. word_of_nat (of_char c)) s"

lemma string_of_bytes_of: "string_of_bytes (bytes_of s) = s"
proof -
  have "char_of (unat (word_of_nat (of_char c) :: byte)) = c" for c :: char
    using nat_of_char_less_256 [of c] by (simp add: unat_of_nat)
  then show ?thesis by (simp add: string_of_bytes_def bytes_of_def comp_def)
qed

lemma hex_text:
  assumes "c \<in> set (to_hex bs)" shows "hex_value c \<noteq> None"
proof -
  from assms obtain b where "c = hex_digit (unat (b :: byte) div 16) \<or> c = hex_digit (unat b mod 16)" by (auto simp: to_hex_def)
  moreover have "unat b div 16 < 16" "unat b mod 16 < 16" using unat_byte [of b] by auto
  ultimately show ?thesis using hex_digit_facts(1) by fastforce
qed

lemma not_hex: "hex_value x = None \<Longrightarrow> x \<notin> set (to_hex bs)"
  using hex_text by blast

lemma hex_free: "CHR '':'' \<notin> set (to_hex bs)" "CHR 0x0A \<notin> set (to_hex bs)" "NUL \<notin> set (to_hex bs)" "CHR '' '' \<notin> set (to_hex bs)"
  "CHR ''<'' \<notin> set (to_hex bs)" "CHR 0x27 \<notin> set (to_hex bs)"
  by (rule not_hex, simp add: hex_value_def)+

lemma value_to_hex: "value_text (to_hex bs)" "plain (to_hex bs)"
proof -
  have "hd (to_hex bs) \<notin> {CHR '' '', CHR ''<''}" if "to_hex bs \<noteq> []"
    using hd_in_set [OF that] hex_free [of bs] by (metis empty_iff insert_iff)
  then show "value_text (to_hex bs)" using hex_free [of bs] by (simp add: value_text_def)
  show "plain (to_hex bs)" using hex_free [of bs] by (simp add: plain_def)
qed

text \<open>A heading with the name of a section, and a list with its IV and its key.\<close>

definition keys_page :: "string \<Rightarrow> byte list \<Rightarrow> byte list \<Rightarrow> piece list" where
  "keys_page name iv key = [Element ''span'' [] [Other (Plain name)], Other (Comment ''keys''),
     Element ''ul'' [] [Other (Opening ''b'' []), Other (Plain ''IV''), Other (Closing ''b''), Other (Plain ('': '' @ to_hex iv)),
       Other (Plain [CHR 0x0A]), Other (Opening ''b'' []), Other (Plain ''Key''), Other (Closing ''b''),
       Other (Plain ('': '' @ to_hex key)), Other (Plain [CHR 0x0A])]]"

lemma keys_page_facts:
  assumes "length iv = 16" "length key = 32"
  shows "small_page key_filters (keys_page ''LLB'' iv key)" "list_all text_ok (els (keys_page ''LLB'' iv key))"
    "keys_in None (els (keys_page ''LLB'' iv key)) (map info_of [(''llb'', to_hex key, to_hex iv)])"
    "length (page_text (page_items (keys_page ''LLB'' iv key))) mod 4096 \<noteq> 0"
    "length (page_text (page_items (keys_page ''LLB'' iv key))) < 4096"
proof -
  have len: "length (to_hex iv) = 32" "length (to_hex key) = 64" using assms by (simp_all add: length_to_hex)
  have chars: "CHR ''<'' \<notin> set (to_hex bs)" "NUL \<notin> set (to_hex bs)" for bs by (rule hex_free)+
  show "length (page_text (page_items (keys_page ''LLB'' iv key))) mod 4096 \<noteq> 0"
    and l: "length (page_text (page_items (keys_page ''LLB'' iv key))) < 4096"
    by (simp_all add: keys_page_def len)
  show "small_page key_filters (keys_page ''LLB'' iv key)"
    using l chars by (simp add: small_page_def) (simp add: keys_page_def tag_name_def)
  show "list_all text_ok (els (keys_page ''LLB'' iv key))"
    by (simp add: keys_page_def text_ok_def el_text_def trim_def len)
  have t: "map el_name (els (keys_page ''LLB'' iv key)) = [''span'', ''ul'']"
    "map el_text (els (keys_page ''LLB'' iv key)) = [''LLB'', key_text [] 1 (to_hex iv) ''<b>Key</b>'' 1 (to_hex key) []]"
    by (simp_all add: keys_page_def el_text_def trim_def key_text_def)
  then obtain e u where e: "els (keys_page ''LLB'' iv key) = [e, u]" "el_name e = ''span''" "el_name u = ''ul''" "el_text e = ''LLB''"
    "el_text u = key_text [] 1 (to_hex iv) ''<b>Key</b>'' 1 (to_hex key) []" by (auto simp: map_eq_Cons_conv)
  have f: "find_sub ''<b>IV</b>'' (el_text u) = Some (length [])" unfolding e(5) by (simp add: key_text_def)
  have "keys_in None [e, u] [\<lparr>di_section = map lower (el_text e) @ [NUL], di_iv = to_hex iv @ [NUL], di_key = to_hex key @ [NUL]\<rparr>]"
    using e f value_to_hex(1) by (intro keys_other keys_here [OF _ e(5)] keys_none) simp_all
  moreover have "map lower ''LLB'' = ''llb''" by code_simp
  ultimately show "keys_in None (els (keys_page ''LLB'' iv key)) (map info_of [(''llb'', to_hex key, to_hex iv)])"
    by (simp only: e(1,4) list.map info_of_def fst_conv snd_conv)
qed

definition page_env :: "ref_state env" where
  "page_env = (sample_env False)\<lparr>e_char := NUL\<rparr>"

definition page_world :: "byte list \<Rightarrow> ref_state world" where
  "page_world bs = (sample_world bs)\<lparr>w_db := [], w_files := [''k.img3'' \<mapsto> bs,
     ''keys.html'' \<mapsto> bytes_of (page_text (page_items (keys_page ''LLB'' (replicate 16 2) (replicate 32 1))))]\<rparr>"

lemma page_world_page: "page_file page_env (page_world bs) ''keys.html'' (keys_page ''LLB'' (replicate 16 2) (replicate 32 1))"
proof -
  note k = keys_page_facts(4,5) [of "replicate 16 2" "replicate 32 1"]
  have l: "length (bytes_of s) = length s" for s by (simp add: bytes_of_def)
  show ?thesis
    unfolding page_file_def using k
    by (intro exI [of _ "bytes_of (page_text (page_items (keys_page ''LLB'' (replicate 16 2) (replicate 32 1))))"])
      (simp add: mappable_def page_env_def page_world_def sample_env_def l string_of_bytes_of)
qed

lemma page_env_facts: "e_char page_env = NUL" "queries_ok (e_engine page_env) ref_tab"
  "commands_ok (e_engine page_env) ref_tab (\<lambda>d. True)" "db_opens (e_engine page_env) ref_tab st"
  "storable ''iPhone3,1'' ''8F190'' ''4.3'' [(''llb'', to_hex (replicate 32 1), to_hex (replicate 16 2))]"
  using ref_queries_ok ref_commands_ok value_to_hex(2)
  by (simp_all add: page_env_def sample_env_def storable_def length_to_hex) (simp_all add: ref_engine_def plain_def db_opens_def)

theorem UpdateIMG3Database_stores_witness:
  "\<exists>s. UpdateIMG3Database page_env (Some ''keys.html'') (Some ''iPhone3,1'') (Some ''4.3'') (Some ''8F190'') (page_world []) =
      ret (0, (page_world [])\<lparr>w_fd := FD_ZERO, w_stdin := False, w_db := s\<rparr>) \<and>
    ref_tab s = rows_set ''iPhone3,1'' ''4.3'' [(''llb'', to_hex (replicate 32 1), to_hex (replicate 16 2))] (ref_tab [])"
  using UpdateIMG3Database_stores [OF page_world_page page_env_facts(1) keys_page_facts(1-3) page_env_facts(2-4) _ _ page_env_facts(5), of "[]"]
  by (simp add: page_world_def new_name_def ref_tab_def lower_def)

end
