(* ===== verification/Whole_Program.thy ===== *)
theory Whole_Program imports Main_Program Page_Keys begin

text \<open>
  Runs of the whole program, from the command line to the files and the data base: a key from a page serves a later run, a run without
  a key leaves no result, and what no run ever touches.
\<close>

subsection \<open>Two runs\<close>

text \<open>What the next process finds of what one has left: the files and the data base.\<close>

definition new_process :: "'s world \<Rightarrow> 's world" where
  "new_process w = w\<lparr>w_fd := FD_ZERO, w_stdin := True, w_out := []\<rparr>"



subsection \<open>A run without a key\<close>

text \<open>The data base cannot be opened, or the query for the IV gives no row.\<close>

definition no_key :: "'s env \<Rightarrow> 's world \<Rightarrow> string \<Rightarrow> string \<Rightarrow> string \<Rightarrow> bool" where
  "no_key env w d v s \<longleftrightarrow> length d + length v + length s \<le> 1900 \<and> (fst (db_open (e_engine env) (w_db w)) \<longrightarrow>
     row_exists (db_query (e_engine env) (w_db (opened env w)) (fill value_template [''IV'', d, v, s])) \<noteq> 0)"

lemma row_exists_not: "row_exists q \<noteq> 0 \<longleftrightarrow> (\<forall>c. q \<noteq> Row c)"
  by (cases q) (simp_all add: row_exists_def)

lemma DecryptIMG3Data_no_key:
  assumes k: "no_key env w d v s" and t: "terminated d" "terminated v"
  shows "DecryptIMG3Data env (Some c) len (Some (d @ [NUL])) (Some (v @ [NUL])) (Some s) len0 w = ret (NullBuf, NullBuf, len0, opened env w)"
proof -
  let ?e = "e_engine env" and ?q = "db_query (e_engine env) (w_db (opened env w)) (fill value_template [''IV'', d, v, s])"
  have l: "\<not> too_long (length d + length v + length value_template + 3)"
    using k by (simp add: no_key_def too_long_def template_lengths unat_small del: of_nat_add)
  have "sprintf_command value_template [''IV'', d, v, s] = ret (fill value_template [''IV'', d, v, s])"
    using k by (simp add: no_key_def sprintf_command_def commands)
  then have "retrieve_column ?e \<lparr>connected = True, store = w_db (opened env w)\<rparr> ''IV'' d v s = ret None" if "fst (db_open ?e (w_db w))"
    using k that by (cases ?q) (auto simp: retrieve_column_def no_key_def row_exists_not)
  then have "\<exists>cn. RetrieveKeyAndIV ?e (new_sqlite (w_db w)) (Some d) (Some v) (Some s) =
      ret (- 1, None, None, \<lparr>connected = cn, store = w_db (opened env w)\<rparr>)"
    using l by (intro exI [of _ "fst (db_open ?e (w_db w))"]) (simp add: RetrieveKeyAndIV_def ConnectToDatabase_def new_sqlite_def opened_def split_def)
  then show ?thesis
    by (auto simp: DecryptIMG3Data_def cstr_terminated [OF t(1)] cstr_terminated [OF t(2)] destroy_sqlite_def DisconnectFromDatabase_def opened_def)
qed

text \<open>C33: without a key in the data base, the program asked to decrypt an img3 file writes the encrypted data section to its
  file, no result and nothing else, and exits with 0 all the same; the data base has been opened, which creates its file when it is missing.\<close>

theorem main_decrypt_without_key:
  assumes f: "img3_file env w a es c" "c \<noteq> []" and k: "no_key env w d v (map lower s)" and t: "terminated d" "terminated v"
    and wr: "writable env ''data_section.bin''"
  shows "main_program env input [prog, ''decrypt'', ''-d'', d, ''-v'', v, ''-s'', s, a] w =
    ret (0, (opened env w)\<lparr>w_fd := FD_ZERO, w_files := (w_files w)(''data_section.bin'' \<mapsto> c)\<rparr>)"
proof -
  let ?w1 = "w\<lparr>w_fd := FD_OPEN, w_files := (w_files w)(''data_section.bin'' \<mapsto> c)\<rparr>"
  have "no_key env ?w1 d v (map lower s)" using k by (simp add: no_key_def opened_def)
  from DecryptIMG3Data_no_key [OF this t] DecryptIMG3File_single [OF f(1) wr f(2), of None "d @ [NUL]" "v @ [NUL]" "map lower s"]
  obtain ms where "ms \<noteq> 0" "DecryptIMG3File env (Some a) None (Some (d @ [NUL])) (Some (v @ [NUL])) (Some (map lower s)) w =
      ret (- 1, UnmapFileFromMemory ms (opened env ?w1))" by auto
  then show ?thesis by (simp add: main_decrypt_runs Unmap_opened)
qed

theorem main_decrypt_without_key_witness:
  "main_program (sample_env False) [] [''img3'', ''decrypt'', ''-d'', ''iPhone3,1'', ''-v'', ''5.0'', ''-s'', ''llb'', ''k.img3'']
      (sample_world (img3_bytes 0 0 (sample_entries (replicate 16 7)))) =
    ret (0, (sample_world (img3_bytes 0 0 (sample_entries (replicate 16 7))))\<lparr>w_fd := FD_ZERO,
      w_files := [''k.img3'' \<mapsto> img3_bytes 0 0 (sample_entries (replicate 16 7)), ''data_section.bin'' \<mapsto> replicate 16 7]\<rparr>)"
proof -
  let ?w = "sample_world (img3_bytes 0 0 (sample_entries (replicate 16 7)))"
  have f: "img3_file (sample_env False) ?w ''k.img3'' (sample_entries (replicate 16 7)) (replicate 16 7)" by (rule sample_img3_file) simp
  have s: "map lower ''llb'' = ''llb''" by code_simp
  have "no_key (sample_env False) ?w ''iPhone3,1'' ''5.0'' ''llb''"
    using pieces_commands(4) [of "''iPhone3,1''" "''5.0''" "''llb''" "''IV''"]
    by (simp add: no_key_def sample_opened, simp add: sample_env_def sample_world_def ref_engine_def ref_query_def ref_column_def plain_def row_exists_def)
  from main_decrypt_without_key [where s = "''llb''", unfolded s, OF f _ this _ _ sample_writable] show ?thesis
    by (simp add: terminated_def sample_opened) (simp add: sample_world_def)
qed

end
