(* ===== verification/Frame.thy ===== *)
theory Frame imports Main_Program begin

text \<open>
  What a run of the program can change: the files it is there to write, and no others; the contents of the data base and the standard input
  only in an update. A decryption opens the data base, which creates its file when it is missing. Each function of Functions is shown to change no more than its files; \<open>same_but\<close> composes over the sequence of calls.
\<close>

subsection \<open>Changes of the state\<close>

definition same_but :: "string set \<Rightarrow> 's world \<Rightarrow> 's world \<Rightarrow> bool" where
  "same_but A w w' \<longleftrightarrow> w_db w' = w_db w \<and> w_stdin w' = w_stdin w \<and> (\<forall>fn. fn \<notin> A \<longrightarrow> w_files w' fn = w_files w fn)"

lemma same_but_refl [simp]: "same_but A w w"
  by (simp add: same_but_def)

lemma same_but_trans: "same_but A w w' \<Longrightarrow> same_but B w' w'' \<Longrightarrow> A \<subseteq> C \<Longrightarrow> B \<subseteq> C \<Longrightarrow> same_but C w w''"
  unfolding same_but_def by (metis subsetD)

lemma same_but_mono: "same_but A w w' \<Longrightarrow> A \<subseteq> B \<Longrightarrow> same_but B w w'"
  by (auto simp: same_but_def)

lemma same_but_out [simp]: "same_but A w (w'\<lparr>w_out := x\<rparr>) = same_but A w w'" "same_but A (w\<lparr>w_out := x\<rparr>) w' = same_but A w w'"
  by (simp_all add: same_but_def)

text \<open>The data base may have been opened, once.\<close>

definition may_open :: "'s env \<Rightarrow> string set \<Rightarrow> 's world \<Rightarrow> 's world \<Rightarrow> bool" where
  "may_open env A w w' \<longleftrightarrow> same_but A w w' \<or> same_but A (opened env w) w'"

lemma may_open_same: "same_but A w w' \<Longrightarrow> may_open env A w w'"
  by (simp add: may_open_def)

lemma same_but_opened: "same_but A w w' \<Longrightarrow> same_but A (opened env w) (opened env w')"
  by (simp add: same_but_def) (simp add: opened_def)

lemma may_open_same_trans: "may_open env A w w' \<Longrightarrow> same_but A w' w'' \<Longrightarrow> may_open env A w w''"
  unfolding may_open_def using same_but_trans [of A _ w' A w'' A] by blast

subsection \<open>What holds of a result\<close>

text \<open>\<open>P\<close> holds of what a piece of code returns, if it returns; the rules follow the structure of the code.\<close>

definition whenever :: "'a exec \<Rightarrow> ('a \<Rightarrow> bool) \<Rightarrow> bool" where
  "whenever m P \<longleftrightarrow> (\<forall>x. m = ret x \<longrightarrow> P x)"

lemma whenever_simps [simp]: "whenever (ret x) P = P x" "whenever (crash f) P" "whenever None P"
  by (auto simp: whenever_def)

lemma whenever_seq: "(\<And>x. m = ret x \<Longrightarrow> whenever (k x) P) \<Longrightarrow> whenever (seq m k) P"
  by (auto simp: whenever_def seq_eq_ret)

lemma whenever_use: "whenever m Q \<Longrightarrow> (\<And>x. Q x \<Longrightarrow> whenever (k x) P) \<Longrightarrow> whenever (seq m k) P"
  by (auto simp: whenever_def seq_eq_ret)

lemma wheneverD: "whenever m P \<Longrightarrow> m = ret x \<Longrightarrow> P x"
  by (simp add: whenever_def)

subsection \<open>The support functions\<close>

lemma MapFileToMemory_same: "MapFileToMemory env n w = (r, w') \<Longrightarrow> same_but {} w w'"
  by (auto simp: MapFileToMemory_def Let_def close_fd_def same_but_def split: option.splits if_splits descriptor.splits)

lemma UnmapFileFromMemory_same: "same_but {} w (UnmapFileFromMemory ms w)"
  by (simp add: UnmapFileFromMemory_def close_fd_def same_but_def split: descriptor.split)

lemma unmapped: "same_but A w w' \<Longrightarrow> same_but A w (UnmapFileFromMemory ms w')"
  using same_but_trans [OF _ UnmapFileFromMemory_same, of A w w' A] by simp

lemma WriteDataToFile_whenever: "whenever (WriteDataToFile env fn dat len w) (\<lambda>(r, w'). same_but {fn} w w')"
proof -
  have "same_but {fn} w (w\<lparr>w_files := (w_files w)(fn \<mapsto> x)\<rparr>)" for x by (simp add: same_but_def)
  then show ?thesis unfolding WriteDataToFile_def Let_def by (simp add: whenever_seq)
qed

lemma WriteDataToFile_same: "WriteDataToFile env fn dat len w = ret (r, w') \<Longrightarrow> same_but {fn} w w'"
  by (drule wheneverD [OF WriteDataToFile_whenever]) simp

lemma RetrieveKeyAndIV_store:
  "whenever (RetrieveKeyAndIV e sq device version sec) (\<lambda>(rc, iv, key, sq'). store sq' = store sq \<or> store sq' = snd (db_open e (store sq)))"
proof (cases "device = None \<or> version = None \<or> sec = None")
  case True
  then show ?thesis by (auto simp: RetrieveKeyAndIV_def split: option.split)
next
  case False
  then obtain d v s where args: "device = Some d" "version = Some v" "sec = Some s" by auto
  define cw where "cw = (if connected sq then (0, sq) else ConnectToDatabase e sq)"
  have "store (snd cw) = store sq \<or> store (snd cw) = snd (db_open e (store sq))"
    by (auto simp: cw_def ConnectToDatabase_def split: prod.split)
  then show ?thesis
    unfolding RetrieveKeyAndIV_def args option.case prod.case cw_def [symmetric] Let_def
    by (auto intro!: whenever_seq split: option.split)
qed

lemma destroy_sqlite_store [simp]: "store (destroy_sqlite sq) = store sq"
  by (simp add: destroy_sqlite_def DisconnectFromDatabase_def)

lemma DecryptIMG3Data_opens:
  "whenever (DecryptIMG3Data env dat len d v s len0 w) (\<lambda>(p, dec, n, w'). w' = w \<or> w' = opened env w)"
proof -
  have "w\<lparr>w_db := store sq\<rparr> = w \<or> w\<lparr>w_db := store sq\<rparr> = opened env w"
    if "RetrieveKeyAndIV (e_engine env) (new_sqlite (w_db w)) d' v' s = ret (rc, iv, key, sq)"
    for d' v' rc iv key sq using wheneverD [OF RetrieveKeyAndIV_store that] by (auto simp: new_sqlite_def opened_def)
  then show ?thesis
    unfolding DecryptIMG3Data_def Let_def
    by (auto intro!: whenever_seq split: option.split)
qed

lemma DecryptIMG3Data_world:
  "DecryptIMG3Data env dat len d v s len0 w = ret (p, dec, n, w') \<Longrightarrow> w' = w \<or> w' = opened env w"
  by (drule wheneverD [OF DecryptIMG3Data_opens]) simp

subsection \<open>Decryption\<close>

lemma decrypt_file_changes:
  "whenever (decrypt_files env a output d v s [f] fi len w) (\<lambda>(rc, fi, w'). may_open env {''data_section.bin'', decrypted_name a output} w w')"
proof -
  let ?A = "{''data_section.bin'', decrypted_name a output}"
  obtain m w1 where m: "MapFileToMemory env (Some f) w = (m, w1)" by fastforce
  have w1: "same_but ?A w w1" using same_but_mono [OF MapFileToMemory_same [OF m]] by simp
  have w2: "same_but ?A w w2" if "WriteDataToFile env ''data_section.bin'' b n w1 = ret (r, w2)" for b n r w2
    using same_but_trans [OF w1 WriteDataToFile_same [OF that]] by simp
  have w3a: "may_open env ?A w w2" and w3b: "may_open env ?A w (opened env w2)"
    if "WriteDataToFile env ''data_section.bin'' b n w1 = ret (r, w2)" for b n r w2
    using w2 [OF that] same_but_opened [OF w2 [OF that]] by (simp_all add: may_open_def)
  have w4: "may_open env ?A w w4" if "may_open env ?A w w3" "WriteDataToFile env (decrypted_name a output) b n w3 = ret (r, w4)" for b n r w3 w4
    using may_open_same_trans [OF that(1)] same_but_mono [OF WriteDataToFile_same [OF that(2)]] by simp
  have un: "may_open env ?A w (UnmapFileFromMemory ms w')" if "may_open env ?A w w'" for ms w'
    using that unmapped by (auto simp: may_open_def)
  show ?thesis
  proof (cases m)
    case None
    with w1 show ?thesis by (simp add: m may_open_same)
  next
    case (Some x)
    obtain mem fileSize ms where x: "x = (mem, fileSize, ms)" by (cases x)
    show ?thesis
      unfolding decrypt_files.simps m Some x option.case prod.case decrypted_name_def [symmetric]
      by (auto simp: un may_open_same [OF w1] intro!: whenever_seq un dest!: DecryptIMG3Data_world)
        (rule w3a, assumption, rule w4 [OF w3a], assumption, assumption, rule w3b, assumption, rule w4 [OF w3b], assumption, assumption)
  qed
qed

lemma files_of_same:
  "whenever (files_of env a sec w) (\<lambda>(fs, z, w'). z_fd z = ClosedHandle \<or> w' = w)"
  unfolding files_of_def
  by (rule whenever_seq) (auto intro!: whenever_seq dest!: analyze_found ExtractFiles_fd split: option.split)

lemma leave_files_only: "whenever (leave_files z fi r) (\<lambda>r'. r' = r \<and> z_fd z \<noteq> ClosedHandle)"
  by (auto simp: whenever_def dest: leave_files_ret)

lemma leave_zip_only: "whenever (leave_zip z r) (\<lambda>r'. r' = r \<and> z_fd z \<noteq> ClosedHandle)"
  by (auto simp: whenever_def dest: leave_zip_ret)

text \<open>A run that ends has not touched an archive: what comes behind \<open>files_of\<close> starts from the state before it.\<close>

lemma with_files:
  assumes "\<And>fs z. fs = NotAnalyzed \<or> fs = Files [a] \<Longrightarrow> whenever (k fs z w) (\<lambda>(r, w'). z_fd z \<noteq> ClosedHandle \<longrightarrow> Q w')"
    and "\<And>fs z w1. whenever (k fs z w1) (\<lambda>r. z_fd z \<noteq> ClosedHandle)"
  shows "whenever (seq (files_of env a sec w) (\<lambda>(fs, z, w). k fs z w)) (\<lambda>(r :: int, w'). Q w')"
proof (rule whenever_seq)
  fix x assume f: "files_of env a sec w = ret x"
  obtain fs z w1 where x: "x = (fs, z, w1)" by (cases x)
  have "z_fd z = ClosedHandle \<or> w1 = w" using wheneverD [OF files_of_same f] by (simp add: x)
  moreover have "z_fd z = ClosedHandle \<or> fs = NotAnalyzed \<or> fs = Files [a]" using files_of_archive [OF f [unfolded x]] by blast
  ultimately show "whenever (case x of (fs, z, w) \<Rightarrow> k fs z w) (\<lambda>(r, w'). Q w')"
    using assms by (fastforce simp: x whenever_def)
qed

lemma DecryptIMG3File_changes:
  "whenever (DecryptIMG3File env (Some a) output device version sec w) (\<lambda>(r, w'). may_open env {''data_section.bin'', decrypted_name a output} w w')"
proof (cases "device = None \<or> version = None \<or> sec = None")
  case True
  then show ?thesis
    by (auto simp: DecryptIMG3File_def whenever_def may_open_same dest!: leave_files_ret split: option.splits)
next
  case False
  then obtain d v s where args: "device = Some d" "version = Some v" "sec = Some s" by auto
  show ?thesis
    unfolding DecryptIMG3File_def args option.case prod.case
  proof (rule with_files)
    show "whenever (case fs of NotAnalyzed \<Rightarrow> leave_files z new_file_iface (- 1, w) | NullList \<Rightarrow> crash NullDeref
        | Files ns \<Rightarrow> seq (decrypt_files env a output d v s ns new_file_iface (e_word env) w) (\<lambda>(rc, fi, w). leave_files z fi (rc, w)))
      (\<lambda>(r, w'). z_fd z \<noteq> ClosedHandle \<longrightarrow> may_open env {''data_section.bin'', decrypted_name a output} w w')"
      if "fs = NotAnalyzed \<or> fs = Files [a]" for fs z
      using that wheneverD [OF decrypt_file_changes]
      by (auto simp: whenever_def seq_eq_ret may_open_same dest!: leave_files_ret simp del: decrypt_files.simps)
    show "whenever (case fs of NotAnalyzed \<Rightarrow> leave_files z new_file_iface (- 1, w1) | NullList \<Rightarrow> crash NullDeref
        | Files ns \<Rightarrow> seq (decrypt_files env a output d v s ns new_file_iface (e_word env) w1) (\<lambda>(rc, fi, w). leave_files z fi (rc, w)))
      (\<lambda>r. z_fd z \<noteq> ClosedHandle)" for fs z w1
      by (cases fs) (auto simp: whenever_def seq_eq_ret dest!: leave_files_ret)
  qed
qed
subsection \<open>The other operations\<close>

lemma ListArchiveFiles_same: "whenever (ListArchiveFiles env archive w) (\<lambda>(r, w'). same_but {} w w')"
  unfolding ListArchiveFiles_def
  by (auto simp: whenever_def seq_eq_ret split: option.splits if_splits dest!: leave_zip_ret)

lemma ExtractFileFromArchive_same: "whenever (ExtractFileFromArchive env archive sec w) (\<lambda>(r, w'). same_but {} w w')"
proof -
  have closed: "z_fd z = ClosedHandle \<Longrightarrow> whenever (leave_zip z (0 :: int, x)) P" for z x P
    by (auto simp: whenever_def dest: leave_zip_ret)
  have failed: "whenever (leave_zip z (- 1 :: int, w)) (\<lambda>(r, w'). same_but {} w w')" for z
    by (auto simp: whenever_def dest: leave_zip_ret)
  show ?thesis
    unfolding ExtractFileFromArchive_def
    by (auto intro!: whenever_seq failed closed split: option.split prod.split dest!: analyze_found ExtractFiles_fd ExtractAllFiles_fd)
qed

lemma patch_file_same:
  "whenever (patch_file env False a output patch d v f fi w) (\<lambda>(rc, fi, w'). rc = - 1 \<and> same_but {patched_name a output} w w')"
proof -
  let ?A = "{patched_name a output}"
  have w1: "same_but ?A w (w\<lparr>w_files := (w_files w)(patched_name a output \<mapsto> x)\<rparr>)" for x by (simp add: same_but_def)
  have w2: "same_but ?A w w2" if "MapFileToMemory env n (w\<lparr>w_files := (w_files w)(patched_name a output \<mapsto> [])\<rparr>) = (m, w2)" for n m w2
    using same_but_trans [OF w1 MapFileToMemory_same [OF that]] by simp
  show ?thesis
    unfolding patch_file_def Let_def close_output_def close_patch_def fetch_section_def
    by (auto simp: fclose_def w1 w2 unmapped [OF w2] intro!: whenever_seq split: option.split prod.split)
qed

lemma patch_files_same:
  "whenever (patch_files env False a output patch d v fs fi w) (\<lambda>(rc, fi, w'). same_but {patched_name a output} w w')"
  by (cases fs) (auto intro!: whenever_seq dest!: wheneverD [OF patch_file_same])

lemma PatchKernelFile_same:
  "whenever (PatchKernelFile env (Some a) output patch device version w) (\<lambda>(r, w'). same_but {patched_name a output} w w')"
proof (cases "patch = None \<or> device = None \<or> version = None")
  case True
  then show ?thesis
    by (auto simp: PatchKernelFile_def whenever_def dest!: leave_files_ret split: option.splits)
next
  case False
  then obtain p d v where args: "patch = Some p" "device = Some d" "version = Some v" by auto
  let ?k = "\<lambda>fs z w. case fs of
      NotAnalyzed \<Rightarrow> seq (close_patch NoHandle NoHandle (- 1, w)) (leave_files z new_file_iface)
    | NullList \<Rightarrow> seq (close_patch NoHandle NoHandle (- 1, w)) (leave_files z new_file_iface)
    | Files ns \<Rightarrow> seq (patch_files env False a output p d v ns new_file_iface w) (\<lambda>(rc, fi, w). leave_files z fi (rc, w))"
  have "whenever (?k fs z w1) (\<lambda>(r, w'). z_fd z \<noteq> ClosedHandle \<and> same_but {patched_name a output} w1 w')" for fs z w1
    using wheneverD [OF patch_files_same]
    by (cases fs) (auto simp: close_patch_def fclose_def whenever_def seq_eq_ret dest!: leave_files_ret)
  then show ?thesis
    unfolding PatchKernelFile_def args option.case prod.case by (intro with_files) (auto simp: whenever_def)
qed

lemma ParseIMG3File_same: "whenever (ParseIMG3File env file w) (\<lambda>w'. same_but {} w w')"
  unfolding ParseIMG3File_def
  by (auto intro!: whenever_seq unmapped split: option.split prod.split) (auto dest: MapFileToMemory_same)

lemma DecompressLZSSFile_same: "whenever (DecompressLZSSFile env (Some a) w) (\<lambda>(r, w'). same_but {a @ ''_decompressed''} w w')"
proof -
  obtain m w1 where m: "MapFileToMemory env (Some a) w = (m, w1)" by fastforce
  have w1: "same_but {a @ ''_decompressed''} w w1" using same_but_mono [OF MapFileToMemory_same [OF m]] by simp
  have w2: "same_but {a @ ''_decompressed''} w (UnmapFileFromMemory ms w2)"
    if "WriteDataToFile env (a @ ''_decompressed'') b n w1 = ret (r, w2)" for b n r w2 ms
    using same_but_trans [OF w1 WriteDataToFile_same [OF that]] by (intro unmapped) simp
  show ?thesis
    unfolding DecompressLZSSFile_def m prod.case
    by (auto simp: w1 unmapped [OF w1] intro!: whenever_seq split: option.split) (rule w2)
qed

lemma UpdateIMG3Database_files: "whenever (UpdateIMG3Database env a d v b w) (\<lambda>(r, w'). w_files w' = w_files w)"
proof -
  have c: "w_files (close_fd w) = w_files w" for w :: "'a world" by (simp add: close_fd_def split: descriptor.split)
  have u: "w_files (UnmapFileFromMemory ms w) = w_files w" for ms and w :: "'a world"
    using UnmapFileFromMemory_same [of w ms] by (auto simp: same_but_def)
  obtain m w1 where m: "MapFileToMemory env a w = (m, w1)" by fastforce
  have "w_files w1 = w_files w" using MapFileToMemory_same [OF m] by (auto simp: same_but_def)
  then show ?thesis
    unfolding UpdateIMG3Database_def m prod.case Let_def
    by (auto simp: c u intro!: whenever_seq split: option.split)
qed
subsection \<open>Accepted command lines\<close>

text \<open>The parsing of the options leaves the operation alone; an accepted command line names its file last.\<close>

lemma parse_options_operation: "operation (snd (parse_options strict limit known argv i opts)) = operation opts"
proof (induction strict limit known argv i opts rule: parse_options.induct)
  case (1 strict limit known argv index opts)
  have "operation (store_option l x opts) = operation opts" for l x by (simp add: store_option_def)
  with 1 show ?case by (subst parse_options.simps) (auto split: option.split)
qed

lemma complete_names_same:
  "whenever (complete_names junk a opts) (\<lambda>(ok, opts'). operation opts' = operation opts \<and> archiveFileName opts' = archiveFileName opts)"
  unfolding complete_names_def version_from_name_def Let_def
  by (auto intro!: whenever_seq split: option.split)

definition accepted :: "string list \<Rightarrow> ParserOperation \<Rightarrow> answer \<Rightarrow> bool" where
  "accepted argv op = (\<lambda>(rc, opts, help). rc = 0 \<longrightarrow> operation opts = op \<and> archiveFileName opts = Some (last argv))"

lemma accepted_simps [simp]:
  "whenever (refuse opts help) (accepted argv op)"
  "whenever (accept opts) (accepted argv op) \<longleftrightarrow> operation opts = op \<and> archiveFileName opts = Some (last argv)"
  by (simp_all add: refuse_def accept_def accepted_def)

lemma parse_accepted:
  "whenever (parse_decrypt junk argv) (accepted argv DECRYPT_IMG3_FILE)"
  "whenever (parse_update input argv) (accepted argv UPDATE_IMG3_DATABASE)"
  "whenever (parse_list argv) (accepted argv LIST_ARCHIVE_FILES)"
  "whenever (parse_extract argv) (accepted argv EXTRACT_FILE)"
  "whenever (parse_patch junk argv) (accepted argv PATCH_KERNEL)"
  "whenever (parse_one_file op argv) (accepted argv op)"
proof -
  have op: "parse_options strict limit known argv 2 (no_options x) = (ok, opts) \<Longrightarrow> operation opts = x" for strict limit known ok opts x
    using parse_options_operation [of strict limit known argv 2 "no_options x"] by (simp add: no_options_def)
  show "whenever (parse_decrypt junk argv) (accepted argv DECRYPT_IMG3_FILE)"
    unfolding parse_decrypt_def Let_def
    by (auto intro!: whenever_seq dest!: op wheneverD [OF complete_names_same] split: prod.split)
  show "whenever (parse_update input argv) (accepted argv UPDATE_IMG3_DATABASE)"
    unfolding parse_update_def Let_def by (auto intro!: whenever_seq dest!: op split: prod.split)
  show "whenever (parse_list argv) (accepted argv LIST_ARCHIVE_FILES)"
    by (simp add: parse_list_def Let_def no_options_def)
  show "whenever (parse_extract argv) (accepted argv EXTRACT_FILE)"
    unfolding parse_extract_def Let_def by (auto dest!: op split: prod.split)
  show "whenever (parse_patch junk argv) (accepted argv PATCH_KERNEL)"
    unfolding parse_patch_def Let_def
    by (auto intro!: whenever_seq dest!: op wheneverD [OF complete_names_same] split: prod.split)
  have "argv ! 2 = last argv" if "length argv = 3" using that by (cases argv rule: rev_cases) (auto simp: nth_append)
  then show "whenever (parse_one_file op argv) (accepted argv op)"
    by (simp add: parse_one_file_def no_options_def)
qed

definition operation_of :: "string \<Rightarrow> ParserOperation option" where
  "operation_of cmd = map_of [(''decrypt'', DECRYPT_IMG3_FILE), (''update'', UPDATE_IMG3_DATABASE), (''list'', LIST_ARCHIVE_FILES),
     (''extract'', EXTRACT_FILE), (''patch'', PATCH_KERNEL), (''parse'', PARSE_FILE), (''decompress'', DECOMPRESS_FILE)] cmd"

lemma ParseArguments_accepted:
  "whenever (ParseArguments junk input argv) (\<lambda>(rc, opts, help). rc = 0 \<longrightarrow>
     operation_of (argv ! 1) = Some (operation opts) \<and> archiveFileName opts = Some (last argv))"
proof -
  have p: "whenever m (\<lambda>(rc, opts, help). rc = 0 \<longrightarrow> operation_of (argv ! 1) = Some (operation opts) \<and> archiveFileName opts = Some (last argv))"
    if "whenever m (accepted argv op)" "operation_of (argv ! 1) = Some op" for m op
    using that by (auto simp: whenever_def accepted_def)
  show ?thesis
    unfolding ParseArguments_def
    using parse_accepted [THEN p] by (auto simp: refuse_def operation_of_def)
qed

subsection \<open>The program\<close>

text \<open>The files a command may write, given the name of the file it works on.\<close>

definition result_files :: "string \<Rightarrow> string \<Rightarrow> string set" where
  "result_files cmd a = (if cmd = ''decrypt'' then {''data_section.bin'', a @ ''_decrypted''}
     else if cmd = ''patch'' then {take 2047 (a @ ''_patched'')}
     else if cmd = ''decompress'' then {a @ ''_decompressed''} else {})"

text \<open>C16: whatever the command line, the files and the system are, a run of the program that ends has changed no files but the results
  of its command, apart from the file of the data base. Only \<^verbatim>\<open>update\<close> and \<^verbatim>\<open>decrypt\<close> touch the data base; \<^verbatim>\<open>decrypt\<close> does no more than open it,
  once at most, which creates its file when it is missing. Only \<^verbatim>\<open>update\<close> closes the standard input.\<close>

theorem main_changes_only:
  assumes "main_program env input argv w = ret (code, w')"
  shows "(\<forall>fn. fn \<notin> result_files (argv ! 1) (last argv) \<longrightarrow> w_files w' fn = w_files w fn) \<and>
    (argv ! 1 \<noteq> ''update'' \<longrightarrow> w_stdin w' = w_stdin w \<and>
      (w_db w' = w_db w \<or> argv ! 1 = ''decrypt'' \<and> w_db w' = snd (db_open (e_engine env) (w_db w))))"
proof -
  obtain rc opts h where a: "ParseArguments (e_chars env) input argv = ret (rc, opts, h)"
    using assms by (auto simp: main_program_def seq_eq_ret)
  let ?w = "w\<lparr>w_out := w_out w @ h\<rparr>"
  show ?thesis
  proof (cases "rc = 0")
    case False
    with assms a have "w' = ?w" by (simp add: main_program_def Let_def)
    then show ?thesis by simp
  next
    case True
    with assms a have run: "run_operation env opts ?w = ret w'" by (simp add: main_program_def Let_def seq_eq_ret)
    from wheneverD [OF ParseArguments_accepted a] True have op: "operation_of (argv ! 1) = Some (operation opts)"
      and last: "archiveFileName opts = Some (last argv)" by auto
    let ?A = "result_files (argv ! 1) (last argv)"
    consider "argv ! 1 = ''update''" | "argv ! 1 = ''decrypt''" | "argv ! 1 \<noteq> ''update''" "argv ! 1 \<noteq> ''decrypt''" by blast
    then show ?thesis
    proof cases
      case 1
      with op have "operation opts = UPDATE_IMG3_DATABASE" by (simp add: operation_of_def)
      then have "whenever (run_operation env opts ?w) (\<lambda>w'. w_files w' = w_files w)"
        by (auto simp: run_operation_def intro!: whenever_seq dest!: wheneverD [OF UpdateIMG3Database_files])
      from wheneverD [OF this run] 1 show ?thesis by simp
    next
      case 2
      with op have "operation opts = DECRYPT_IMG3_FILE" by (simp add: operation_of_def)
      then have "whenever (run_operation env opts ?w) (may_open env {''data_section.bin'', decrypted_name (last argv) None} ?w)"
        using last by (auto simp: run_operation_def intro!: whenever_seq dest!: wheneverD [OF DecryptIMG3File_changes])
      then have "may_open env {''data_section.bin'', last argv @ ''_decrypted''} ?w w'"
        using run by (auto simp: whenever_def decrypted_name_def)
      with 2 show ?thesis by (auto simp: may_open_def same_but_def result_files_def) (auto simp: opened_def)
    next
      case 3
      have "whenever (ParseIMG3File env (Some (last argv)) ?w) (same_but {} w)"
        using ParseIMG3File_same [of env "Some (last argv)" ?w] by simp
      then have "whenever (run_operation env opts ?w) (\<lambda>w'. same_but ?A ?w w')"
        using op 3 unfolding run_operation_def last
        by (auto simp: operation_of_def result_files_def patched_name_def same_but_out intro!: whenever_seq
          dest!: wheneverD [OF ListArchiveFiles_same] wheneverD [OF ExtractFileFromArchive_same]
            wheneverD [OF PatchKernelFile_same] wheneverD [OF DecompressLZSSFile_same] split: if_splits)
      from wheneverD [OF this run] 3 show ?thesis by (auto simp: same_but_def)
    qed
  qed
qed

theorem main_changes_only_witness:
  "\<exists>w'. main_program (sample_env False) [] [''img3'', ''decrypt'', ''-d'', ''iPhone3,1'', ''-v'', ''4.3'', ''-s'', ''LLB'', ''k.img3'']
      (sample_world (img3_bytes 0 0 (sample_entries (replicate 48 10)))) = ret (0, w') \<and>
    w_files w' ''k.img3_decrypted'' \<noteq> None \<and> w_files w' ''k.img3'' = Some (img3_bytes 0 0 (sample_entries (replicate 48 10))) \<and>
    w_db w' = w_db (sample_world []) \<and> w_stdin w' = w_stdin (sample_world [])"
proof -
  let ?w = "sample_world (img3_bytes 0 0 (sample_entries (replicate 48 10)))"
  let ?argv = "[''img3'', ''decrypt'', ''-d'', ''iPhone3,1'', ''-v'', ''4.3'', ''-s'', ''LLB'', ''k.img3'']"
  have s: "map lower ''LLB'' = ''llb''" by code_simp
  have "encrypted (e_evp (sample_env False)) (replicate 32 1) (replicate 16 2) (replicate 48 9) = replicate 48 10"
    by (simp add: sample_cipher(2))
  then have f: "img3_file (sample_env False) ?w ''k.img3'' (sample_entries (replicate 48 10))
      (encrypted (e_evp (sample_env False)) (replicate 32 1) (replicate 16 2) (replicate 48 9))"
    using sample_img3_file [of "replicate 48 10"] by simp
  from DecryptIMG3File_recovers [OF sample_cipher(1) f sample_key_stored sample_terminated sample_writable sample_writable sample_payload, of None]
  obtain q w1 where "DecryptIMG3File (sample_env False) (Some ''k.img3'') None (Some (''iPhone3,1'' @ [NUL])) (Some (''4.3'' @ [NUL]))
      (Some ''llb'') ?w = ret (0, w1)" "w_files w1 ''k.img3_decrypted'' = Some q" by (auto simp: decrypted_name_def)
  then have r: "main_program (sample_env False) [] ?argv ?w = ret (0, w1)" "w_files w1 ''k.img3_decrypted'' = Some q"
    by (simp_all only: main_decrypt_runs s seq_ret prod.case)
  from main_changes_only [OF r(1)] r show ?thesis
    by (auto simp: result_files_def sample_world_def sample_env_def ref_engine_def)
qed

end
