(* ===== verification/Kernel_Patch.thy ===== *)
theory Kernel_Patch imports Pipeline begin

text \<open>
  What the body of \<open>PatchKernelFile\<close> would do with a data section, were the two calls that fetch it put back: the section is decrypted, the
  patches are applied, and the result is compressed and encrypted, into what decrypts to the patched data. But \<open>GetSectionData\<close> gives the section's
  own copy of the data; the new section is copied there, with no check of its length, and the file is written as it was.
\<close>

subsection \<open>Encryption\<close>

text \<open>When padding comes back, the encryption is one block longer than its buffer.\<close>

lemma EncryptIMG3Data_ok:
  assumes law: "evp_law (e_evp env) keeps" and x: "384 \<le> length x" "length x < 2 ^ 31 - 192" and k: "key_stored env w d v s key iv"
  shows "\<exists>p. unpacks env p x \<and> length (encrypted (e_evp env) key iv p) = length p \<and> p \<noteq> [] \<and> length p < 2 ^ 32 \<and> length p \<le> 2 * length x + 384 \<and>
    EncryptIMG3Data env (Some x) (word_of_nat (length x)) (Some d) (Some v) (Some s) True len0 w =
      (if keeps then ret (Buf (encrypted (e_evp env) key iv p), Buf (encrypted (e_evp env) key iv p), word_of_nat (length p), opened env w)
       else crash OutOfBounds)"
proof -
  from LzssCompress_readable [OF x, of "e_bytes env" "e_state env" "e_window env" LZSS_NONE] obtain buf n where
    comp: "LzssCompress (e_bytes env) (e_state env) (e_window env) LZSS_NONE (Some x) (word_of_nat (length x)) True =
      ret \<lparr>lz_return = 0, lz_error = LZSS_NONE, lz_out = Some (buf, n)\<rparr>" and n: "n \<le> length buf" "n \<le> 2 * length x + 384" by blast
  note u = unpacks_compressed [OF x comp]
  let ?p = "take n buf" and ?c = "encrypted (e_evp env) key iv (take n buf)"
  from k have kl: "length key = 32" "length iv = 16" by (simp_all add: key_stored_def)
  with law u have c: "length ?c = n" by (simp add: evp_law_def Let_def)
  have nn: "unat (word_of_nat n :: u32) = n" using u(5) by (simp add: unat_small)
  have len: "(ucast (word_of_nat (length x) :: u32) :: u64) = word_of_nat (length x)"
    using x(2) by (simp add: unsigned_of_nat take_bit_nat_eq_self)
  let ?ssl = "new_openssl\<lparr>ssl_key := Buf key, ssl_iv := Buf iv, keySize := 32, ivSize := 16\<rparr>"
  have set: "SetKeyAndIV (e_word env) (Some (to_hex key)) (Some (to_hex iv)) new_openssl = ret (0, ?ssl)"
    using SetKeyAndIV_ok [of new_openssl key iv "e_word env"] kl by (simp add: fresh_buffers_def new_openssl_def)
  have p: "?p \<noteq> []" "length ?p mod 16 = 0" using u(2-4) by auto
  have ssl: "ssl_key ?ssl = Buf key" "ssl_iv ?ssl = Buf iv" by simp_all
  have run: "EncryptData (e_evp env) ?ssl (Some buf) n None = (if keeps then ret (0, Some ?c) else crash OutOfBounds)"
    using EncryptData_ok [OF law ssl(1) kl(1) ssl(2) kl(2) p, of "drop n buf"] unfolding u(2) append_take_drop_id .
  have del: "\<exists>ssl. destroy_openssl ?ssl = ret ssl" by (simp add: destroy_openssl_def delete_buf_def new_openssl_def)
  have w: "w\<lparr>w_db := w_db (opened env w)\<rparr> = opened env w" by (simp add: opened_def)
  have "EncryptIMG3Data env (Some x) (word_of_nat (length x)) (Some d) (Some v) (Some s) True len0 w =
      (if keeps then ret (Buf ?c, Buf ?c, word_of_nat n, opened env w) else crash OutOfBounds)"
    using k set run del comp
    by (auto simp: EncryptIMG3Data_def key_stored_def len padded_multiple [OF u(4,5)] nn Let_def destroy_sqlite_def
      DisconnectFromDatabase_def w)
  moreover have "unpacks env ?p x" using u(1) [of "[]"] u(5) by simp
  ultimately show ?thesis using c u(2,3,5) n(2) p(1) by (intro exI [of _ ?p]) simp
qed

subsection \<open>One round\<close>

lemma blit_length: "blit dat i bs = ret dat' \<Longrightarrow> length dat' = length dat"
  by (auto simp: blit_def split: if_splits)

lemma apply_patches_length: "apply_patches len ls dat = ret dat' \<Longrightarrow> length dat' = length dat"
proof (induction len ls dat rule: apply_patches.induct)
  case (2 len line ls dat)
  show ?case
  proof (cases "scan_patch line")
    case None
    with 2 show ?thesis by simp
  next
    case (Some av)
    then obtain addr val where s: "scan_patch line = Some (addr, val)" by (cases av) auto
    show ?thesis
    proof (cases "addr > len")
      case True
      with 2 s show ?thesis by simp
    next
      case False
      with "2.prems" s obtain d where d: "blit dat (unat addr) (le32_bytes val) = ret d" "apply_patches len ls d = ret dat'"
        by (auto simp: seq_eq_ret)
      from "2.IH"(2) [OF s refl False d(2)] blit_length [OF d(1)] show ?thesis by simp
    qed
  qed
qed simp

text \<open>The patches of a file.\<close>

definition patch_lines :: "'s world \<Rightarrow> string \<Rightarrow> string list" where
  "patch_lines w patch = fgets_lines (string_of_bytes (case w_files w patch of None \<Rightarrow> [] | Some bs \<Rightarrow> bs))"

lemma lines_opened: "patch_lines (opened env w) patch = patch_lines w patch"
  by (simp add: patch_lines_def)

lemma patch_section_ok:
  assumes law: "evp_law (e_evp env) keeps"
    and k: "key_stored env w d v ''kernelcache'' key iv" "key_stored env (opened env w) d v ''kernelcache'' key iv"
    and t: "terminated d" "terminated v" and p: "p \<noteq> []" "length p mod 16 = 0" "length p < 2 ^ 32"
    and un: "\<forall>q. survives keeps p q \<longrightarrow> unpacks env q x" and x: "384 \<le> length x" "length x < 2 ^ 31 - 192"
    and y: "apply_patches (word_of_nat (length x)) (patch_lines w patch) x = ret y"
    and wr: "writable env out" "unat fileSize \<le> length block"
  shows "\<exists>r. unpacks env r y \<and> length r \<le> 2 * length y + 384 \<and>
    patch_section env out patch (d @ [NUL]) (v @ [NUL]) (encrypted (e_evp env) key iv p) (word_of_nat (length p)) fileSize block w =
      (if keeps \<and> length r \<le> length p
       then ret (0, (opened env (opened env w))\<lparr>w_files := (w_files w)(out \<mapsto> take (unat fileSize) block)\<rparr>)
       else crash OutOfBounds)"
proof -
  have ly: "length y = length x" using apply_patches_length [OF y] .
  from k(1) have kl: "length key = 32" "length iv = 16" by (simp_all add: key_stored_def)
  with law p(2) have lc: "length (encrypted (e_evp env) key iv p) = length p" by (simp add: evp_law_def Let_def)
  from DecryptIMG3Data_ok [OF law k(1) t p, of "[]" "e_word env"] un
  have D: "DecryptIMG3Data env (Some (encrypted (e_evp env) key iv p)) (word_of_nat (length p)) (Some (d @ [NUL])) (Some (v @ [NUL]))
      (Some ''kernelcache'') (e_word env) w = ret (Buf x, Buf x, word_of_nat (length x), opened env w)" by auto
  have "384 \<le> length y" "length y < 2 ^ 31 - 192" using x ly by simp_all
  from EncryptIMG3Data_ok [OF law this k(2), of "e_word env"] obtain r where
    r: "unpacks env r y" "length (encrypted (e_evp env) key iv r) = length r" "length r < 2 ^ 32" "length r \<le> 2 * length y + 384"
    and E: "EncryptIMG3Data env (Some y) (word_of_nat (length y)) (Some d) (Some v) (Some ''kernelcache'') True (e_word env) (opened env w) =
      (if keeps then ret (Buf (encrypted (e_evp env) key iv r), Buf (encrypted (e_evp env) key iv r), word_of_nat (length r), opened env (opened env w))
       else crash OutOfBounds)" by blast
  have lr: "unat (word_of_nat (length r) :: u32) = length r" using r(3) by (simp add: unat_small)
  have "patch_section env out patch (d @ [NUL]) (v @ [NUL]) (encrypted (e_evp env) key iv p) (word_of_nat (length p)) fileSize block w =
      (if keeps \<and> length r \<le> length p
       then ret (0, (opened env (opened env w))\<lparr>w_files := (w_files w)(out \<mapsto> take (unat fileSize) block)\<rparr>)
       else crash OutOfBounds)"
    using D E y wr ly by (auto simp: patch_section_def patch_lines_def [symmetric] lines_opened cstr_terminated [OF t(1)] cstr_terminated [OF t(2)]
      read_buf_def lr r(2) lc slice_def blit_def writable_def)
  with r show ?thesis by blast
qed


text \<open>A compressed data section with room to spare, and one patch.\<close>

definition patch_world :: "byte list \<Rightarrow> ref_state world" where
  "patch_world bs = (sample_world bs)\<lparr>w_files := [''k.img3'' \<mapsto> bs, ''p.txt'' \<mapsto> [48, 32, 49, 48, 50, 48, 51, 48, 52]],
     w_db := [(''iPhone3,1'', [((''4.3'', ''kernelcache''), to_hex (replicate 16 2), to_hex (replicate 32 1))])]\<rparr>"

lemma patch_world_key:
  "key_stored (sample_env keeps) (patch_world bs) ''iPhone3,1'' ''4.3'' ''kernelcache'' (replicate 32 1) (replicate 16 2)"
  "opened (sample_env keeps) (patch_world bs) = patch_world bs"
proof (rule key_stored_tables [of _ ref_tab])
  show "queries_ok (e_engine (sample_env keeps)) ref_tab" using ref_queries_ok by (simp add: sample_env_def)
  show "ref_tab (w_db (patch_world bs)) ''iPhone3,1'' =
      Some [(''4.3'', ''kernelcache'') \<mapsto> (to_hex (replicate 16 2), to_hex (replicate 32 1))]"
    by (simp add: patch_world_def)
qed (simp_all add: sample_env_def ref_engine_def plain_def db_opens_def opened_def)


end
